(* ===== verification/Kernel_Prelude.thy ===== *)
theory Kernel_Prelude
  imports Main "HOL-Library.Word" "HOL-Library.Monad_Syntax"
begin

text \<open>
  The part of the library that every component of the kernel shares.

  \<^item> Names for the fixed-width integers of the sources (\<open>unsigned long\<close> is \<open>u64\<close>, and so on).
  \<^item> The convention for a kernel that stops: \<open>BUG()\<close>, a failed \<open>assert\<close> and a
    deliberate \<open>while(1);\<close> never return, so an operation that can reach one of them has a
    result of type \<open>'a option\<close>, with \<^term>\<open>None\<close> for the run that never returns.
    A theorem that such an operation returns \<open>Some\<close> therefore says that the kernel does not halt.
  \<^item> Runs of a component: a list of operations executed one after the other, and the locale that
    turns ``every operation keeps the invariant'' into ``every run keeps the invariant''.
  \<^item> Small facts on lists and powers of two that several components use.
\<close>

unbundle bit_operations_syntax

section \<open>Machine integers and results\<close>

type_synonym u8 = "8 word"
type_synonym u16 = "16 word"
type_synonym u32 = "32 word"
type_synonym u64 = "64 word"

text \<open>\<open>JSUCCESS\<close> and \<open>JFAIL\<close>, \<open>SYSCALL_SUCCESS\<close> and \<open>SYSCALL_FAIL\<close> of include/common.h.\<close>

abbreviation JSUCCESS :: int where "JSUCCESS \<equiv> 1"
abbreviation JFAIL :: int where "JFAIL \<equiv> 0"
abbreviation SYSCALL_SUCCESS :: int where "SYSCALL_SUCCESS \<equiv> 0"
abbreviation SYSCALL_FAIL :: int where "SYSCALL_FAIL \<equiv> - 1"

text \<open>\<open>PAGE_SHIFT\<close> and \<open>PAGE_SIZE\<close> of include/multiboot.h.\<close>

abbreviation PAGE_SHIFT :: nat where "PAGE_SHIFT \<equiv> 12"
abbreviation PAGE_SIZE :: nat where "PAGE_SIZE \<equiv> 4096"

text \<open>Page alignment and the start of the kernel's code, include/mm.h.\<close>

definition PAGE_MASK :: u64 where "PAGE_MASK = NOT 4095"

definition PAGE_ALIGN :: "u64 \<Rightarrow> u64" where
  "PAGE_ALIGN addr = (addr + 4096 - 1) AND PAGE_MASK"

definition KERNEL_CODE_START :: u64 where "KERNEL_CODE_START = 0xffffffff80000000"

text \<open>\<open>MAX_CPUS\<close> of include/types.h.\<close>

definition MAX_CPUS :: nat where "MAX_CPUS = 10"

named_theorems kernel_ops \<open>defining equations of kernel operations, unfolded by the component proofs\<close>
named_theorems kernel_inv \<open>operations keep the invariant of their component\<close>

section \<open>Stopping the kernel\<close>

text \<open>The \<open>assert\<close> macro of include/common.h: it passes on, or runs into \<open>BUG()\<close>.\<close>

definition kassert :: "bool \<Rightarrow> unit option" where
  "kassert c = (if c then Some () else None)"

lemma kassert_simps [simp]: "kassert True = Some ()" "kassert False = None"
  by (simp_all add: kassert_def)

lemma kassert_bind [simp]: "(kassert c \<bind> f) = (if c then f () else None)"
  by (simp add: kassert_def)

lemma kassert_eq_Some [simp]: "kassert c = Some u \<longleftrightarrow> c"
  by (simp add: kassert_def)

lemma obind_cong:
  "x = y \<Longrightarrow> (\<And>a. y = Some a \<Longrightarrow> f a = g a) \<Longrightarrow> Option.bind x f = Option.bind y g"
  by (cases y) auto

section \<open>Runs of a component\<close>

primrec run_ops :: "('e \<Rightarrow> 's \<Rightarrow> 's option) \<Rightarrow> 'e list \<Rightarrow> 's \<Rightarrow> 's option" where
  "run_ops exec [] s = Some s"
| "run_ops exec (e # es) s = (exec e s \<bind> run_ops exec es)"

text \<open>
  A run is legal when every operation is called in a state where its caller is allowed to call it.
\<close>

primrec legal_run :: "('e \<Rightarrow> 's \<Rightarrow> 's option) \<Rightarrow> ('e \<Rightarrow> 's \<Rightarrow> bool) \<Rightarrow> 'e list \<Rightarrow> 's \<Rightarrow> bool" where
  "legal_run exec ok [] s \<longleftrightarrow> True"
| "legal_run exec ok (e # es) s \<longleftrightarrow>
     ok e s \<and> (case exec e s of None \<Rightarrow> True | Some s' \<Rightarrow> legal_run exec ok es s')"

lemma run_ops_append:
  "run_ops exec (es @ fs) s = (run_ops exec es s \<bind> run_ops exec fs)"
  by (induction es arbitrary: s) (auto split: bind_split)

locale machine =
  fixes exec :: "'e \<Rightarrow> 's \<Rightarrow> 's option"
    and ok :: "'e \<Rightarrow> 's \<Rightarrow> bool"
    and inv :: "'s \<Rightarrow> bool"
  assumes exec_keeps_inv: "inv s \<Longrightarrow> ok e s \<Longrightarrow> \<exists>s'. exec e s = Some s' \<and> inv s'"
begin

lemma run_keeps_inv:
  "inv s \<Longrightarrow> legal_run exec ok es s \<Longrightarrow> \<exists>s'. run_ops exec es s = Some s' \<and> inv s'"
proof (induction es arbitrary: s)
  case Nil
  then show ?case by simp
next
  case (Cons e es)
  from Cons.prems obtain s1 where s1: "exec e s = Some s1" "inv s1"
    using exec_keeps_inv by fastforce
  with Cons.prems have "legal_run exec ok es s1" by simp
  from Cons.IH [OF s1(2) this] s1(1) show ?case by simp
qed

lemma run_never_halts: "inv s \<Longrightarrow> legal_run exec ok es s \<Longrightarrow> run_ops exec es s \<noteq> None"
  using run_keeps_inv by fastforce

end

section \<open>Lists\<close>

lemma sum_list_remove1_map:
  fixes f :: "'a \<Rightarrow> nat"
  assumes "x \<in> set xs"
  shows "sum_list (map f (remove1 x xs)) + f x = sum_list (map f xs)"
  using assms by (induction xs) auto

section \<open>Aligned blocks\<close>

text \<open>
  A block of order \<open>o\<close> at \<open>n\<close> is the interval of \<open>2 ^ o\<close> numbers from \<open>n\<close>. Two aligned blocks
  are nested or disjoint, which is what a buddy system rests on.
\<close>

definition block :: "nat \<Rightarrow> nat \<Rightarrow> nat set" where
  "block k n = {n ..< n + 2 ^ k}"

definition aligned :: "nat \<Rightarrow> nat \<Rightarrow> bool" where
  "aligned k n \<longleftrightarrow> 2 ^ k dvd n"

lemma block_nonempty [simp]: "block k n \<noteq> {}"
  by (simp add: block_def)

lemma block_start [simp]: "n \<in> block k n"
  by (simp add: block_def)

lemma finite_block [simp]: "finite (block k n)"
  by (simp add: block_def)

lemma card_block [simp]: "card (block k n) = 2 ^ k"
  by (simp add: block_def)

lemma block_0 [simp]: "block 0 n = {n}"
  by (auto simp: block_def)

lemma block_halves: "block (Suc k) n = block k n \<union> block k (n + 2 ^ k)"
  by (auto simp: block_def)

lemma block_halves_disjoint: "block k n \<inter> block k (n + 2 ^ k) = {}"
  by (auto simp: block_def)

lemma aligned_0 [simp]: "aligned 0 n"
  by (simp add: aligned_def)

lemma aligned_mono: "aligned k n \<Longrightarrow> j \<le> k \<Longrightarrow> aligned j n"
  unfolding aligned_def by (meson dvd_trans le_imp_power_dvd)

lemma aligned_add: "aligned k n \<Longrightarrow> aligned k (n + 2 ^ k)"
  by (simp add: aligned_def)

lemma div_eq_iff_between:
  fixes m q d :: nat
  assumes "0 < d"
  shows "m div d = q \<longleftrightarrow> q * d \<le> m \<and> m < q * d + d"
proof -
  have "m div d = q \<longleftrightarrow> q \<le> m div d \<and> m div d < Suc q" by auto
  also have "\<dots> \<longleftrightarrow> q * d \<le> m \<and> m < Suc q * d"
    using assms by (simp add: less_eq_div_iff_mult_less_eq div_less_iff_less_mult)
  finally show ?thesis by (simp add: add.commute)
qed

lemma aligned_block_mem:
  assumes "aligned k n"
  shows "m \<in> block k n \<longleftrightarrow> m div 2 ^ k = n div 2 ^ k"
proof -
  obtain q where q: "n = q * 2 ^ k"
    using assms unfolding aligned_def by (metis dvd_div_mult_self)
  then show ?thesis
    by (simp add: block_def div_eq_iff_between)
qed

lemma aligned_nested:
  assumes "aligned k n" "aligned j m" "j \<le> k" "block j m \<inter> block k n \<noteq> {}"
  shows "block j m \<subseteq> block k n"
proof
  fix y assume y: "y \<in> block j m"
  obtain x where x: "x \<in> block j m" "x \<in> block k n" using assms(4) by blast
  have "(2::nat) ^ k = 2 ^ j * 2 ^ (k - j)"
    using assms(3) by (metis le_add_diff_inverse power_add)
  moreover have "y div 2 ^ j = x div 2 ^ j"
    using x(1) y assms(2) by (simp add: aligned_block_mem)
  ultimately have "y div 2 ^ k = x div 2 ^ k"
    by (simp add: div_mult2_eq)
  then show "y \<in> block k n"
    using x(2) assms(1) by (simp add: aligned_block_mem)
qed

lemma aligned_same_order:
  assumes "aligned k n" "aligned k m" "block k m \<inter> block k n \<noteq> {}"
  shows "m = n"
proof -
  obtain x where "x \<in> block k m" "x \<in> block k n" using assms(3) by blast
  then have "m div 2 ^ k = n div 2 ^ k"
    using assms(1,2) by (simp add: aligned_block_mem)
  then show ?thesis
    using assms(1,2) unfolding aligned_def by (metis dvd_div_mult_self)
qed

section \<open>Words and the numbers they hold\<close>

lemma unat_of_nat_u64 [simp]: "n < 2 ^ 64 \<Longrightarrow> unat (of_nat n :: u64) = n"
  by (simp add: unat_of_nat)

lemma unat_of_nat_u32 [simp]: "n < 2 ^ 32 \<Longrightarrow> unat (of_nat n :: u32) = n"
  by (simp add: unat_of_nat)

lemma unat_of_nat_u16 [simp]: "n < 2 ^ 16 \<Longrightarrow> unat (of_nat n :: u16) = n"
  by (simp add: unat_of_nat)

lemma drop_bit_of_nat_u64:
  assumes "p < 2 ^ 64"
  shows "drop_bit k (of_nat p :: u64) = of_nat (p div 2 ^ k)"
proof -
  have "p div 2 ^ k < 2 ^ 64" using div_le_dividend [of p "2 ^ k"] assms by linarith
  then show ?thesis
    unfolding word_unat_eq_iff unat_drop_bit_eq using assms by (simp add: drop_bit_eq_div)
qed

lemma bit_of_nat_u64: "k < 64 \<Longrightarrow> bit (of_nat p :: u64) k \<longleftrightarrow> odd (p div 2 ^ k)"
  by (simp add: bit_of_nat_iff flip: bit_iff_odd)

end
