(* ===== verification/Linked_List.thy ===== *)
theory Linked_List
  imports Kernel_Prelude
begin

text \<open>
  The circular doubly linked list of include/list.h, which the run queues, wait queues, slab
  lists, page-cache lists and inode lists are made of. The store is explicit: a node is its
  address, and the state maps every address to the two pointers of its \<open>struct list_head\<close>.
  Address 0 is the null pointer; a write through it faults, which is \<^term>\<open>None\<close>.

  \<open>dlist h head xs\<close> relates a store to the list of nodes a head stands for. Every operation is
  shown to return, to act on that list as its comment says, and to leave every other list alone.
\<close>

section \<open>The store and the operations\<close>

type_synonym node = nat

record lheap =
  nxt :: "node \<Rightarrow> node"
  prv :: "node \<Rightarrow> node"

definition get_next :: "node \<Rightarrow> lheap \<Rightarrow> node option" where
  "get_next p h = (if p = 0 then None else Some (nxt h p))"

definition get_prev :: "node \<Rightarrow> lheap \<Rightarrow> node option" where
  "get_prev p h = (if p = 0 then None else Some (prv h p))"

definition set_next :: "node \<Rightarrow> node \<Rightarrow> lheap \<Rightarrow> lheap option" where
  "set_next p q h = (if p = 0 then None else Some (h\<lparr>nxt := (nxt h)(p := q)\<rparr>))"

definition set_prev :: "node \<Rightarrow> node \<Rightarrow> lheap \<Rightarrow> lheap option" where
  "set_prev p q h = (if p = 0 then None else Some (h\<lparr>prv := (prv h)(p := q)\<rparr>))"

definition INIT_LIST_HEAD :: "node \<Rightarrow> lheap \<Rightarrow> lheap option" where
  "INIT_LIST_HEAD p h = do { h \<leftarrow> set_next p p h; set_prev p p h }"

definition list_add_between :: "node \<Rightarrow> node \<Rightarrow> node \<Rightarrow> lheap \<Rightarrow> lheap option" where
  "list_add_between new_node prev next h = do {
     h \<leftarrow> set_prev next new_node h;
     h \<leftarrow> set_next new_node next h;
     h \<leftarrow> set_prev new_node prev h;
     set_next prev new_node h }"

definition list_add :: "node \<Rightarrow> node \<Rightarrow> lheap \<Rightarrow> lheap option" where
  "list_add new_node head h = do {
     next \<leftarrow> get_next head h;
     list_add_between new_node head next h }"

definition list_add_tail :: "node \<Rightarrow> node \<Rightarrow> lheap \<Rightarrow> lheap option" where
  "list_add_tail new_node head h = do {
     prev \<leftarrow> get_prev head h;
     list_add_between new_node prev head h }"

definition list_del_between :: "node \<Rightarrow> node \<Rightarrow> lheap \<Rightarrow> lheap option" where
  "list_del_between prev next h = do { h \<leftarrow> set_prev next prev h; set_next prev next h }"

definition list_del_links :: "node \<Rightarrow> lheap \<Rightarrow> lheap option" where
  "list_del_links entry h = do {
     prev \<leftarrow> get_prev entry h;
     next \<leftarrow> get_next entry h;
     list_del_between prev next h }"

definition list_del :: "node \<Rightarrow> lheap \<Rightarrow> lheap option" where
  "list_del entry h = do {
     next \<leftarrow> get_next entry h;
     prev \<leftarrow> get_prev entry h;
     if next = 0 \<or> prev = 0 then Some h
     else do {
       h \<leftarrow> list_del_links entry h;
       h \<leftarrow> set_next entry 0 h;
       set_prev entry 0 h } }"

definition list_del_init :: "node \<Rightarrow> lheap \<Rightarrow> lheap option" where
  "list_del_init entry h = do { h \<leftarrow> list_del_links entry h; INIT_LIST_HEAD entry h }"

definition list_move :: "node \<Rightarrow> node \<Rightarrow> lheap \<Rightarrow> lheap option" where
  "list_move l head h = do { h \<leftarrow> list_del_links l h; list_add l head h }"

definition list_move_tail :: "node \<Rightarrow> node \<Rightarrow> lheap \<Rightarrow> lheap option" where
  "list_move_tail l head h = do { h \<leftarrow> list_del_links l h; list_add_tail l head h }"

definition list_empty :: "node \<Rightarrow> lheap \<Rightarrow> bool option" where
  "list_empty head h = do { next \<leftarrow> get_next head h; Some (next = head) }"

text \<open>
  The traversal macros: the nodes that \<open>pos\<close> takes until the head comes round. On a store that is
  not a list the loop need not end, and a null link faults; the result is then \<^term>\<open>None\<close>.
\<close>

partial_function (option) each_from :: "lheap \<Rightarrow> node \<Rightarrow> node \<Rightarrow> node list option" where
  "each_from h head pos =
     (if pos = head then Some []
      else do {
        next \<leftarrow> get_next pos h;
        rest \<leftarrow> each_from h head next;
        Some (pos # rest) })"

partial_function (option) each_prev_from :: "lheap \<Rightarrow> node \<Rightarrow> node \<Rightarrow> node list option" where
  "each_prev_from h head pos =
     (if pos = head then Some []
      else do {
        prev \<leftarrow> get_prev pos h;
        rest \<leftarrow> each_prev_from h head prev;
        Some (pos # rest) })"

definition list_for_each :: "node \<Rightarrow> lheap \<Rightarrow> node list option" where
  "list_for_each head h = do { pos \<leftarrow> get_next head h; each_from h head pos }"

definition list_for_each_prev :: "node \<Rightarrow> lheap \<Rightarrow> node list option" where
  "list_for_each_prev head h = do { pos \<leftarrow> get_prev head h; each_prev_from h head pos }"

lemmas list_ops [kernel_ops] =
  get_next_def get_prev_def set_next_def set_prev_def INIT_LIST_HEAD_def list_add_between_def
  list_add_def list_add_tail_def list_del_between_def list_del_links_def list_del_def
  list_del_init_def list_move_def list_move_tail_def list_empty_def

section \<open>The list a head stands for\<close>

text \<open>
  \<open>dseg h p xs q\<close>: from \<open>p\<close>, following next pointers, come the nodes \<open>xs\<close> and then \<open>q\<close>, and the
  previous pointers lead the same way back.
\<close>

primrec dseg :: "lheap \<Rightarrow> node \<Rightarrow> node list \<Rightarrow> node \<Rightarrow> bool" where
  "dseg h p [] q \<longleftrightarrow> nxt h p = q \<and> prv h q = p"
| "dseg h p (x # xs) q \<longleftrightarrow> nxt h p = x \<and> prv h x = p \<and> dseg h x xs q"

definition dlist :: "lheap \<Rightarrow> node \<Rightarrow> node list \<Rightarrow> bool" where
  "dlist h head xs \<longleftrightarrow> distinct (head # xs) \<and> 0 \<notin> set (head # xs) \<and> dseg h head xs head"

lemma dseg_append:
  "dseg h p (xs @ y # ys) q \<longleftrightarrow> dseg h p xs y \<and> dseg h y ys q"
  by (induction xs arbitrary: p) auto

lemma dseg_frame:
  assumes "\<forall>a \<in> set (p # xs). nxt h' a = nxt h a" "\<forall>a \<in> set (xs @ [q]). prv h' a = prv h a"
  shows "dseg h' p xs q = dseg h p xs q"
  using assms by (induction xs arbitrary: p) auto

lemma dseg_first: "dseg h p xs q \<Longrightarrow> nxt h p = (case xs of [] \<Rightarrow> q | x # _ \<Rightarrow> x)"
  by (cases xs) auto

lemma dseg_last: "dseg h p xs q \<Longrightarrow> prv h q = (if xs = [] then p else last xs)"
  by (induction xs arbitrary: p) auto

text \<open>A change of pointers inside a set of nodes leaves every list outside the set as it was.\<close>

definition changes_only :: "node set \<Rightarrow> lheap \<Rightarrow> lheap \<Rightarrow> bool" where
  "changes_only A h h' \<longleftrightarrow> (\<forall>a. a \<notin> A \<longrightarrow> nxt h' a = nxt h a \<and> prv h' a = prv h a)"

lemma changes_only_dlist:
  assumes "changes_only A h h'" "A \<inter> set (head # xs) = {}"
  shows "dlist h' head xs = dlist h head xs"
proof -
  have "dseg h' head xs head = dseg h head xs head"
    using assms by (intro dseg_frame) (auto simp: changes_only_def)
  then show ?thesis by (simp add: dlist_def)
qed

lemma changes_only_trans:
  "changes_only A h h1 \<Longrightarrow> changes_only B h1 h2 \<Longrightarrow> A \<subseteq> C \<Longrightarrow> B \<subseteq> C \<Longrightarrow> changes_only C h h2"
  unfolding changes_only_def by (metis subsetD)

lemma dlist_empty_iff: "dlist h head xs \<Longrightarrow> list_empty head h = Some (xs = [])"
  by (cases xs) (auto simp: dlist_def list_empty_def get_next_def)

lemma INIT_LIST_HEAD_dlist:
  "head \<noteq> 0 \<Longrightarrow> \<exists>h'. INIT_LIST_HEAD head h = Some h' \<and> dlist h' head [] \<and> changes_only {head} h h'"
  by (auto simp: list_ops dlist_def changes_only_def)

section \<open>Insertion and deletion\<close>

text \<open>Linking a new node between two neighbours that are adjacent in the list.\<close>

lemma list_add_between_dlist:
  assumes d: "dlist h head (xs @ ys)" and n: "n \<noteq> 0" "n \<notin> set (head # xs @ ys)"
    and p: "p = last (head # xs)" and q: "q = (case ys of [] \<Rightarrow> head | y # _ \<Rightarrow> y)"
  shows "\<exists>h'. list_add_between n p q h = Some h' \<and> dlist h' head (xs @ n # ys)
     \<and> changes_only (set (n # head # xs @ ys)) h h'"
proof -
  define h' where "h' = h\<lparr>nxt := (nxt h)(n := q, p := n), prv := (prv h)(q := n, n := p)\<rparr>"
  have pq: "p \<in> set (head # xs)" "q \<in> set (ys @ [head])"
    using p q by (auto split: list.splits)
  have nz: "p \<noteq> 0" "q \<noteq> 0" "p \<noteq> n" "q \<noteq> n"
    using pq n d by (auto simp: dlist_def)
  have run: "list_add_between n p q h = Some h'"
    using nz n by (auto simp: list_add_between_def set_next_def set_prev_def h'_def fun_upd_twist)
  have front: "dseg h' head xs n"
  proof (cases xs rule: rev_cases)
    case Nil
    then show ?thesis using p n nz by (auto simp: h'_def)
  next
    case (snoc xs0 x)
    have "dseg h head xs0 x"
      using d snoc by (simp add: dlist_def dseg_append)
    moreover have "p = x" using p snoc by simp
    ultimately have "dseg h' head xs0 x"
      using d n pq snoc nz
      by (subst dseg_frame [of _ _ _ h]) (auto simp: h'_def dlist_def split: list.splits)
    then show ?thesis using snoc \<open>p = x\<close> n nz by (auto simp: dseg_append h'_def)
  qed
  have rear: "dseg h' n ys head"
  proof (cases ys)
    case Nil
    then show ?thesis using q n nz by (auto simp: h'_def)
  next
    case (Cons y ys0)
    have "dseg h y ys0 head"
      using d Cons by (simp add: dlist_def dseg_append)
    moreover have "q = y" using q Cons by simp
    moreover have "p \<notin> set ys"
      using d pq Cons by (auto simp: dlist_def)
    ultimately have "dseg h' y ys0 head"
      using d n Cons nz
      by (subst dseg_frame [of _ _ _ h]) (auto simp: h'_def dlist_def)
    then show ?thesis using Cons \<open>q = y\<close> n nz by (auto simp: h'_def)
  qed
  have "dlist h' head (xs @ n # ys)"
    using d n front rear by (auto simp: dlist_def dseg_append)
  moreover have "changes_only (set (n # head # xs @ ys)) h h'"
    using pq by (auto simp: changes_only_def h'_def)
  ultimately show ?thesis using run by blast
qed

lemma list_add_dlist:
  assumes "dlist h head xs" "n \<noteq> 0" "n \<notin> set (head # xs)"
  shows "\<exists>h'. list_add n head h = Some h' \<and> dlist h' head (n # xs)
     \<and> changes_only (set (n # head # xs)) h h'"
proof -
  have "nxt h head = (case xs of [] \<Rightarrow> head | y # _ \<Rightarrow> y)"
    using assms(1) by (auto simp: dlist_def dest: dseg_first)
  then show ?thesis
    using list_add_between_dlist [of h head "[]" xs n head "nxt h head"] assms
    by (simp add: list_add_def get_next_def dlist_def)
qed

lemma list_add_tail_dlist:
  assumes "dlist h head xs" "n \<noteq> 0" "n \<notin> set (head # xs)"
  shows "\<exists>h'. list_add_tail n head h = Some h' \<and> dlist h' head (xs @ [n])
     \<and> changes_only (set (n # head # xs)) h h'"
proof -
  have "prv h head = last (head # xs)"
    using assms(1) by (auto simp: dlist_def dest: dseg_last)
  then show ?thesis
    using list_add_between_dlist [of h head xs "[]" n "prv h head" head] assms
    by (simp add: list_add_tail_def get_prev_def dlist_def)
qed

text \<open>Unlinking: the neighbours of a node end up adjacent.\<close>

lemma dlist_neighbours:
  assumes "dlist h head (xs @ e # ys)"
  shows "prv h e = last (head # xs)" "nxt h e = (case ys of [] \<Rightarrow> head | y # _ \<Rightarrow> y)"
  using assms by (auto simp: dlist_def dseg_append dest: dseg_last dseg_first)

lemma list_del_links_dlist:
  assumes d: "dlist h head (xs @ e # ys)"
  shows "\<exists>h'. list_del_links e h = Some h' \<and> dlist h' head (xs @ ys)
     \<and> changes_only (set (head # xs @ ys)) h h'"
proof -
  define p where "p = prv h e"
  define q where "q = nxt h e"
  have p: "p = last (head # xs)" and q: "q = (case ys of [] \<Rightarrow> head | y # _ \<Rightarrow> y)"
    using dlist_neighbours [OF d] by (simp_all add: p_def q_def)
  have pq: "p \<in> set (head # xs)" "q \<in> set (ys @ [head])"
    using p q by (auto split: list.splits)
  have nz: "p \<noteq> 0" "q \<noteq> 0" using pq d by (auto simp: dlist_def)
  define h' where "h' = h\<lparr>nxt := (nxt h)(p := q), prv := (prv h)(q := p)\<rparr>"
  have run: "list_del_links e h = Some h'"
    using nz d by (simp add: list_ops h'_def dlist_def flip: p_def q_def)
  have segs: "dseg h head xs e" "dseg h e ys head"
    using d by (auto simp: dlist_def dseg_append)
  have "dseg h' head (xs @ ys) head"
  proof (cases xs rule: rev_cases)
    case Nil
    show ?thesis
    proof (cases ys)
      case Nil': Nil
      then show ?thesis using Nil p q by (simp add: h'_def)
    next
      case (Cons y ys0)
      then have "dseg h' y ys0 head"
        using segs(2) Nil d p q by (subst dseg_frame [of _ _ _ h]) (auto simp: h'_def dlist_def)
      then show ?thesis using Nil Cons p q by (auto simp: h'_def)
    qed
  next
    case (snoc xs0 x)
    have px: "p = x" using p snoc by simp
    have front: "dseg h' head xs0 x"
      using segs(1) snoc d px q
      by (subst dseg_frame [of _ _ _ h]) (auto simp: h'_def dlist_def dseg_append split: list.splits)
    show ?thesis
    proof (cases ys)
      case Nil
      then show ?thesis using front snoc px q by (auto simp: dseg_append h'_def)
    next
      case (Cons y ys0)
      then have "dseg h' y ys0 head"
        using segs(2) d snoc px q
        by (subst dseg_frame [of _ _ _ h]) (auto simp: h'_def dlist_def)
      then show ?thesis using front snoc Cons px q d
        by (auto simp: dseg_append h'_def dlist_def)
    qed
  qed
  then have "dlist h' head (xs @ ys)" using d by (auto simp: dlist_def)
  moreover have "changes_only (set (head # xs @ ys)) h h'"
    using pq by (auto simp: changes_only_def h'_def)
  ultimately show ?thesis using run by blast
qed

lemma list_del_dlist:
  assumes d: "dlist h head (xs @ e # ys)"
  shows "\<exists>h'. list_del e h = Some h' \<and> dlist h' head (xs @ ys) \<and> nxt h' e = 0 \<and> prv h' e = 0
     \<and> changes_only (set (head # xs @ e # ys)) h h'"
proof -
  obtain h1 where h1: "list_del_links e h = Some h1" "dlist h1 head (xs @ ys)"
      "changes_only (set (head # xs @ ys)) h h1"
    using list_del_links_dlist [OF d] by blast
  have l: "last (head # xs) \<in> set (head # xs)" by (rule last_in_set) simp
  have nz: "0 \<notin> set (head # xs)" using d by (simp add: dlist_def)
  have "prv h e \<noteq> 0" unfolding dlist_neighbours(1) [OF d] using l nz by metis
  then have e: "e \<noteq> 0" "e \<notin> set (head # xs @ ys)" "nxt h e \<noteq> 0" "prv h e \<noteq> 0"
    using d dlist_neighbours(2) [OF d] by (auto simp: dlist_def split: list.splits)
  define h2 where "h2 = h1\<lparr>nxt := (nxt h1)(e := 0), prv := (prv h1)(e := 0)\<rparr>"
  have run: "list_del e h = Some h2"
    using h1(1) e by (simp add: list_del_def get_next_def get_prev_def set_next_def set_prev_def h2_def)
  have c: "changes_only {e} h1 h2" by (simp add: changes_only_def h2_def)
  have "changes_only (set (head # xs @ e # ys)) h h2"
    by (rule changes_only_trans [OF h1(3) c]) auto
  moreover have "dlist h2 head (xs @ ys)"
    using changes_only_dlist [OF c] h1(2) e(2) by auto
  ultimately show ?thesis using run by (auto simp: h2_def)
qed

text \<open>A node that was already taken off a list by \<open>list_del\<close> can be deleted again with no effect.\<close>

lemma list_del_twice: "e \<noteq> 0 \<Longrightarrow> nxt h e = 0 \<or> prv h e = 0 \<Longrightarrow> list_del e h = Some h"
  by (auto simp: list_del_def get_next_def get_prev_def)

lemma list_del_init_dlist:
  assumes d: "dlist h head (xs @ e # ys)"
  shows "\<exists>h'. list_del_init e h = Some h' \<and> dlist h' head (xs @ ys) \<and> dlist h' e []
     \<and> changes_only (set (head # xs @ e # ys)) h h'"
proof -
  obtain h1 where h1: "list_del_links e h = Some h1" "dlist h1 head (xs @ ys)"
      "changes_only (set (head # xs @ ys)) h h1"
    using list_del_links_dlist [OF d] by blast
  have e: "e \<noteq> 0" "e \<notin> set (head # xs @ ys)" using d by (auto simp: dlist_def)
  obtain h2 where h2: "INIT_LIST_HEAD e h1 = Some h2" "dlist h2 e []" "changes_only {e} h1 h2"
    using INIT_LIST_HEAD_dlist [OF e(1)] by blast
  have "changes_only (set (head # xs @ e # ys)) h h2"
    by (rule changes_only_trans [OF h1(3) h2(3)]) auto
  moreover have "dlist h2 head (xs @ ys)"
    using changes_only_dlist [OF h2(3)] h1(2) e(2) by auto
  ultimately show ?thesis using h1 h2 by (auto simp: list_del_init_def)
qed

section \<open>Traversal\<close>

lemma each_from_dseg:
  "dseg h p xs head \<Longrightarrow> 0 \<notin> set xs \<Longrightarrow> head \<notin> set xs \<Longrightarrow> each_from h head (nxt h p) = Some xs"
proof (induction xs arbitrary: p)
  case Nil
  then show ?case by (simp add: each_from.simps)
next
  case (Cons x xs)
  then show ?case by (subst each_from.simps) (auto simp: get_next_def)
qed

lemma each_prev_from_dseg:
  "dseg h head xs q \<Longrightarrow> 0 \<notin> set xs \<Longrightarrow> head \<notin> set xs \<Longrightarrow>
   each_prev_from h head (prv h q) = Some (rev xs)"
proof (induction xs arbitrary: q rule: rev_induct)
  case Nil
  then show ?case by (simp add: each_prev_from.simps)
next
  case (snoc x xs)
  then show ?case by (subst each_prev_from.simps) (auto simp: get_prev_def dseg_append)
qed

lemma list_for_each_dlist: "dlist h head xs \<Longrightarrow> list_for_each head h = Some xs"
  using each_from_dseg [of h head xs head]
  by (auto simp: dlist_def list_for_each_def get_next_def)

lemma list_for_each_prev_dlist: "dlist h head xs \<Longrightarrow> list_for_each_prev head h = Some (rev xs)"
  using each_prev_from_dseg [of h head xs head]
  by (auto simp: dlist_def list_for_each_prev_def get_prev_def)

section \<open>A store of many lists\<close>

text \<open>
  The kernel keeps many lists in one store, and a node moves from one to another. \<open>lists h H F\<close>
  says that every head in \<open>H\<close> stands for the list \<open>F\<close> gives it and that no node is on two lists.
  The interface below is what the components rely on; its lemmas say that the operations act on
  \<open>F\<close> alone, which is why a component may keep each of its kernel lists as a list value.
\<close>

locale list_interface =
  fixes is_list :: "'h \<Rightarrow> node \<Rightarrow> node list \<Rightarrow> bool"
    and touches :: "node set \<Rightarrow> 'h \<Rightarrow> 'h \<Rightarrow> bool"
    and push :: "node \<Rightarrow> node \<Rightarrow> 'h \<Rightarrow> 'h option"
    and push_tail :: "node \<Rightarrow> node \<Rightarrow> 'h \<Rightarrow> 'h option"
    and remove :: "node \<Rightarrow> 'h \<Rightarrow> 'h option"
    and walk :: "node \<Rightarrow> 'h \<Rightarrow> node list option"
  assumes is_list_distinct: "is_list h p xs \<Longrightarrow> distinct (p # xs)"
    and touches_frame: "touches A h h' \<Longrightarrow> A \<inter> set (p # xs) = {} \<Longrightarrow> is_list h p xs \<Longrightarrow> is_list h' p xs"
    and push_ok: "is_list h p xs \<Longrightarrow> n \<noteq> 0 \<Longrightarrow> n \<notin> set (p # xs) \<Longrightarrow>
      \<exists>h'. push n p h = Some h' \<and> is_list h' p (n # xs) \<and> touches (set (n # p # xs)) h h'"
    and push_tail_ok: "is_list h p xs \<Longrightarrow> n \<noteq> 0 \<Longrightarrow> n \<notin> set (p # xs) \<Longrightarrow>
      \<exists>h'. push_tail n p h = Some h' \<and> is_list h' p (xs @ [n]) \<and> touches (set (n # p # xs)) h h'"
    and remove_ok: "is_list h p (xs @ e # ys) \<Longrightarrow>
      \<exists>h'. remove e h = Some h' \<and> is_list h' p (xs @ ys) \<and> touches (set (p # xs @ e # ys)) h h'"
    and walk_ok: "is_list h p xs \<Longrightarrow> walk p h = Some xs"
begin

definition lists :: "'h \<Rightarrow> node set \<Rightarrow> (node \<Rightarrow> node list) \<Rightarrow> bool" where
  "lists h H F \<longleftrightarrow> (\<forall>p \<in> H. is_list h p (F p))
     \<and> (\<forall>p \<in> H. \<forall>q \<in> H. p \<noteq> q \<longrightarrow> set (p # F p) \<inter> set (q # F q) = {})"

definition fresh :: "node set \<Rightarrow> (node \<Rightarrow> node list) \<Rightarrow> node \<Rightarrow> bool" where
  "fresh H F n \<longleftrightarrow> n \<noteq> 0 \<and> (\<forall>p \<in> H. n \<notin> set (p # F p))"

lemma lists_disjoint:
  "lists h H F \<Longrightarrow> p \<in> H \<Longrightarrow> q \<in> H \<Longrightarrow> q \<noteq> p \<Longrightarrow> set (p # F p) \<inter> set (q # F q) = {}"
  by (auto simp: lists_def)

lemma lists_update:
  assumes L: "lists h H F" and p: "p \<in> H" and h': "is_list h' p xs" "touches A h h'"
    and A: "A \<subseteq> N \<union> set (p # F p)" and xs: "set xs \<subseteq> N \<union> set (F p)"
    and N: "\<forall>q \<in> H. N \<inter> set (q # F q) = {}"
  shows "lists h' H (F(p := xs))"
proof -
  have new: "(N \<union> set (p # F p)) \<inter> set (q # F q) = {}" if "q \<in> H" "q \<noteq> p" for q
    using lists_disjoint [OF L p that] N that by blast
  have "is_list h' q (F q)" if "q \<in> H" "q \<noteq> p" for q
  proof (rule touches_frame [OF h'(2)])
    show "A \<inter> set (q # F q) = {}" using new [OF that] A by blast
    show "is_list h q (F q)" using L that by (simp add: lists_def)
  qed
  moreover have "set (p # xs) \<inter> set (q # F q) = {}" if "q \<in> H" "q \<noteq> p" for q
    using new [OF that] xs by fastforce
  ultimately show ?thesis
    using L p h'(1) unfolding lists_def by (simp add: Int_commute)
qed

lemma lists_push:
  assumes "lists h H F" "p \<in> H" "fresh H F n"
  shows "\<exists>h'. push n p h = Some h' \<and> lists h' H (F(p := n # F p))"
proof -
  have "is_list h p (F p)" "n \<noteq> 0" "n \<notin> set (p # F p)"
    using assms by (auto simp: lists_def fresh_def)
  then obtain h' where h': "push n p h = Some h'" "is_list h' p (n # F p)"
      "touches (set (n # p # F p)) h h'"
    using push_ok by blast
  moreover have "lists h' H (F(p := n # F p))"
    using assms(3) by (intro lists_update [OF assms(1,2) h'(2,3), of "{n}"]) (auto simp: fresh_def)
  ultimately show ?thesis by blast
qed

lemma lists_push_tail:
  assumes "lists h H F" "p \<in> H" "fresh H F n"
  shows "\<exists>h'. push_tail n p h = Some h' \<and> lists h' H (F(p := F p @ [n]))"
proof -
  have "is_list h p (F p)" "n \<noteq> 0" "n \<notin> set (p # F p)"
    using assms by (auto simp: lists_def fresh_def)
  then obtain h' where h': "push_tail n p h = Some h'" "is_list h' p (F p @ [n])"
      "touches (set (n # p # F p)) h h'"
    using push_tail_ok by blast
  moreover have "lists h' H (F(p := F p @ [n]))"
    using assms(3) by (intro lists_update [OF assms(1,2) h'(2,3), of "{n}"]) (auto simp: fresh_def)
  ultimately show ?thesis by blast
qed

lemma lists_remove:
  assumes L: "lists h H F" "p \<in> H" "e \<in> set (F p)"
  shows "\<exists>h'. remove e h = Some h' \<and> lists h' H (F(p := remove1 e (F p)))
     \<and> (e \<noteq> 0 \<longrightarrow> fresh H (F(p := remove1 e (F p))) e)"
proof -
  obtain xs ys where F: "F p = xs @ e # ys" using split_list [OF L(3)] by blast
  have lp: "is_list h p (xs @ e # ys)" using L F by (auto simp: lists_def)
  then have dist: "distinct (p # xs @ e # ys)" by (rule is_list_distinct)
  obtain h' where h': "remove e h = Some h'" "is_list h' p (xs @ ys)"
      "touches (set (p # xs @ e # ys)) h h'"
    using remove_ok [OF lp] by blast
  have r: "remove1 e (F p) = xs @ ys" using F dist by (simp add: remove1_append)
  have "lists h' H (F(p := xs @ ys))"
    using F by (intro lists_update [OF L(1,2) h'(2,3), of "{}"]) auto
  moreover have "e \<noteq> 0 \<longrightarrow> fresh H (F(p := xs @ ys)) e"
    using lists_disjoint [OF L(1,2)] L(3) dist by (auto simp: fresh_def)
  ultimately show ?thesis using h'(1) r by auto
qed

text \<open>Taking a node off one list and putting it on another, as run queues and slab lists do.\<close>

lemma lists_transfer:
  assumes "lists h H F" "p \<in> H" "q \<in> H" "e \<in> set (F p)" "e \<noteq> 0"
  shows "\<exists>h1 h2. remove e h = Some h1 \<and> push_tail e q h1 = Some h2
     \<and> lists h2 H ((F(p := remove1 e (F p)))(q := (F(p := remove1 e (F p))) q @ [e]))"
proof -
  obtain h1 where h1: "remove e h = Some h1" "lists h1 H (F(p := remove1 e (F p)))"
      "fresh H (F(p := remove1 e (F p))) e"
    using lists_remove [OF assms(1,2,4)] assms(5) by blast
  show ?thesis using lists_push_tail [OF h1(2) assms(3) h1(3)] h1(1) by auto
qed

lemma lists_walk: "lists h H F \<Longrightarrow> p \<in> H \<Longrightarrow> walk p h = Some (F p)"
  by (simp add: lists_def walk_ok)

end

interpretation clist: list_interface dlist changes_only list_add list_add_tail list_del list_for_each
proof unfold_locales
  show "distinct (p # xs)" if "dlist h p xs" for h p xs
    using that by (simp add: dlist_def)
  show "dlist h' p xs" if "changes_only A h h'" "A \<inter> set (p # xs) = {}" "dlist h p xs" for A h h' p xs
    using changes_only_dlist that by blast
  show "\<exists>h'. list_del e h = Some h' \<and> dlist h' p (xs @ ys) \<and> changes_only (set (p # xs @ e # ys)) h h'"
    if "dlist h p (xs @ e # ys)" for h p xs e ys
    using list_del_dlist [OF that] by blast
qed (erule list_add_dlist list_add_tail_dlist list_for_each_dlist; assumption)+

lemma list_move_tail_lists:
  assumes L: "clist.lists h H F" "p \<in> H" "q \<in> H" "e \<in> set (F p)"
  shows "\<exists>h'. list_move_tail e q h = Some h'
     \<and> clist.lists h' H ((F(p := remove1 e (F p)))(q := (F(p := remove1 e (F p))) q @ [e]))"
proof -
  obtain xs ys where F: "F p = xs @ e # ys" using split_list [OF L(4)] by blast
  have lp: "dlist h p (xs @ e # ys)" using L F by (auto simp: clist.lists_def)
  obtain h1 where h1: "list_del_links e h = Some h1" "dlist h1 p (xs @ ys)"
      "changes_only (set (p # xs @ ys)) h h1"
    using list_del_links_dlist [OF lp] by blast
  have r: "remove1 e (F p) = xs @ ys" using F lp by (simp add: dlist_def remove1_append)
  have "clist.lists h1 H (F(p := remove1 e (F p)))"
    unfolding r using F by (intro clist.lists_update [OF L(1,2) h1(2,3), of "{}"]) auto
  moreover have "clist.fresh H (F(p := remove1 e (F p))) e"
    unfolding r using clist.lists_disjoint [OF L(1,2)] L(4) lp
    by (auto simp: clist.fresh_def dlist_def)
  ultimately obtain h2 where "list_add_tail e q h1 = Some h2"
      "clist.lists h2 H ((F(p := remove1 e (F p)))(q := (F(p := remove1 e (F p))) q @ [e]))"
    using clist.lists_push_tail [OF _ L(3)] by blast
  then show ?thesis using h1(1) by (simp add: list_move_tail_def)
qed

section \<open>Properties\<close>

definition two_lists :: lheap where
  "two_lists = \<lparr>nxt = (\<lambda>a. 0)(1 := 3, 3 := 4, 4 := 1, 2 := 5, 5 := 2),
     prv = (\<lambda>a. 0)(1 := 4, 3 := 1, 4 := 3, 2 := 5, 5 := 2)\<rparr>"

lemma two_lists_ok: "clist.lists two_lists {1, 2} ((\<lambda>_. [])(1 := [3, 4], 2 := [5]))"
  by (auto simp: clist.lists_def dlist_def two_lists_def)

text \<open>
  C8: \<open>list_move_tail\<close> in a store of many disjoint lists returns, takes the entry off the list it
  is on, appends it to the list of the given head (also when that is the same list), and leaves
  every other list as it was.
\<close>

theorem list_move_tail_correct:
  assumes "\<forall>p \<in> H. dlist h p (F p)"
    and "\<forall>p \<in> H. \<forall>q \<in> H. p \<noteq> q \<longrightarrow> set (p # F p) \<inter> set (q # F q) = {}"
    and "p \<in> H" "q \<in> H" "e \<in> set (F p)"
  defines "F' \<equiv> F(p := remove1 e (F p))"
  shows "\<exists>h'. list_move_tail e q h = Some h' \<and> (\<forall>r \<in> H. dlist h' r ((F'(q := F' q @ [e])) r))
    \<and> (\<forall>r \<in> H. \<forall>t \<in> H. r \<noteq> t \<longrightarrow>
         set (r # (F'(q := F' q @ [e])) r) \<inter> set (t # (F'(q := F' q @ [e])) t) = {})"
  using list_move_tail_lists [of h H F p q e] assms unfolding clist.lists_def F'_def by blast

theorem list_move_tail_correct_witness:
  "\<exists>h'. list_move_tail 3 2 two_lists = Some h' \<and> dlist h' 1 [4] \<and> dlist h' 2 [5, 3]"
  using list_move_tail_correct [of "{1, 2}" two_lists "(\<lambda>_. [])(1 := [3, 4], 2 := [5])" 1 2 3]
    two_lists_ok by (auto simp: clist.lists_def)

primrec add_all_tail :: "node list \<Rightarrow> node \<Rightarrow> lheap \<Rightarrow> lheap option" where
  "add_all_tail [] head h = Some h"
| "add_all_tail (n # ns) head h = do { h \<leftarrow> list_add_tail n head h; add_all_tail ns head h }"

primrec del_first :: "nat \<Rightarrow> node \<Rightarrow> lheap \<Rightarrow> (node list \<times> lheap) option" where
  "del_first 0 head h = Some ([], h)"
| "del_first (Suc k) head h = do {
     n \<leftarrow> get_next head h;
     h \<leftarrow> list_del n h;
     (ns, h) \<leftarrow> del_first k head h;
     Some (n # ns, h) }"

lemma add_all_tail_dlist:
  "dlist h head xs \<Longrightarrow> distinct (head # xs @ ns) \<Longrightarrow> 0 \<notin> set ns \<Longrightarrow>
   \<exists>h'. add_all_tail ns head h = Some h' \<and> dlist h' head (xs @ ns)"
proof (induction ns arbitrary: xs h)
  case Nil
  then show ?case by simp
next
  case (Cons n ns)
  obtain h1 where h1: "list_add_tail n head h = Some h1" "dlist h1 head (xs @ [n])"
    using list_add_tail_dlist [OF Cons.prems(1), of n] Cons.prems by auto
  show ?case using Cons.IH [OF h1(2)] Cons.prems h1(1) by auto
qed

lemma del_first_dlist:
  "dlist h head xs \<Longrightarrow> k \<le> length xs \<Longrightarrow>
   \<exists>h'. del_first k head h = Some (take k xs, h') \<and> dlist h' head (drop k xs)"
proof (induction k arbitrary: xs h)
  case 0
  then show ?case by simp
next
  case (Suc k)
  then obtain x xs' where xs: "xs = x # xs'" by (cases xs) auto
  then have "get_next head h = Some x" using Suc.prems(1) by (simp add: get_next_def dlist_def)
  moreover obtain h1 where h1: "list_del x h = Some h1" "dlist h1 head xs'"
    using list_del_dlist [of h head "[]" x xs'] Suc.prems(1) xs by auto
  ultimately show ?case using Suc.IH [OF h1(2)] Suc.prems(2) xs by auto
qed

text \<open>
  C9: nodes appended with \<open>list_add_tail\<close> to an initialised head and then taken from the front with
  \<open>list_del\<close> come out in the order they went in, and the traversal macros visit the nodes in list
  order and in reverse order; every step returns.
\<close>

theorem list_fifo:
  assumes "distinct (head # ns)" "0 \<notin> set (head # ns)"
  shows "\<exists>h1 h2 h3. INIT_LIST_HEAD head h = Some h1 \<and> list_empty head h1 = Some True
    \<and> add_all_tail ns head h1 = Some h2 \<and> list_for_each head h2 = Some ns
    \<and> list_for_each_prev head h2 = Some (rev ns)
    \<and> del_first (length ns) head h2 = Some (ns, h3) \<and> list_empty head h3 = Some True"
proof -
  obtain h1 where h1: "INIT_LIST_HEAD head h = Some h1" "dlist h1 head []"
    using INIT_LIST_HEAD_dlist [of head h] assms(2) by auto
  obtain h2 where h2: "add_all_tail ns head h1 = Some h2" "dlist h2 head ns"
    using add_all_tail_dlist [OF h1(2), of ns] assms by auto
  obtain h3 where h3: "del_first (length ns) head h2 = Some (ns, h3)" "dlist h3 head []"
    using del_first_dlist [OF h2(2), of "length ns"] by auto
  show ?thesis
    using h1 h2 h3 dlist_empty_iff [OF h1(2)] dlist_empty_iff [OF h3(2)] list_for_each_dlist [OF h2(2)]
      list_for_each_prev_dlist [OF h2(2)] by auto
qed

theorem list_fifo_witness:
  "\<exists>h1 h2 h3. INIT_LIST_HEAD 9 two_lists = Some h1 \<and> add_all_tail [6, 7, 8] 9 h1 = Some h2
    \<and> del_first (length [6 :: nat, 7, 8]) 9 h2 = Some ([6, 7, 8], h3)"
proof -
  have "distinct [9 :: nat, 6, 7, 8]" "0 \<notin> set [9 :: nat, 6, 7, 8]" by simp_all
  from list_fifo [OF this, of two_lists] show ?thesis by blast
qed

end
