(* ===== verification/Buddy.thy ===== *)
theory Buddy
  imports Kernel_Prelude
begin

text \<open>
  The physical page allocator of mm/memory.c: a binary buddy system with \<open>NR_MEM_LISTS\<close> free
  lists, one bitmap per order, and a \<open>struct page\<close> per frame.

  The globals of the file are one record. A free list holds page numbers, the first element being
  the page after the list head. Pages and bitmap bits that do not exist, unlinking a page
  that is not on the list, \<open>BUG()\<close> and a failed \<open>assert\<close> are \<^term>\<open>None\<close>; so that an operation
  returns is a statement about memory safety as well.
\<close>

section \<open>State\<close>

definition NR_MEM_LISTS :: nat where "NR_MEM_LISTS = 11"

definition PG_referenced :: nat where "PG_referenced = 2"
definition PG_DMA :: nat where "PG_DMA = 8"
definition PG_slab :: nat where "PG_slab = 9"
definition PG_swap_cache :: nat where "PG_swap_cache = 10"
definition PG_netbuf :: nat where "PG_netbuf = 14"
definition PG_reserved :: nat where "PG_reserved = 31"

lemmas page_flag_numbers [simp] =
  PG_referenced_def PG_DMA_def PG_slab_def PG_swap_cache_def PG_netbuf_def PG_reserved_def

definition KADDRSPACE_START :: u64 where "KADDRSPACE_START = 0xffffc90000000000"
definition MEM_CLEAR :: u32 where "MEM_CLEAR = 0x8000000"

record page =
  pcount :: u32
  pflags :: u64
  option_data :: u64

record memory =
  g_mem_map :: "nat \<Rightarrow> page"
  g_max_mapnr :: nat
  g_nr_free_pages :: u32
  free_area :: "nat \<Rightarrow> nat list"
  area_map :: "nat \<Rightarrow> nat \<Rightarrow> bool"
  map_bits :: "nat \<Rightarrow> nat"
  stat_count :: "nat \<Rightarrow> u32"
  stat_allocs :: u64
  stat_frees :: u64
  g_stat_mem_size :: u64
  init_done :: bool
  g_kernelspace_starting_address :: u64
  g_phy_mem_size :: u64
  contents :: "nat \<Rightarrow> nat \<Rightarrow> u8"

section \<open>Addresses and page flags\<close>

definition va :: "u64 \<Rightarrow> memory \<Rightarrow> u64" where
  "va addr s =
     (if g_kernelspace_starting_address s = 1 then addr + KERNEL_CODE_START
      else addr + g_kernelspace_starting_address s)"

definition pa :: "u64 \<Rightarrow> memory \<Rightarrow> u64" where
  "pa addr s =
     (if g_kernelspace_starting_address s = 1 then addr - KERNEL_CODE_START
      else if addr > KERNEL_CODE_START then addr - KERNEL_CODE_START
      else addr - g_kernelspace_starting_address s)"

definition MAP_NR :: "u64 \<Rightarrow> memory \<Rightarrow> u64" where
  "MAP_NR addr s = drop_bit PAGE_SHIFT (pa addr s)"

definition ADDRESS :: "u64 \<Rightarrow> u64" where
  "ADDRESS x = KADDRSPACE_START + push_bit PAGE_SHIFT x"

definition page_flag :: "nat \<Rightarrow> nat \<Rightarrow> memory \<Rightarrow> bool" where
  "page_flag f p s = bit (pflags (g_mem_map s p)) f"

abbreviation PageReserved :: "nat \<Rightarrow> memory \<Rightarrow> bool" where "PageReserved \<equiv> page_flag PG_reserved"
abbreviation PageReferenced :: "nat \<Rightarrow> memory \<Rightarrow> bool" where "PageReferenced \<equiv> page_flag PG_referenced"
abbreviation PageSwapCache :: "nat \<Rightarrow> memory \<Rightarrow> bool" where "PageSwapCache \<equiv> page_flag PG_swap_cache"
abbreviation PageDMA :: "nat \<Rightarrow> memory \<Rightarrow> bool" where "PageDMA \<equiv> page_flag PG_DMA"
abbreviation PageNetBuf :: "nat \<Rightarrow> memory \<Rightarrow> bool" where "PageNetBuf \<equiv> page_flag PG_netbuf"

definition update_page :: "nat \<Rightarrow> (page \<Rightarrow> page) \<Rightarrow> memory \<Rightarrow> memory" where
  "update_page p f s = s\<lparr>g_mem_map := (g_mem_map s)(p := f (g_mem_map s p))\<rparr>"

definition PageSetReferenced :: "nat \<Rightarrow> memory \<Rightarrow> memory" where
  "PageSetReferenced p =
     update_page p (\<lambda>pg. pg\<lparr>pflags := Bit_Operations.set_bit PG_referenced (pflags pg)\<rparr>)"

definition PageClearReferenced :: "nat \<Rightarrow> memory \<Rightarrow> memory" where
  "PageClearReferenced p =
     update_page p (\<lambda>pg. pg\<lparr>pflags := unset_bit PG_referenced (pflags pg)\<rparr>)"

definition PageClearReserved :: "nat \<Rightarrow> memory \<Rightarrow> memory" where
  "PageClearReserved p =
     update_page p (\<lambda>pg. pg\<lparr>pflags := unset_bit PG_reserved (pflags pg)\<rparr>)"

definition page_set_count :: "nat \<Rightarrow> u32 \<Rightarrow> memory \<Rightarrow> memory" where
  "page_set_count p c = update_page p (\<lambda>pg. pg\<lparr>pcount := c\<rparr>)"

section \<open>Free lists and bitmaps\<close>

definition init_mem_queue :: "nat \<Rightarrow> memory \<Rightarrow> memory" where
  "init_mem_queue i s =
     s\<lparr>free_area := (free_area s)(i := []), stat_count := (stat_count s)(i := 0)\<rparr>"

definition add_mem_queue :: "nat \<Rightarrow> nat \<Rightarrow> memory \<Rightarrow> memory" where
  "add_mem_queue i p s =
     s\<lparr>free_area := (free_area s)(i := p # free_area s i),
       stat_count := (stat_count s)(i := stat_count s i + 1)\<rparr>"

definition remove_mem_queue :: "nat \<Rightarrow> nat \<Rightarrow> memory \<Rightarrow> memory option" where
  "remove_mem_queue i p s = do {
     kassert (p \<in> set (free_area s i));
     Some (s\<lparr>free_area := (free_area s)(i := remove1 p (free_area s i)),
             stat_count := (stat_count s)(i := stat_count s i - 1)\<rparr>) }"

definition change_map_bit :: "nat \<Rightarrow> nat \<Rightarrow> memory \<Rightarrow> memory option" where
  "change_map_bit i k s = do {
     kassert (i < NR_MEM_LISTS \<and> k < map_bits s i);
     Some (s\<lparr>area_map := (area_map s)(i := (area_map s i)(k := \<not> area_map s i k))\<rparr>) }"

definition MARK_USED :: "nat \<Rightarrow> nat \<Rightarrow> memory \<Rightarrow> memory option" where
  "MARK_USED index order s = change_map_bit order (index div 2 ^ (1 + order)) s"

text \<open>
  The freeing loop at the width of the code: \<open>mask\<close>, \<open>index\<close> and \<open>map_nr\<close> are 64-bit words, the
  loop ends when \<open>mask + 1024\<close> wraps to 0, and the buddy of a block is \<open>map_nr ^ -mask\<close>.
\<close>

partial_function (option) free_pages_loop ::
    "nat \<Rightarrow> u64 \<Rightarrow> u64 \<Rightarrow> u64 \<Rightarrow> memory \<Rightarrow> memory option" where
  "free_pages_loop area index msk map_nr s =
     (if msk + push_bit (NR_MEM_LISTS - 1) 1 \<noteq> 0 then do {
        let old = area_map s area (unat index);
        s \<leftarrow> change_map_bit area (unat index) s;
        if \<not> old then Some (add_mem_queue area (unat map_nr) s)
        else do {
          s \<leftarrow> remove_mem_queue area (unat (map_nr XOR - msk)) s;
          free_pages_loop (area + 1) (drop_bit 1 index) (push_bit 1 msk)
            (map_nr AND push_bit 1 msk) s } }
      else Some (add_mem_queue area (unat map_nr) s))"

definition free_pages_ok :: "u64 \<Rightarrow> nat \<Rightarrow> memory \<Rightarrow> memory option" where
  "free_pages_ok map_nr order s =
     (let index = drop_bit (1 + order) map_nr;
          msk = push_bit order (- 1);
          map_nr = map_nr AND msk;
          s = s\<lparr>g_nr_free_pages := g_nr_free_pages s - ucast msk\<rparr>
      in free_pages_loop order index msk map_nr s)"

section \<open>Allocation and release\<close>

text \<open>\<open>EXPAND\<close>: the lower halves go back to the free lists, the result is the upper end.\<close>

fun EXPAND :: "nat \<Rightarrow> nat \<Rightarrow> nat \<Rightarrow> memory \<Rightarrow> (nat \<times> memory) option" where
  "EXPAND index low high s =
     (if high > low then do {
        let high = high - 1;
        let s = add_mem_queue high index s;
        s \<leftarrow> MARK_USED index high s;
        EXPAND (index + 2 ^ high) low high s }
      else Some (index, page_set_count index 1 s))"

text \<open>
  The scan of the free lists: the first page that can be used for DMA in the lists from \<open>order\<close>
  up, with the order of the list it is on.
\<close>

function find_free :: "nat \<Rightarrow> memory \<Rightarrow> (nat \<times> nat) option" where
  "find_free new_order s =
     (if new_order < NR_MEM_LISTS then
        (case find (\<lambda>p. PageDMA p s) (free_area s new_order) of
           Some p \<Rightarrow> Some (new_order, p)
         | None \<Rightarrow> find_free (new_order + 1) s)
      else None)"
  by pat_completeness auto
termination
  by (relation "measure (\<lambda>(o', _). NR_MEM_LISTS - o')") auto

fun set_pages_referenced :: "nat \<Rightarrow> nat \<Rightarrow> memory \<Rightarrow> memory option" where
  "set_pages_referenced page i s =
     (if i = 0 then Some s
      else do {
        kassert (page < g_max_mapnr s);
        kassert (\<not> PageReferenced page s);
        set_pages_referenced (page + 1) (i - 1) (PageSetReferenced page s) })"

fun clear_pages_referenced :: "nat \<Rightarrow> nat \<Rightarrow> memory \<Rightarrow> memory option" where
  "clear_pages_referenced page i s =
     (if i = 0 then Some s
      else do {
        kassert (page < g_max_mapnr s);
        kassert (PageReferenced page s);
        clear_pages_referenced (page + 1) (i - 1) (PageClearReferenced page s) })"

definition clear_memory :: "nat \<Rightarrow> nat \<Rightarrow> memory \<Rightarrow> memory" where
  "clear_memory map_nr order s =
     s\<lparr>contents := (\<lambda>p off. if p \<in> block order map_nr \<and> off < PAGE_SIZE then 0
                             else contents s p off)\<rparr>"

text \<open>Taking the block found off its list and splitting it down to the order asked for.\<close>

definition take_free :: "nat \<Rightarrow> nat \<Rightarrow> nat \<Rightarrow> memory \<Rightarrow> (nat \<times> memory) option" where
  "take_free order new_order ret s = do {
     let s = s\<lparr>free_area := (free_area s)(new_order := remove1 ret (free_area s new_order))\<rparr>;
     s \<leftarrow> MARK_USED ret new_order s;
     let s = s\<lparr>stat_count := (stat_count s)(new_order := stat_count s new_order - 1),
               g_nr_free_pages := g_nr_free_pages s - 2 ^ order\<rparr>;
     EXPAND ret order new_order s }"

definition mm_getFreePages :: "u32 \<Rightarrow> nat \<Rightarrow> memory \<Rightarrow> (u64 \<times> memory) option" where
  "mm_getFreePages gfp_mask order s =
     (let s = s\<lparr>stat_allocs := stat_allocs s + 1\<rparr> in
      if order \<ge> NR_MEM_LISTS then Some (0, s)
      else case find_free order s of
        None \<Rightarrow> Some (0, s)
      | Some (new_order, ret) \<Rightarrow> do {
          (map_nr, s) \<leftarrow> take_free order new_order ret s;
          let s = (if gfp_mask AND MEM_CLEAR \<noteq> 0 then clear_memory map_nr order s else s);
          let ret_address = ADDRESS (of_nat map_nr);
          s \<leftarrow> (if ret_address > 0
                then set_pages_referenced (unat (MAP_NR ret_address s)) (2 ^ order) s else Some s);
          if ret_address = 0 then Some (ret_address, s)
          else do {
            kassert (\<not> (ret_address \<ge> KADDRSPACE_START + g_phy_mem_size s
                        \<or> ret_address < KADDRSPACE_START));
            Some (ret_address, s) } })"

definition mm_putFreePages :: "u64 \<Rightarrow> nat \<Rightarrow> memory \<Rightarrow> (u32 \<times> memory) option" where
  "mm_putFreePages addr order s = do {
     let map_nr = MAP_NR addr s;
     let s = s\<lparr>stat_frees := stat_frees s + 1\<rparr>;
     kassert (unat map_nr < g_max_mapnr s);
     let p = unat map_nr;
     kassert (\<not> PageReserved p s);
     kassert (\<not> PageNetBuf p s);
     kassert (option_data (g_mem_map s p) = 0);
     let count = pcount (g_mem_map s p) - 1;
     let s = page_set_count p count s;
     if count = 0 then do {
       kassert (\<not> PageSwapCache p s);
       s \<leftarrow> free_pages_ok map_nr order s;
       s \<leftarrow> clear_pages_referenced p (2 ^ order) s;
       Some (1, s) }
     else None }"

declare find_free.simps [simp del] EXPAND.simps [simp del]
  set_pages_referenced.simps [simp del] clear_pages_referenced.simps [simp del]

section \<open>The shape of the free lists\<close>

text \<open>
  \<open>area_inv N fa bm\<close>: every free block is aligned and inside the \<open>N\<close> frames, no two free blocks
  overlap, and for every order below the last a bitmap bit is set exactly when one of the two
  buddies it stands for is free; both are never free at once.
\<close>

definition free_blocks :: "(nat \<Rightarrow> nat list) \<Rightarrow> (nat \<times> nat) set" where
  "free_blocks fa = {(k, p). k < NR_MEM_LISTS \<and> p \<in> set (fa k)}"

definition free_set :: "(nat \<Rightarrow> nat list) \<Rightarrow> nat set" where
  "free_set fa = (\<Union>(k, p) \<in> free_blocks fa. block k p)"

definition buddy_bit :: "(nat \<Rightarrow> nat list) \<Rightarrow> nat \<Rightarrow> nat \<Rightarrow> bool" where
  "buddy_bit fa k i \<longleftrightarrow> 2 * i * 2 ^ k \<in> set (fa k) \<or> (2 * i + 1) * 2 ^ k \<in> set (fa k)"

definition area_inv :: "nat \<Rightarrow> (nat \<Rightarrow> nat list) \<Rightarrow> (nat \<Rightarrow> nat \<Rightarrow> bool) \<Rightarrow> bool" where
  "area_inv N fa bm \<longleftrightarrow>
     (\<forall>k < NR_MEM_LISTS. distinct (fa k))
   \<and> (\<forall>(k, p) \<in> free_blocks fa. aligned k p \<and> p + 2 ^ k \<le> N)
   \<and> (\<forall>(k, p) \<in> free_blocks fa. \<forall>(j, q) \<in> free_blocks fa.
        (k, p) \<noteq> (j, q) \<longrightarrow> block k p \<inter> block j q = {})
   \<and> (\<forall>k < NR_MEM_LISTS - 1. \<forall>i. bm k i = buddy_bit fa k i)
   \<and> (\<forall>k < NR_MEM_LISTS - 1. \<forall>i.
        \<not> (2 * i * 2 ^ k \<in> set (fa k) \<and> (2 * i + 1) * 2 ^ k \<in> set (fa k)))"

lemma area_invD:
  assumes "area_inv N fa bm"
  shows "k < NR_MEM_LISTS \<Longrightarrow> distinct (fa k)"
    and "(k, p) \<in> free_blocks fa \<Longrightarrow> aligned k p"
    and "(k, p) \<in> free_blocks fa \<Longrightarrow> p + 2 ^ k \<le> N"
    and "(k, p) \<in> free_blocks fa \<Longrightarrow> (j, q) \<in> free_blocks fa \<Longrightarrow> (k, p) \<noteq> (j, q) \<Longrightarrow>
         block k p \<inter> block j q = {}"
    and "k < NR_MEM_LISTS - 1 \<Longrightarrow> bm k i = buddy_bit fa k i"
    and "k < NR_MEM_LISTS - 1 \<Longrightarrow> 2 * i * 2 ^ k \<in> set (fa k) \<Longrightarrow> (2 * i + 1) * 2 ^ k \<notin> set (fa k)"
  using assms unfolding area_inv_def by blast+

lemma free_blocks_add:
  "k < NR_MEM_LISTS \<Longrightarrow> free_blocks (fa(k := p # fa k)) = insert (k, p) (free_blocks fa)"
  by (auto simp: free_blocks_def split: if_splits)

lemma free_blocks_remove:
  "distinct (fa k) \<Longrightarrow> free_blocks (fa(k := remove1 p (fa k))) = free_blocks fa - {(k, p)}"
  by (auto simp: free_blocks_def split: if_splits)

lemma free_set_add:
  "k < NR_MEM_LISTS \<Longrightarrow> free_set (fa(k := p # fa k)) = block k p \<union> free_set fa"
  by (auto simp: free_set_def free_blocks_add)

lemma free_set_remove:
  assumes "area_inv N fa bm" "(k, p) \<in> free_blocks fa"
  shows "free_set (fa(k := remove1 p (fa k))) = free_set fa - block k p"
proof -
  have "distinct (fa k)" using assms by (auto simp: free_blocks_def area_invD(1))
  then have "free_set (fa(k := remove1 p (fa k))) = (\<Union>(j, q) \<in> free_blocks fa - {(k, p)}. block j q)"
    by (simp add: free_set_def free_blocks_remove)
  also have "\<dots> = free_set fa - block k p"
    using area_invD(4) [OF assms(1,2)] assms(2) unfolding free_set_def by fastforce
  finally show ?thesis .
qed

lemma not_on_list:
  assumes "k < NR_MEM_LISTS" "block k p \<inter> free_set fa = {}"
  shows "p \<notin> set (fa k)"
proof
  assume "p \<in> set (fa k)"
  then have "(k, p) \<in> free_blocks fa" using assms(1) by (simp add: free_blocks_def)
  then show False using assms(2) block_start [of p k] unfolding free_set_def by blast
qed

text \<open>The two buddies of a pair, and the pair a block belongs to.\<close>

definition buddy :: "nat \<Rightarrow> nat \<Rightarrow> nat" where
  "buddy k p = (if even (p div 2 ^ k) then p + 2 ^ k else p - 2 ^ k)"

definition parent :: "nat \<Rightarrow> nat \<Rightarrow> nat" where
  "parent k p = p div 2 ^ Suc k * 2 ^ Suc k"

lemma aligned_obtain:
  assumes "aligned k p"
  obtains i where "p = 2 * i * 2 ^ k" | i where "p = (2 * i + 1) * 2 ^ k"
proof -
  obtain j where j: "p = j * 2 ^ k" using assms unfolding aligned_def by (metis dvd_div_mult_self)
  show ?thesis
  proof (cases "even j")
    case True then show ?thesis using j that(1) by (metis evenE)
  next
    case False then show ?thesis using j that(2) by (metis oddE)
  qed
qed

lemma buddy_parent_even:
  "buddy k (2 * i * 2 ^ k) = (2 * i + 1) * 2 ^ k" "parent k (2 * i * 2 ^ k) = 2 * i * 2 ^ k"
  "2 * i * 2 ^ k div 2 ^ Suc k = i"
proof -
  have "2 * i * 2 ^ k div 2 ^ Suc k = i" by (simp add: mult.assoc mult.left_commute)
  then show "2 * i * 2 ^ k div 2 ^ Suc k = i" "parent k (2 * i * 2 ^ k) = 2 * i * 2 ^ k"
    by (simp_all add: parent_def)
  show "buddy k (2 * i * 2 ^ k) = (2 * i + 1) * 2 ^ k"
    by (simp add: buddy_def algebra_simps)
qed

lemma buddy_parent_odd:
  "buddy k ((2 * i + 1) * 2 ^ k) = 2 * i * 2 ^ k" "parent k ((2 * i + 1) * 2 ^ k) = 2 * i * 2 ^ k"
  "(2 * i + 1) * 2 ^ k div 2 ^ Suc k = i"
proof -
  show d: "(2 * i + 1) * 2 ^ k div 2 ^ Suc k = i"
    unfolding power_Suc2 div_mult2_eq mult.commute [of 2 "2 ^ k"] by simp
  show "parent k ((2 * i + 1) * 2 ^ k) = 2 * i * 2 ^ k"
    unfolding parent_def d by simp
  show "buddy k ((2 * i + 1) * 2 ^ k) = 2 * i * 2 ^ k"
    by (simp add: buddy_def algebra_simps)
qed

lemmas buddy_parent = buddy_parent_even buddy_parent_odd

lemma parent_block:
  assumes "aligned k p"
  shows "block (Suc k) (parent k p) = block k p \<union> block k (buddy k p)"
    and "block k p \<inter> block k (buddy k p) = {}"
    and "aligned (Suc k) (parent k p)" and "aligned k (buddy k p)"
proof -
  show "aligned (Suc k) (parent k p)" by (simp add: parent_def aligned_def)
  from assms show "block (Suc k) (parent k p) = block k p \<union> block k (buddy k p)"
  proof (cases rule: aligned_obtain)
    case (1 i)
    then show ?thesis using buddy_parent_even [where k = k and i = i] block_halves [of k p]
      by (simp add: algebra_simps)
  next
    case (2 i)
    then show ?thesis using buddy_parent_odd [where k = k and i = i] block_halves [of k "2 * i * 2 ^ k"]
      by (simp add: algebra_simps Un_commute)
  qed
  from assms show "block k p \<inter> block k (buddy k p) = {}"
  proof (cases rule: aligned_obtain)
    case (1 i)
    then show ?thesis by (auto simp: buddy_parent(1) block_def)
  next
    case (2 i)
    then have "buddy k p = 2 * i * 2 ^ k" using buddy_parent(4) by metis
    then show ?thesis using 2 by (auto simp: block_def)
  qed
  from assms show "aligned k (buddy k p)"
    by (auto simp: buddy_def aligned_def)
qed

lemma pair_index:
  assumes "aligned k p"
  shows "2 * i * 2 ^ k = p \<or> (2 * i + 1) * 2 ^ k = p \<longleftrightarrow> i = p div 2 ^ Suc k"
  using assms
proof (cases rule: aligned_obtain)
  case (1 j)
  then show ?thesis using buddy_parent_even [where k = k and i = i] buddy_parent_odd [where k = k and i = i]
      buddy_parent_even [where k = k and i = j] by metis
next
  case (2 j)
  then show ?thesis using buddy_parent_even [where k = k and i = i] buddy_parent_odd [where k = k and i = i]
      buddy_parent_odd [where k = k and i = j] by metis
qed

lemma buddy_of_pair:
  assumes "aligned k p"
  shows "2 * i * 2 ^ k = p \<Longrightarrow> (2 * i + 1) * 2 ^ k = buddy k p"
    and "(2 * i + 1) * 2 ^ k = p \<Longrightarrow> 2 * i * 2 ^ k = buddy k p"
  using buddy_parent_even(1) [of k i] buddy_parent_odd(1) [of k i] by metis+

lemma buddy_bit_index:
  assumes "aligned k p" "i = p div 2 ^ Suc k"
  shows "buddy_bit fa k i \<longleftrightarrow> p \<in> set (fa k) \<or> buddy k p \<in> set (fa k)"
  using assms pair_index [OF assms(1), of i] buddy_of_pair [OF assms(1), of i]
  unfolding buddy_bit_def by metis

definition set_map :: "nat \<Rightarrow> nat \<Rightarrow> bool \<Rightarrow> (nat \<Rightarrow> nat \<Rightarrow> bool) \<Rightarrow> nat \<Rightarrow> nat \<Rightarrow> bool" where
  "set_map k i b bm = bm(k := (bm k)(i := b))"

lemma area_inv_add:
  assumes I: "area_inv N fa bm" and k: "k < NR_MEM_LISTS" and p: "aligned k p" "p + 2 ^ k \<le> N"
    and new: "block k p \<inter> free_set fa = {}"
    and b: "k < NR_MEM_LISTS - 1 \<Longrightarrow> buddy k p \<notin> set (fa k)"
  shows "area_inv N (fa(k := p # fa k)) (set_map k (p div 2 ^ Suc k) True bm)"
proof -
  let ?fa = "fa(k := p # fa k)"
  have fresh: "block k p \<inter> block j q = {}" if "(j, q) \<in> free_blocks fa" for j q
    using new that unfolding free_set_def by blast
  have np: "p \<notin> set (fa k)" using fresh k by (fastforce simp: free_blocks_def)
  have "distinct (?fa j)" if "j < NR_MEM_LISTS" for j
    using that np area_invD(1) [OF I] by simp
  moreover have "aligned j q \<and> q + 2 ^ j \<le> N" if "(j, q) \<in> free_blocks ?fa" for j q
    using that p area_invD(2,3) [OF I] by (auto simp: free_blocks_add k)
  moreover have "block j q \<inter> block i r = {}"
    if "(j, q) \<in> free_blocks ?fa" "(i, r) \<in> free_blocks ?fa" "(j, q) \<noteq> (i, r)" for j q i r
    using that fresh area_invD(4) [OF I, of j q i r] by (auto simp: free_blocks_add k)
  moreover have "set_map k (p div 2 ^ Suc k) True bm j i = buddy_bit ?fa j i"
    if "j < NR_MEM_LISTS - 1" for j i
    using area_invD(5) [OF I that, of i] pair_index [OF p(1), of i]
    by (auto simp: set_map_def buddy_bit_def)
  moreover have "\<not> (2 * i * 2 ^ j \<in> set (?fa j) \<and> (2 * i + 1) * 2 ^ j \<in> set (?fa j))"
    if "j < NR_MEM_LISTS - 1" for j i
    using area_invD(6) [OF I that, of i] b that buddy_of_pair [OF p(1), of i]
    by (cases "j = k") auto
  ultimately show ?thesis unfolding area_inv_def by blast
qed

lemma area_inv_remove:
  assumes I: "area_inv N fa bm" and m: "(k, p) \<in> free_blocks fa"
  shows "area_inv N (fa(k := remove1 p (fa k))) (set_map k (p div 2 ^ Suc k) False bm)"
proof -
  let ?fa = "fa(k := remove1 p (fa k))"
  have k: "k < NR_MEM_LISTS" and p: "aligned k p" and pm: "p \<in> set (fa k)"
    using m area_invD(2) [OF I] by (auto simp: free_blocks_def)
  have d: "distinct (fa k)" using area_invD(1) [OF I k] .
  have fb: "free_blocks ?fa = free_blocks fa - {(k, p)}" using d by (rule free_blocks_remove)
  have sub: "set (?fa j) = (if j = k then set (fa k) - {p} else set (fa j))" for j
    using d by auto
  have "distinct (?fa j)" if "j < NR_MEM_LISTS" for j
    using that area_invD(1) [OF I] by (simp add: distinct_remove1)
  moreover have "set_map k (p div 2 ^ Suc k) False bm j i = buddy_bit ?fa j i"
    if "j < NR_MEM_LISTS - 1" for j i
    using area_invD(5,6) [OF I that, of i] pair_index [OF p, of i] pm
    unfolding set_map_def buddy_bit_def sub by auto
  moreover have "\<not> (2 * i * 2 ^ j \<in> set (?fa j) \<and> (2 * i + 1) * 2 ^ j \<in> set (?fa j))"
    if "j < NR_MEM_LISTS - 1" for j i
    using area_invD(6) [OF I that, of i] unfolding sub by auto
  moreover have "aligned j q \<and> q + 2 ^ j \<le> N" if "(j, q) \<in> free_blocks ?fa" for j q
    using that area_invD(2,3) [OF I] fb by blast
  moreover have "block j q \<inter> block i r = {}"
    if "(j, q) \<in> free_blocks ?fa" "(i, r) \<in> free_blocks ?fa" "(j, q) \<noteq> (i, r)" for j q i r
    using that area_invD(4) [OF I, of j q i r] fb by blast
  ultimately show ?thesis unfolding area_inv_def by blast
qed

text \<open>
  Maximal merging: an aligned run of free pages of some order lies inside one free block, so
  the lists never hide a block that could be handed out.
\<close>

lemma free_block_covers:
  assumes I: "area_inv N fa bm" and "k < NR_MEM_LISTS" "aligned k p" "block k p \<subseteq> free_set fa"
  shows "\<exists>j q. k \<le> j \<and> (j, q) \<in> free_blocks fa \<and> block k p \<subseteq> block j q"
  using assms(2-)
proof (induction k arbitrary: p)
  case 0
  then show ?case by (auto simp: free_set_def)
next
  case (Suc k)
  let ?q = "p + 2 ^ k"
  have halves: "block (Suc k) p = block k p \<union> block k ?q" by (rule block_halves)
  have al: "aligned k p" "aligned k ?q"
    using Suc.prems(2) aligned_mono [of "Suc k" p k] by (auto intro: aligned_add)
  obtain j1 q1 where 1: "k \<le> j1" "(j1, q1) \<in> free_blocks fa" "block k p \<subseteq> block j1 q1"
    using Suc.IH [OF _ al(1)] Suc.prems halves by auto
  obtain j2 q2 where 2: "k \<le> j2" "(j2, q2) \<in> free_blocks fa" "block k ?q \<subseteq> block j2 q2"
    using Suc.IH [OF _ al(2)] Suc.prems halves by auto
  have big: "block (Suc k) p \<subseteq> block j q"
    if "Suc k \<le> j" "(j, q) \<in> free_blocks fa" "block k r \<subseteq> block j q" "r = p \<or> r = ?q" for j q r
    using aligned_nested [OF area_invD(2) [OF I that(2)] Suc.prems(2) that(1)] that halves
      block_nonempty [of k r] by fast
  consider "Suc k \<le> j1" | "Suc k \<le> j2" | "j1 = k" "j2 = k" using 1(1) 2(1) by linarith
  then show ?case
  proof cases
    case 3
    have "p = q1" "?q = q2"
      using 1 2 3 al area_invD(2) [OF I] by (auto intro!: aligned_same_order simp: Int_absorb2)
    then have m: "p \<in> set (fa k)" "?q \<in> set (fa k)" using 1 2 3 by (auto simp: free_blocks_def)
    obtain i where "p = i * 2 ^ Suc k" using Suc.prems(2) unfolding aligned_def by (metis dvd_div_mult_self)
    then have "p = 2 * i * 2 ^ k" "?q = (2 * i + 1) * 2 ^ k" by (simp_all add: algebra_simps)
    moreover have "k < NR_MEM_LISTS - 1" using Suc.prems(1) by simp
    ultimately show ?thesis using area_invD(6) [OF I, of k i] m by metis
  qed (use big 1 2 in blast)+
qed

section \<open>The freeing loop in page numbers\<close>

text \<open>
  The same loop on page numbers and orders. The word-level loop of the code computes it: for
  every order, the mask test, the shifted index and the exclusive-or agree with it.
\<close>

function coalesce :: "nat \<Rightarrow> nat \<Rightarrow> memory \<Rightarrow> memory option" where
  "coalesce k p s =
     (if k < NR_MEM_LISTS - 1 then do {
        let old = area_map s k (p div 2 ^ Suc k);
        s \<leftarrow> change_map_bit k (p div 2 ^ Suc k) s;
        if \<not> old then Some (add_mem_queue k p s)
        else do {
          s \<leftarrow> remove_mem_queue k (buddy k p) s;
          coalesce (Suc k) (parent k p) s } }
      else Some (add_mem_queue k p s))"
  by pat_completeness auto
termination
  by (relation "measure (\<lambda>(k, _, _). NR_MEM_LISTS - k)") auto

declare coalesce.simps [simp del]

lemma mask_test:
  "k < NR_MEM_LISTS \<Longrightarrow>
   push_bit k (- 1) + push_bit (NR_MEM_LISTS - 1) 1 = (0 :: u64) \<longleftrightarrow> k = NR_MEM_LISTS - 1"
proof -
  assume "k < NR_MEM_LISTS"
  then have "k \<in> {0, 1, 2, 3, 4, 5, 6, 7, 8, 9, 10}"
    unfolding NR_MEM_LISTS_def insert_iff empty_iff by presburger
  then show ?thesis by (auto simp: NR_MEM_LISTS_def push_bit_eq_mult)
qed

lemma and_mask_of_nat:
  assumes "p < 2 ^ 64"
  shows "(of_nat p :: u64) AND push_bit k (- 1) = of_nat (p div 2 ^ k * 2 ^ k)"
proof -
  have "(of_nat p :: u64) AND push_bit k (- 1) = push_bit k (drop_bit k (of_nat p))"
    by (rule bit_eqI) (auto simp: bit_simps)
  then show ?thesis
    using assms by (simp add: drop_bit_of_nat_u64 push_bit_eq_mult)
qed

lemma xor_mask_of_nat:
  assumes "aligned k p" "k < 64"
  shows "(of_nat p :: u64) XOR - push_bit k (- 1) = of_nat (buddy k p)"
proof -
  have "(of_nat p :: u64) XOR - push_bit k (- 1) = flip_bit k (of_nat p)"
    by (simp add: flip_bit_eq_xor push_bit_eq_mult)
  also have "\<dots> = of_nat (buddy k p)"
  proof (cases "even (p div 2 ^ k)")
    case True
    then show ?thesis
      using assms(2) by (simp add: flip_bit_eq_if bit_of_nat_u64 set_bit_eq buddy_def)
  next
    case False
    then have "2 ^ k \<le> p" by (metis div_less even_zero not_le)
    then show ?thesis
      using False assms(2) by (simp add: flip_bit_eq_if bit_of_nat_u64 unset_bit_eq buddy_def of_nat_diff)
  qed
  finally show ?thesis .
qed

lemma buddy_le: "buddy k p \<le> p + 2 ^ k"
  by (simp add: buddy_def trans_le_add1)

lemma parent_le: "parent k p \<le> p"
  by (simp add: parent_def)

lemma parent_index: "p div 2 ^ Suc k div 2 = parent k p div 2 ^ Suc (Suc k)"
proof -
  have "parent k p div 2 ^ Suc (Suc k) = parent k p div 2 ^ Suc k div 2"
    by (metis div_mult2_eq power_Suc2)
  then show ?thesis by (simp add: parent_def)
qed

lemma free_pages_loop_coalesce:
  "k < NR_MEM_LISTS \<Longrightarrow> aligned k p \<Longrightarrow> p < 2 ^ 52 \<Longrightarrow>
   free_pages_loop k (of_nat (p div 2 ^ Suc k)) (push_bit k (- 1)) (of_nat p) s = coalesce k p s"
proof (induction k p s rule: coalesce.induct)
  case (1 k p s)
  have u: "unat (of_nat n :: u64) = n" if "n \<le> 2 ^ 53" for n :: nat
    using that by simp
  have k: "(2 :: nat) ^ k \<le> 2 ^ 10" using 1(2) by (intro power_increasing) (auto simp: NR_MEM_LISTS_def)
  have b: "buddy k p \<le> 2 ^ 53" using buddy_le [of k p] k 1(4) by simp
  have i: "p div 2 ^ Suc k \<le> 2 ^ 53" using 1(4) le_trans [OF div_le_dividend, of p "2 ^ 53" "2 ^ Suc k"] by simp
  have ix: "drop_bit 1 (of_nat (p div 2 ^ Suc k) :: u64) = of_nat (parent k p div 2 ^ Suc (Suc k))"
    unfolding parent_index [symmetric] using i by (subst drop_bit_of_nat_u64) simp_all
  have mk: "(of_nat p :: u64) AND push_bit (Suc k) (- 1) = of_nat (parent k p)"
    unfolding parent_def using 1(4) by (intro and_mask_of_nat) simp
  have xr: "(of_nat p :: u64) XOR - push_bit k (- 1) = of_nat (buddy k p)"
    using 1(2,3) by (intro xor_mask_of_nat) (auto simp: NR_MEM_LISTS_def)
  have sh: "push_bit 1 (push_bit k (- 1)) = (push_bit (Suc k) (- 1) :: u64)"
    by (simp only: push_bit_push_bit plus_1_eq_Suc)
  have IH: "free_pages_loop (Suc k) (of_nat (parent k p div 2 ^ Suc (Suc k))) (push_bit (Suc k) (- 1))
      (of_nat (parent k p)) s2 = coalesce (Suc k) (parent k p) s2"
    if "k < NR_MEM_LISTS - 1" "area_map s k (p div 2 ^ Suc k)"
      "change_map_bit k (p div 2 ^ Suc k) s = Some s1" "remove_mem_queue k (buddy k p) s1 = Some s2" for s1 s2
  proof (rule 1(1) [OF that(1) refl that(3) _ that(4)])
    show "\<not> \<not> area_map s k (p div 2 ^ Suc k)" using that by simp
    show "Suc k < NR_MEM_LISTS" using that(1) by simp
    show "aligned (Suc k) (parent k p)" using 1(3) by (rule parent_block(3))
    show "parent k p < 2 ^ 52" using parent_le [of k p] 1(4) by linarith
  qed
  have un: "unat (of_nat p :: u64) = p" "unat (of_nat (buddy k p) :: u64) = buddy k p"
    "unat (of_nat (p div 2 ^ Suc k) :: u64) = p div 2 ^ Suc k"
    using 1(4) u [OF b] u [OF i] u [of p] by auto
  show ?case
  proof (cases "k < NR_MEM_LISTS - 1")
    case True
    then have "push_bit k (- 1) + push_bit (NR_MEM_LISTS - 1) 1 \<noteq> (0 :: u64)"
      using mask_test [OF 1(2)] by simp
    then show ?thesis
      apply (subst free_pages_loop.simps)
      apply (subst coalesce.simps)
      apply (simp only: un xr sh ix mk Let_def True if_True not_False_eq_True)
      apply (rule obind_cong [OF refl])
      apply (cases "area_map s k (p div 2 ^ Suc k)")
       apply (simp_all only: simp_thms if_True if_False)
      apply (rule obind_cong [OF refl])
      apply (simp only: Suc_eq_plus1 [symmetric] IH [OF True])
      done
  next
    case False
    then have "push_bit k (- 1) + push_bit (NR_MEM_LISTS - 1) 1 = (0 :: u64)"
      using mask_test [OF 1(2)] 1(2) by simp
    then show ?thesis
      unfolding free_pages_loop.simps [of k] coalesce.simps [of k p s] un using False by simp
  qed
qed

section \<open>The freeing loop is correct\<close>

definition areas_ok :: "memory \<Rightarrow> bool" where
  "areas_ok s \<longleftrightarrow> area_inv (g_max_mapnr s) (free_area s) (area_map s)
     \<and> (\<forall>k < NR_MEM_LISTS. stat_count s k = of_nat (length (free_area s k)))
     \<and> (\<forall>k < NR_MEM_LISTS. \<forall>p < g_max_mapnr s. p div 2 ^ Suc k < map_bits s k)"

definition only_areas :: "memory \<Rightarrow> memory \<Rightarrow> bool" where
  "only_areas s s' \<longleftrightarrow> g_mem_map s' = g_mem_map s \<and> g_max_mapnr s' = g_max_mapnr s
     \<and> g_nr_free_pages s' = g_nr_free_pages s \<and> map_bits s' = map_bits s
     \<and> stat_allocs s' = stat_allocs s \<and> stat_frees s' = stat_frees s
     \<and> g_kernelspace_starting_address s' = g_kernelspace_starting_address s
     \<and> g_phy_mem_size s' = g_phy_mem_size s \<and> contents s' = contents s"

lemma only_areas_sel:
  assumes "only_areas s s'"
  shows "g_mem_map s' = g_mem_map s" "g_max_mapnr s' = g_max_mapnr s"
    "g_nr_free_pages s' = g_nr_free_pages s" "map_bits s' = map_bits s"
    "stat_allocs s' = stat_allocs s" "stat_frees s' = stat_frees s"
    "g_kernelspace_starting_address s' = g_kernelspace_starting_address s"
    "g_phy_mem_size s' = g_phy_mem_size s" "contents s' = contents s"
  using assms by (simp_all add: only_areas_def)

lemma only_areas_trans: "only_areas s s1 \<Longrightarrow> only_areas s1 s2 \<Longrightarrow> only_areas s s2"
  by (simp add: only_areas_def)

lemma area_inv_map_cong:
  "area_inv N fa bm \<Longrightarrow> (\<And>k. k < NR_MEM_LISTS - 1 \<Longrightarrow> bm' k = bm k) \<Longrightarrow> area_inv N fa bm'"
  unfolding area_inv_def by auto

text \<open>Putting a block on its list when it cannot be merged, and taking one off its list.\<close>

definition push_block :: "nat \<Rightarrow> nat \<Rightarrow> memory \<Rightarrow> memory" where
  "push_block k p s = add_mem_queue k p
     (s\<lparr>area_map := set_map k (p div 2 ^ Suc k) True (area_map s)\<rparr>)"

lemma push_block_ok:
  assumes A: "areas_ok s" and k: "k < NR_MEM_LISTS" and p: "aligned k p" "p + 2 ^ k \<le> g_max_mapnr s"
    and new: "block k p \<inter> free_set (free_area s) = {}"
    and b: "k < NR_MEM_LISTS - 1 \<Longrightarrow> buddy k p \<notin> set (free_area s k)"
  shows "areas_ok (push_block k p s)" "only_areas s (push_block k p s)"
    "free_set (free_area (push_block k p s)) = block k p \<union> free_set (free_area s)"
proof -
  show "only_areas s (push_block k p s)"
    by (simp add: only_areas_def push_block_def add_mem_queue_def)
  show "free_set (free_area (push_block k p s)) = block k p \<union> free_set (free_area s)"
    using free_set_add [OF k] by (simp add: push_block_def add_mem_queue_def)
  have "area_inv (g_max_mapnr s) (free_area s) (area_map s)" using A by (simp add: areas_ok_def)
  from area_inv_add [OF this k p new b] A k show "areas_ok (push_block k p s)"
    by (auto simp: areas_ok_def push_block_def add_mem_queue_def)
qed

lemma areas_ok_add_last:
  assumes "areas_ok (push_block k p s)" "k = NR_MEM_LISTS - 1"
  shows "areas_ok (add_mem_queue k p s)"
  using assms area_inv_map_cong [of "g_max_mapnr s" _ _ "area_map s"]
  by (auto simp: areas_ok_def push_block_def add_mem_queue_def set_map_def)

definition pull_block :: "nat \<Rightarrow> nat \<Rightarrow> memory \<Rightarrow> memory" where
  "pull_block k p s =
     s\<lparr>free_area := (free_area s)(k := remove1 p (free_area s k)),
       stat_count := (stat_count s)(k := stat_count s k - 1),
       area_map := set_map k (p div 2 ^ Suc k) False (area_map s)\<rparr>"

lemma pull_block_ok:
  assumes A: "areas_ok s" and m: "(k, p) \<in> free_blocks (free_area s)"
  shows "areas_ok (pull_block k p s)" "only_areas s (pull_block k p s)"
    "free_set (free_area (pull_block k p s)) = free_set (free_area s) - block k p"
proof -
  have I: "area_inv (g_max_mapnr s) (free_area s) (area_map s)" using A by (simp add: areas_ok_def)
  show "only_areas s (pull_block k p s)"
    by (simp add: only_areas_def pull_block_def)
  show "free_set (free_area (pull_block k p s)) = free_set (free_area s) - block k p"
    using free_set_remove [OF I m] by (simp add: pull_block_def)
  have pm: "p \<in> set (free_area s k)" using m by (simp add: free_blocks_def)
  then have "1 \<le> length (free_area s k)" by (cases "free_area s k") auto
  then have "of_nat (length (remove1 p (free_area s k))) = (of_nat (length (free_area s k)) - 1 :: u32)"
    unfolding length_remove1 if_P [OF pm] of_nat_diff by simp
  with area_inv_remove [OF I m] A show "areas_ok (pull_block k p s)"
    by (auto simp: areas_ok_def pull_block_def)
qed

lemma areas_ok_bit:
  assumes "areas_ok s" "k < NR_MEM_LISTS" "p < g_max_mapnr s"
  shows "change_map_bit k (p div 2 ^ Suc k) s =
    Some (s\<lparr>area_map := set_map k (p div 2 ^ Suc k) (\<not> area_map s k (p div 2 ^ Suc k)) (area_map s)\<rparr>)"
  using assms by (simp add: change_map_bit_def areas_ok_def set_map_def del: power_Suc)

lemma buddy_same_pair:
  assumes "aligned k p"
  shows "buddy k p div 2 ^ Suc k = p div 2 ^ Suc k"
  using assms by (cases rule: aligned_obtain) (metis buddy_parent)+

lemma parent_end:
  assumes "aligned k p" "p + 2 ^ k \<le> N" "buddy k p + 2 ^ k \<le> N"
  shows "parent k p + 2 ^ Suc k \<le> N"
  using assms(1)
proof (cases rule: aligned_obtain)
  case (1 i)
  then have "buddy k p = p + 2 ^ k" "parent k p = p"
    using buddy_parent_even [where k = k and i = i] by simp_all
  then show ?thesis using assms(3) by simp
next
  case (2 i)
  then have "p = parent k p + 2 ^ k"
    using buddy_parent_odd [where k = k and i = i] by simp
  then show ?thesis using assms(2) by simp
qed

lemma coalesce_ok:
  "areas_ok s \<Longrightarrow> k < NR_MEM_LISTS \<Longrightarrow> aligned k p \<Longrightarrow> p + 2 ^ k \<le> g_max_mapnr s \<Longrightarrow>
   block k p \<inter> free_set (free_area s) = {} \<Longrightarrow>
   \<exists>s'. coalesce k p s = Some s' \<and> areas_ok s' \<and> only_areas s s'
      \<and> free_set (free_area s') = block k p \<union> free_set (free_area s)"
proof (induction k p s rule: coalesce.induct)
  case (1 k p s)
  note A = 1(2) and k = 1(3) and al = 1(4) and N = 1(5) and new = 1(6)
  let ?i = "p div 2 ^ Suc k"
  have I: "area_inv (g_max_mapnr s) (free_area s) (area_map s)" using A by (simp add: areas_ok_def)
  have pN: "p < g_max_mapnr s" using N zero_less_power [of "2 :: nat" k] by linarith
  have np: "p \<notin> set (free_area s k)"
    using not_on_list [OF k new] .
  consider (last) "k = NR_MEM_LISTS - 1"
    | (alone) "k < NR_MEM_LISTS - 1" "\<not> area_map s k ?i"
    | (merge) "k < NR_MEM_LISTS - 1" "area_map s k ?i"
    using k by linarith
  then show ?case
  proof cases
    case last
    then have run: "coalesce k p s = Some (add_mem_queue k p s)" by (subst coalesce.simps) simp
    have P: "areas_ok (push_block k p s)" using push_block_ok(1) [OF A k al N new] last by simp
    have "free_set (free_area (add_mem_queue k p s)) = block k p \<union> free_set (free_area s)"
      using free_set_add [OF k] by (simp add: add_mem_queue_def)
    moreover have "only_areas s (add_mem_queue k p s)" by (simp add: only_areas_def add_mem_queue_def)
    ultimately show ?thesis using run areas_ok_add_last [OF P last] by blast
  next
    case alone
    then have run: "coalesce k p s = Some (push_block k p s)"
      by (subst coalesce.simps) (simp add: areas_ok_bit [OF A k pN] push_block_def del: power_Suc)
    have "buddy k p \<notin> set (free_area s k)"
      using alone area_invD(5) [OF I alone(1)] buddy_bit_index [OF al refl] by blast
    then show ?thesis using push_block_ok [OF A k al N new] run by blast
  next
    case merge
    let ?b = "buddy k p"
    have b: "?b \<in> set (free_area s k)"
      using merge area_invD(5) [OF I merge(1)] buddy_bit_index [OF al refl] np by blast
    then have bf: "(k, ?b) \<in> free_blocks (free_area s)" using k by (simp add: free_blocks_def)
    let ?s1 = "s\<lparr>area_map := set_map k ?i False (area_map s)\<rparr>"
    have c: "change_map_bit k ?i s = Some ?s1"
      using areas_ok_bit [OF A k pN] merge by (simp del: power_Suc)
    have r: "remove_mem_queue k ?b ?s1 = Some (pull_block k ?b s)"
      using b by (simp add: remove_mem_queue_def pull_block_def buddy_same_pair [OF al] del: power_Suc)
    have run: "coalesce k p s = coalesce (Suc k) (parent k p) (pull_block k ?b s)"
      using merge c r by (subst coalesce.simps) (simp del: power_Suc)
    note pull = pull_block_ok [OF A bf]
    have disj: "block (Suc k) (parent k p) \<inter> free_set (free_area (pull_block k ?b s)) = {}"
      using parent_block(1) [OF al] pull(3) new by blast
    have sub: "block k ?b \<subseteq> free_set (free_area s)" using bf unfolding free_set_def by blast
    have step: "\<exists>s'. coalesce (Suc k) (parent k p) (pull_block k ?b s) = Some s' \<and> areas_ok s'
        \<and> only_areas (pull_block k ?b s) s'
        \<and> free_set (free_area s') =
            block (Suc k) (parent k p) \<union> free_set (free_area (pull_block k ?b s))"
    proof (rule 1(1) [OF merge(1) refl c _ r pull(1)])
      show "\<not> \<not> area_map s k ?i" using merge by simp
      show "Suc k < NR_MEM_LISTS" using merge by simp
      show "aligned (Suc k) (parent k p)" by (rule parent_block(3) [OF al])
      show "parent k p + 2 ^ Suc k \<le> g_max_mapnr (pull_block k ?b s)"
        using parent_end [OF al N] area_invD(3) [OF I bf] only_areas_sel(2) [OF pull(2)] by simp
    qed (rule disj)
    have "block (Suc k) (parent k p) \<union> free_set (free_area (pull_block k ?b s))
        = block k p \<union> free_set (free_area s)"
      unfolding parent_block(1) [OF al] pull(3) using sub by blast
    then show ?thesis using step run only_areas_trans [OF pull(2)] by auto
  qed
qed

section \<open>Splitting a block\<close>

lemma split_disjoint:
  assumes al: "aligned (Suc k) p" and new: "block (Suc k) p \<inter> free_set fa = {}" and k: "Suc k < NR_MEM_LISTS"
  shows "p \<notin> set (fa k)" "buddy k p \<notin> set (fa k)"
proof -
  have pk: "aligned k p" using al by (rule aligned_mono) simp
  have "parent k p = p"
    using al unfolding parent_def aligned_def by simp
  then have "block k p \<union> block k (buddy k p) = block (Suc k) p"
    using parent_block(1) [OF pk] by simp
  then have "block k p \<inter> free_set fa = {}" "block k (buddy k p) \<inter> free_set fa = {}"
    using new by blast+
  then show "p \<notin> set (fa k)" "buddy k p \<notin> set (fa k)"
    using not_on_list [OF Suc_lessD [OF k]] by blast+
qed

lemma EXPAND_step:
  assumes A: "areas_ok s" and k: "Suc k < NR_MEM_LISTS" and al: "aligned (Suc k) p"
    and N: "p + 2 ^ Suc k \<le> g_max_mapnr s" and new: "block (Suc k) p \<inter> free_set (free_area s) = {}"
  shows "MARK_USED p k (add_mem_queue k p s) = Some (push_block k p s)"
    "areas_ok (push_block k p s)" "only_areas s (push_block k p s)"
    "free_set (free_area (push_block k p s)) = block k p \<union> free_set (free_area s)"
proof -
  have I: "area_inv (g_max_mapnr s) (free_area s) (area_map s)" using A by (simp add: areas_ok_def)
  have pk: "aligned k p" using al by (rule aligned_mono) simp
  have k': "k < NR_MEM_LISTS" "k < NR_MEM_LISTS - 1" using k by simp_all
  note free = split_disjoint [OF al new k]
  have bit: "\<not> area_map s k (p div 2 ^ Suc k)"
    using area_invD(5) [OF I k'(2)] buddy_bit_index [OF pk refl] free by blast
  have pN: "p < g_max_mapnr s" using N zero_less_power [of "2 :: nat" "Suc k"] by linarith
  then have "p div 2 ^ Suc k < map_bits s k" using A k' by (simp add: areas_ok_def)
  then show "MARK_USED p k (add_mem_queue k p s) = Some (push_block k p s)"
    using k' bit
    by (simp add: MARK_USED_def change_map_bit_def add_mem_queue_def push_block_def set_map_def del: power_Suc)
  have "p + 2 ^ k \<le> g_max_mapnr s" using N by simp
  moreover have "block k p \<inter> free_set (free_area s) = {}" using new block_halves [of k p] by blast
  ultimately show "areas_ok (push_block k p s)" "only_areas s (push_block k p s)"
    "free_set (free_area (push_block k p s)) = block k p \<union> free_set (free_area s)"
    using push_block_ok [OF A k'(1) pk] free by simp_all
qed

lemma EXPAND_ok:
  "areas_ok s \<Longrightarrow> low \<le> high \<Longrightarrow> high < NR_MEM_LISTS \<Longrightarrow> aligned high p \<Longrightarrow>
   p + 2 ^ high \<le> g_max_mapnr s \<Longrightarrow> block high p \<inter> free_set (free_area s) = {} \<Longrightarrow>
   \<exists>s' q. EXPAND p low high s = Some (q, page_set_count q 1 s') \<and> areas_ok s' \<and> only_areas s s'
      \<and> aligned low q \<and> block low q \<subseteq> block high p
      \<and> free_set (free_area s') = free_set (free_area s) \<union> (block high p - block low q)"
proof (induction high arbitrary: p s)
  case 0
  then show ?case
    by (subst EXPAND.simps) (auto simp: only_areas_def intro!: exI [of _ s])
next
  case (Suc k)
  show ?case
  proof (cases "low = Suc k")
    case True
    then show ?thesis using Suc.prems
      by (subst EXPAND.simps) (auto simp: only_areas_def intro!: exI [of _ s])
  next
    case False
    let ?s = "push_block k p s" and ?p = "p + 2 ^ k"
    note st = EXPAND_step [OF Suc.prems(1,3,4,5,6)]
    have run: "EXPAND p low (Suc k) s = EXPAND ?p low k ?s"
      using False Suc.prems(2) st(1) by (subst EXPAND.simps) simp
    have halves: "block (Suc k) p = block k p \<union> block k ?p" "block k p \<inter> block k ?p = {}"
      by (rule block_halves, rule block_halves_disjoint)
    have "\<exists>s' q. EXPAND ?p low k ?s = Some (q, page_set_count q 1 s') \<and> areas_ok s' \<and> only_areas ?s s'
      \<and> aligned low q \<and> block low q \<subseteq> block k ?p
      \<and> free_set (free_area s') = free_set (free_area ?s) \<union> (block k ?p - block low q)"
    proof (rule Suc.IH [OF st(2)])
      show "low \<le> k" "k < NR_MEM_LISTS" using False Suc.prems(2,3) by simp_all
      show "aligned k ?p" using Suc.prems(4) aligned_mono [of "Suc k" p k] by (simp add: aligned_add)
      show "?p + 2 ^ k \<le> g_max_mapnr ?s" using Suc.prems(5) only_areas_sel(2) [OF st(3)] by simp
      show "block k ?p \<inter> free_set (free_area ?s) = {}" using st(4) Suc.prems(6) halves by blast
    qed
    then obtain s' q where r: "EXPAND ?p low k ?s = Some (q, page_set_count q 1 s')" "areas_ok s'"
      "only_areas ?s s'" "aligned low q" "block low q \<subseteq> block k ?p"
      "free_set (free_area s') = free_set (free_area ?s) \<union> (block k ?p - block low q)" by blast
    have "free_set (free_area s') = free_set (free_area s) \<union> (block (Suc k) p - block low q)"
      unfolding r(6) st(4) halves(1) using r(5) halves(2) by blast
    moreover have "block low q \<subseteq> block (Suc k) p" using r(5) halves(1) by blast
    ultimately show ?thesis using run r only_areas_trans [OF st(3)] by auto
  qed
qed

section \<open>Page flags over a range\<close>

definition mark_referenced :: "nat set \<Rightarrow> memory \<Rightarrow> memory" where
  "mark_referenced A s = s\<lparr>g_mem_map := (\<lambda>q. if q \<in> A
     then (g_mem_map s q)\<lparr>pflags := Bit_Operations.set_bit PG_referenced (pflags (g_mem_map s q))\<rparr>
     else g_mem_map s q)\<rparr>"

definition unmark_referenced :: "nat set \<Rightarrow> memory \<Rightarrow> memory" where
  "unmark_referenced A s = s\<lparr>g_mem_map := (\<lambda>q. if q \<in> A
     then (g_mem_map s q)\<lparr>pflags := unset_bit PG_referenced (pflags (g_mem_map s q))\<rparr>
     else g_mem_map s q)\<rparr>"

lemma set_pages_referenced_ok:
  "p + n \<le> g_max_mapnr s \<Longrightarrow> \<forall>q \<in> {p ..< p + n}. \<not> PageReferenced q s \<Longrightarrow>
   set_pages_referenced p n s = Some (mark_referenced {p ..< p + n} s)"
proof (induction n arbitrary: p s)
  case 0
  then show ?case by (subst set_pages_referenced.simps) (simp add: mark_referenced_def)
next
  case (Suc n)
  have "set_pages_referenced (p + 1) n (PageSetReferenced p s)
      = Some (mark_referenced {p + 1 ..< p + 1 + n} (PageSetReferenced p s))"
    using Suc.prems by (intro Suc.IH) (auto simp: PageSetReferenced_def update_page_def page_flag_def)
  moreover have "mark_referenced {p + 1 ..< p + 1 + n} (PageSetReferenced p s)
      = mark_referenced {p ..< p + Suc n} s"
    by (auto simp: mark_referenced_def PageSetReferenced_def update_page_def fun_eq_iff)
  ultimately show ?case
    using Suc.prems by (subst set_pages_referenced.simps) simp
qed

lemma clear_pages_referenced_ok:
  "p + n \<le> g_max_mapnr s \<Longrightarrow> \<forall>q \<in> {p ..< p + n}. PageReferenced q s \<Longrightarrow>
   clear_pages_referenced p n s = Some (unmark_referenced {p ..< p + n} s)"
proof (induction n arbitrary: p s)
  case 0
  then show ?case by (subst clear_pages_referenced.simps) (simp add: unmark_referenced_def)
next
  case (Suc n)
  have "clear_pages_referenced (p + 1) n (PageClearReferenced p s)
      = Some (unmark_referenced {p + 1 ..< p + 1 + n} (PageClearReferenced p s))"
    using Suc.prems by (intro Suc.IH) (auto simp: PageClearReferenced_def update_page_def page_flag_def)
  moreover have "unmark_referenced {p + 1 ..< p + 1 + n} (PageClearReferenced p s)
      = unmark_referenced {p ..< p + Suc n} s"
    by (auto simp: unmark_referenced_def PageClearReferenced_def update_page_def fun_eq_iff)
  ultimately show ?case
    using Suc.prems by (subst clear_pages_referenced.simps) simp
qed

lemma page_flag_mark [simp]:
  "page_flag f q (mark_referenced A s) \<longleftrightarrow> page_flag f q s \<or> f = PG_referenced \<and> q \<in> A"
  by (auto simp: page_flag_def mark_referenced_def bit_simps)

lemma page_flag_unmark [simp]:
  "page_flag f q (unmark_referenced A s) \<longleftrightarrow> page_flag f q s \<and> (f \<noteq> PG_referenced \<or> q \<notin> A)"
  by (auto simp: page_flag_def unmark_referenced_def bit_simps)

lemma page_flag_set_count [simp]: "page_flag f q (page_set_count p c s) = page_flag f q s"
  by (simp add: page_flag_def page_set_count_def update_page_def)

section \<open>The allocator invariant\<close>

text \<open>
  Physical memory is mapped from \<open>KADDRSPACE_START\<close> and stays clear of the kernel image, every
  page on a free list is usable and unreferenced, and the counters count.
\<close>

definition layout_ok :: "memory \<Rightarrow> bool" where
  "layout_ok s \<longleftrightarrow> g_kernelspace_starting_address s = KADDRSPACE_START
     \<and> g_max_mapnr s * PAGE_SIZE \<le> unat (g_phy_mem_size s) \<and> unat (g_phy_mem_size s) \<le> 2 ^ 45"

definition page_clean :: "nat \<Rightarrow> memory \<Rightarrow> bool" where
  "page_clean p s \<longleftrightarrow> PageDMA p s \<and> \<not> PageReserved p s \<and> \<not> PageNetBuf p s \<and> \<not> PageSwapCache p s
     \<and> option_data (g_mem_map s p) = 0"

definition free_pages :: "memory \<Rightarrow> nat set" where
  "free_pages s = free_set (free_area s)"

definition buddy_inv :: "memory \<Rightarrow> bool" where
  "buddy_inv s \<longleftrightarrow> areas_ok s \<and> layout_ok s
     \<and> g_nr_free_pages s = of_nat (card (free_pages s))
     \<and> (\<forall>p \<in> free_pages s. page_clean p s \<and> \<not> PageReferenced p s)"

lemma free_pages_bound: "areas_ok s \<Longrightarrow> free_pages s \<subseteq> {..< g_max_mapnr s}"
proof
  fix x assume A: "areas_ok s" and "x \<in> free_pages s"
  then obtain k p where kp: "(k, p) \<in> free_blocks (free_area s)" "x \<in> block k p"
    by (auto simp: free_pages_def free_set_def)
  have "p + 2 ^ k \<le> g_max_mapnr s" using A area_invD(3) kp(1) unfolding areas_ok_def by blast
  with kp(2) show "x \<in> {..< g_max_mapnr s}" by (auto simp: block_def)
qed

lemma finite_free_pages: "areas_ok s \<Longrightarrow> finite (free_pages s)"
  using free_pages_bound finite_subset by blast

lemma block_in_range:
  assumes "block k p \<subseteq> {..< N}"
  shows "p + 2 ^ k \<le> N"
proof -
  obtain n where n: "(2 :: nat) ^ k = Suc n" using not0_implies_Suc [of "2 ^ k"] by auto
  then have "p + n \<in> block k p" by (simp add: block_def)
  with assms have "p + n < N" by blast
  then show ?thesis using n by simp
qed

subsection \<open>Addresses\<close>

lemma ADDRESS_props:
  assumes L: "layout_ok s" and p: "p < g_max_mapnr s"
  shows "MAP_NR (ADDRESS (of_nat p)) s = of_nat p"
    and "ADDRESS (of_nat p) > 0"
    and "\<not> (ADDRESS (of_nat p) \<ge> KADDRSPACE_START + g_phy_mem_size s \<or> ADDRESS (of_nat p) < KADDRSPACE_START)"
    and "unat (ADDRESS (of_nat p)) = unat KADDRSPACE_START + p * PAGE_SIZE"
proof -
  have b: "p * 4096 < unat (g_phy_mem_size s)" "unat (g_phy_mem_size s) \<le> 2 ^ 45"
    using L p unfolding layout_ok_def by auto
  have K: "unat KADDRSPACE_START = 0xffffc90000000000" by (simp add: KADDRSPACE_START_def)
  have sh: "push_bit 12 (of_nat p :: u64) = of_nat (p * 4096)" by (simp add: push_bit_eq_mult)
  have u: "unat (of_nat (p * 4096) :: u64) = p * 4096" using b by (intro unat_of_nat_u64) simp
  have addr: "unat (ADDRESS (of_nat p)) = unat KADDRSPACE_START + p * 4096"
    unfolding ADDRESS_def sh unat_word_ariths u K using b by simp
  then show "unat (ADDRESS (of_nat p)) = unat KADDRSPACE_START + p * PAGE_SIZE" by simp
  show "ADDRESS (of_nat p) > 0" unfolding word_less_nat_alt addr K by simp
  have ks: "unat (KADDRSPACE_START + g_phy_mem_size s) = unat KADDRSPACE_START + unat (g_phy_mem_size s)"
    unfolding unat_word_ariths K using b by simp
  show "\<not> (ADDRESS (of_nat p) \<ge> KADDRSPACE_START + g_phy_mem_size s \<or> ADDRESS (of_nat p) < KADDRSPACE_START)"
    unfolding word_le_nat_alt word_less_nat_alt ks addr using b by simp
  have "\<not> ADDRESS (of_nat p) > KERNEL_CODE_START"
    unfolding word_less_nat_alt addr K using b by (simp add: KERNEL_CODE_START_def)
  then have "pa (ADDRESS (of_nat p)) s = of_nat (p * 4096)"
    using L unfolding pa_def layout_ok_def by (simp add: ADDRESS_def sh KADDRSPACE_START_def)
  moreover have "drop_bit 12 (of_nat (p * 4096) :: u64) = of_nat (p * 4096 div 2 ^ 12)"
    using b by (intro drop_bit_of_nat_u64) simp
  ultimately show "MAP_NR (ADDRESS (of_nat p)) s = of_nat p" by (simp add: MAP_NR_def)
qed

subsection \<open>The scan of the free lists\<close>

lemma find_free_Some:
  "find_free k s = Some (j, p) \<Longrightarrow> k \<le> j \<and> (j, p) \<in> free_blocks (free_area s)"
proof (induction k s rule: find_free.induct)
  case (1 k s)
  show ?case
  proof (cases "k < NR_MEM_LISTS")
    case True
    show ?thesis
    proof (cases "find (\<lambda>p. PageDMA p s) (free_area s k)")
      case None
      then have "find_free (k + 1) s = Some (j, p)"
        using 1(2) True by (simp add: find_free.simps [of k])
      then show ?thesis using 1(1) [OF True None] by simp
    next
      case (Some q)
      then have "j = k" "q = p" using 1(2) True by (simp_all add: find_free.simps [of k])
      moreover have "q \<in> set (free_area s k)" using Some by (auto simp: find_Some_iff)
      ultimately show ?thesis using True by (simp add: free_blocks_def)
    qed
  next
    case False
    then show ?thesis using 1(2) by (simp add: find_free.simps [of k])
  qed
qed

lemma find_free_None:
  "find_free k s = None \<Longrightarrow> k \<le> j \<Longrightarrow> (j, p) \<in> free_blocks (free_area s) \<Longrightarrow> \<not> PageDMA p s"
proof (induction k s rule: find_free.induct)
  case (1 k s)
  have k: "k < NR_MEM_LISTS" using 1(3,4) by (auto simp: free_blocks_def)
  then have none: "find (\<lambda>p. PageDMA p s) (free_area s k) = None" "find_free (k + 1) s = None"
    using 1(2) by (auto simp: find_free.simps [of k] split: option.splits)
  show ?case
  proof (cases "j = k")
    case True
    then show ?thesis using none(1) 1(4) by (auto simp: find_None_iff free_blocks_def)
  next
    case False
    then show ?thesis using 1(1) [OF k none(1,2)] 1(3,4) by auto
  qed
qed

subsection \<open>Allocation\<close>

lemma on_list_free: "(j, p) \<in> free_blocks (free_area s) \<Longrightarrow> block j p \<subseteq> free_pages s"
  by (auto simp: free_pages_def free_set_def)

lemma take_block:
  assumes A: "areas_ok s" and m: "(j, p) \<in> free_blocks (free_area s)" and le: "k \<le> j"
  shows "\<exists>s' q. take_free k j p s = Some (q, page_set_count q 1 s')
     \<and> areas_ok s' \<and> only_areas (s\<lparr>g_nr_free_pages := g_nr_free_pages s - 2 ^ k\<rparr>) s'
     \<and> aligned k q \<and> block k q \<subseteq> block j p \<and> free_pages s' = free_pages s - block k q"
proof -
  have I: "area_inv (g_max_mapnr s) (free_area s) (area_map s)" using A by (simp add: areas_ok_def)
  have j: "j < NR_MEM_LISTS" and pj: "p \<in> set (free_area s j)" using m by (auto simp: free_blocks_def)
  have al: "aligned j p" and N: "p + 2 ^ j \<le> g_max_mapnr s" using area_invD(2,3) [OF I m] by simp_all
  have pN: "p < g_max_mapnr s" using N zero_less_power [of "2 :: nat" j] by linarith
  let ?i = "p div 2 ^ Suc j"
  let ?t = "s\<lparr>free_area := (free_area s)(j := remove1 p (free_area s j)),
      area_map := set_map j ?i (\<not> area_map s j ?i) (area_map s),
      stat_count := (stat_count s)(j := stat_count s j - 1), g_nr_free_pages := g_nr_free_pages s - 2 ^ k\<rparr>"
  have bit: "?i < map_bits s j" using A j pN by (simp add: areas_ok_def)
  have mark: "MARK_USED p j (s\<lparr>free_area := (free_area s)(j := remove1 p (free_area s j))\<rparr>)
      = Some (s\<lparr>free_area := (free_area s)(j := remove1 p (free_area s j)),
               area_map := set_map j ?i (\<not> area_map s j ?i) (area_map s)\<rparr>)"
    using bit j by (simp add: MARK_USED_def change_map_bit_def set_map_def del: power_Suc)
  note pull = pull_block_ok [OF A m]
  have old: "area_map s j ?i" if "j < NR_MEM_LISTS - 1"
    using area_invD(5) [OF I that] buddy_bit_index [OF al refl] pj by blast
  have t: "areas_ok ?t"
  proof -
    have P: "area_inv (g_max_mapnr s) (free_area ?t) (set_map j ?i False (area_map s))"
      using pull(1) by (simp add: areas_ok_def pull_block_def)
    have "area_inv (g_max_mapnr s) (free_area ?t) (area_map ?t)"
    proof (rule area_inv_map_cong [OF P])
      show "area_map ?t i = set_map j ?i False (area_map s) i" if "i < NR_MEM_LISTS - 1" for i
        using old that by (cases "i = j") (simp_all add: set_map_def)
    qed
    then show ?thesis using pull(1) by (simp add: areas_ok_def pull_block_def)
  qed
  have ft: "free_set (free_area ?t) = free_set (free_area s) - block j p"
    using pull(3) by (simp add: pull_block_def)
  then have disj: "block j p \<inter> free_set (free_area ?t) = {}" by blast
  have Nt: "p + 2 ^ j \<le> g_max_mapnr ?t" using N by simp
  obtain s' q where r: "EXPAND p k j ?t = Some (q, page_set_count q 1 s')" "areas_ok s'"
    "only_areas ?t s'" "aligned k q" "block k q \<subseteq> block j p"
    "free_set (free_area s') = free_set (free_area ?t) \<union> (block j p - block k q)"
    using EXPAND_ok [OF t le j al Nt disj] by blast
  have "free_pages s' = free_pages s - block k q"
    using r(5,6) ft on_list_free [OF m] by (auto simp: free_pages_def)
  moreover have "only_areas (s\<lparr>g_nr_free_pages := g_nr_free_pages s - 2 ^ k\<rparr>) s'"
    using r(3) by (simp add: only_areas_def)
  moreover have "take_free k j p s = Some (q, page_set_count q 1 s')"
    using mark r(1) by (simp add: take_free_def Let_def del: power_Suc)
  ultimately show ?thesis using r by blast
qed

definition held_block :: "nat \<Rightarrow> nat \<Rightarrow> memory \<Rightarrow> bool" where
  "held_block k p s \<longleftrightarrow> k < NR_MEM_LISTS \<and> aligned k p \<and> p + 2 ^ k \<le> g_max_mapnr s
     \<and> pcount (g_mem_map s p) = 1
     \<and> (\<forall>q \<in> block k p. page_clean q s \<and> PageReferenced q s)"

definition others_kept :: "nat set \<Rightarrow> memory \<Rightarrow> memory \<Rightarrow> bool" where
  "others_kept A s s' \<longleftrightarrow> g_max_mapnr s' = g_max_mapnr s
     \<and> (\<forall>q. q \<notin> A \<longrightarrow> g_mem_map s' q = g_mem_map s q \<and> contents s' q = contents s q)"

lemma card_take:
  assumes "finite F" "block k q \<subseteq> F"
  shows "(of_nat (card (F - block k q)) :: u32) = of_nat (card F) - 2 ^ k"
proof -
  have "card (F - block k q) + 2 ^ k = card F"
    using assms card_mono [OF assms] by (simp add: card_Diff_subset)
  then have "(of_nat (card F) :: u32) = of_nat (card (F - block k q)) + 2 ^ k"
    by (metis of_nat_add of_nat_numeral of_nat_power)
  then show ?thesis by simp
qed

lemma page_clean_eq:
  "g_mem_map s' p = g_mem_map s p \<Longrightarrow> page_clean p s' = page_clean p s"
  by (simp add: page_clean_def page_flag_def)

lemma page_clean_mark [simp]: "page_clean p (mark_referenced A s) = page_clean p s"
  by (simp add: page_clean_def) (simp add: mark_referenced_def)

lemma page_clean_set_count [simp]: "page_clean p (page_set_count q c s) = page_clean p s"
  by (simp add: page_clean_def) (simp add: page_set_count_def update_page_def)

text \<open>The state an allocation ends in, given the state after the block was split off.\<close>

definition finish_alloc :: "u32 \<Rightarrow> nat \<Rightarrow> nat \<Rightarrow> memory \<Rightarrow> memory" where
  "finish_alloc g k q s1 = mark_referenced (block k q)
     (if g AND MEM_CLEAR \<noteq> 0 then clear_memory q k (page_set_count q 1 s1) else page_set_count q 1 s1)"

lemma finish_alloc_sel:
  "free_area (finish_alloc g k q s) = free_area s" "area_map (finish_alloc g k q s) = area_map s"
  "stat_count (finish_alloc g k q s) = stat_count s" "map_bits (finish_alloc g k q s) = map_bits s"
  "g_max_mapnr (finish_alloc g k q s) = g_max_mapnr s"
  "g_nr_free_pages (finish_alloc g k q s) = g_nr_free_pages s"
  "g_phy_mem_size (finish_alloc g k q s) = g_phy_mem_size s"
  "g_kernelspace_starting_address (finish_alloc g k q s) = g_kernelspace_starting_address s"
  "free_pages (finish_alloc g k q s) = free_pages s"
  "a \<notin> block k q \<Longrightarrow> contents (finish_alloc g k q s) a = contents s a"
  "a \<notin> block k q \<Longrightarrow> g_mem_map (finish_alloc g k q s) a = g_mem_map s a"
  "pcount (g_mem_map (finish_alloc g k q s) q) = 1"
  "page_flag f a (finish_alloc g k q s) \<longleftrightarrow> page_flag f a s \<or> f = PG_referenced \<and> a \<in> block k q"
  "page_clean a (finish_alloc g k q s) = page_clean a s"
  by (auto simp: finish_alloc_def mark_referenced_def clear_memory_def page_set_count_def update_page_def
      free_pages_def page_flag_def page_clean_def bit_simps)

lemma finish_alloc_zero:
  "g AND MEM_CLEAR \<noteq> 0 \<Longrightarrow> a \<in> block k q \<Longrightarrow> i < PAGE_SIZE \<Longrightarrow> contents (finish_alloc g k q s) a i = 0"
  by (simp add: finish_alloc_def clear_memory_def mark_referenced_def)

lemma finish_alloc_ok:
  assumes B: "buddy_inv s" and k: "k < NR_MEM_LISTS" and sub: "block k q \<subseteq> free_pages s"
    and t: "areas_ok s1" "only_areas (s\<lparr>stat_allocs := n, g_nr_free_pages := g_nr_free_pages s - 2 ^ k\<rparr>) s1"
      "aligned k q" "free_pages s1 = free_pages s - block k q"
  shows "buddy_inv (finish_alloc g k q s1)" "held_block k q (finish_alloc g k q s1)"
    "others_kept (block k q) s (finish_alloc g k q s1)"
proof -
  let ?s = "finish_alloc g k q s1"
  note sel = only_areas_sel [OF t(2)]
  have flags: "page_flag f a s1 = page_flag f a s" "page_clean a s1 = page_clean a s" for f a
    using sel(1) by (simp_all add: page_flag_def page_clean_def)
  have free_ok: "page_clean a s" "\<not> PageReferenced a s" if "a \<in> free_pages s" for a
    using B that by (simp_all add: buddy_inv_def)
  have A: "areas_ok s" using B by (simp add: buddy_inv_def)
  have nr: "g_nr_free_pages ?s = of_nat (card (free_pages ?s))"
    unfolding finish_alloc_sel(9) t(4) card_take [OF finite_free_pages [OF A] sub]
    using sel(3) B by (simp add: finish_alloc_sel buddy_inv_def)
  have "areas_ok ?s" using t(1) by (simp add: areas_ok_def finish_alloc_sel)
  moreover have "layout_ok ?s" using B sel by (simp add: buddy_inv_def layout_ok_def finish_alloc_sel)
  ultimately show "buddy_inv ?s"
    unfolding buddy_inv_def using nr free_ok by (simp add: finish_alloc_sel t(4) flags)
  have "q + 2 ^ k \<le> g_max_mapnr s"
    using sub free_pages_bound [OF A] by (intro block_in_range) blast
  then show "held_block k q ?s"
    using k t(3) sel(2) free_ok(1) sub by (auto simp: held_block_def finish_alloc_sel flags)
  show "others_kept (block k q) s ?s"
    using sel by (simp add: others_kept_def finish_alloc_sel)
qed

lemma mm_getFreePages_found:
  assumes B: "buddy_inv s" and k: "k < NR_MEM_LISTS"
    and f: "find_free k (s\<lparr>stat_allocs := stat_allocs s + 1\<rparr>) = Some (j, p)"
  shows "\<exists>q s'. mm_getFreePages g k s = Some (ADDRESS (of_nat q), s') \<and> buddy_inv s'
     \<and> held_block k q s' \<and> block k q \<subseteq> free_pages s \<and> free_pages s' = free_pages s - block k q
     \<and> others_kept (block k q) s s'
     \<and> (g AND MEM_CLEAR \<noteq> 0 \<longrightarrow> (\<forall>a \<in> block k q. \<forall>i < PAGE_SIZE. contents s' a i = 0))"
proof -
  let ?s0 = "s\<lparr>stat_allocs := stat_allocs s + 1\<rparr>"
  have A0: "areas_ok ?s0" and L: "layout_ok s" using B by (simp_all add: buddy_inv_def areas_ok_def)
  have f0: "free_pages ?s0 = free_pages s" by (simp add: free_pages_def)
  have j: "k \<le> j" "(j, p) \<in> free_blocks (free_area ?s0)" using find_free_Some [OF f] by blast+
  obtain s1 q where t: "take_free k j p ?s0 = Some (q, page_set_count q 1 s1)" "areas_ok s1"
    "only_areas (?s0\<lparr>g_nr_free_pages := g_nr_free_pages ?s0 - 2 ^ k\<rparr>) s1" "aligned k q"
    "block k q \<subseteq> block j p" "free_pages s1 = free_pages ?s0 - block k q"
    using take_block [OF A0 j(2,1)] by blast
  have sub: "block k q \<subseteq> free_pages s" using t(5) on_list_free [OF j(2)] f0 by blast
  have qN: "q + 2 ^ k \<le> g_max_mapnr s"
    using sub free_pages_bound [OF A0] f0 by (intro block_in_range) auto
  note fin = finish_alloc_ok [OF B k sub t(2) _ t(4)] 
  define s2 where "s2 = (if g AND MEM_CLEAR \<noteq> 0 then clear_memory q k (page_set_count q 1 s1)
    else page_set_count q 1 s1)"
  have s3: "mark_referenced (block k q) s2 = finish_alloc g k q s1" by (simp add: finish_alloc_def s2_def)
  have s2: "g_max_mapnr s2 = g_max_mapnr s" "layout_ok s2" "page_flag x a s2 = page_flag x a s" for x a
    using only_areas_sel [OF t(3)] L
    by (simp_all add: s2_def clear_memory_def page_set_count_def update_page_def layout_ok_def page_flag_def)
  have q2: "q < g_max_mapnr s2" using qN s2(1) zero_less_power [of "2 :: nat" k] by linarith
  note ad = ADDRESS_props [OF s2(2) q2]
  have "\<not> PageReferenced a s2" if "a \<in> block k q" for a
    using B sub that s2(3) by (auto simp: buddy_inv_def)
  moreover have "unat (of_nat q :: u64) = q"
    using s2(2) q2 by (intro unat_of_nat_u64) (simp add: layout_ok_def)
  ultimately have "set_pages_referenced (unat (MAP_NR (ADDRESS (of_nat q)) s2)) (2 ^ k) s2
      = Some (finish_alloc g k q s1)"
    unfolding ad(1) s3 [symmetric] block_def using qN s2(1)
    by (simp add: set_pages_referenced_ok block_def)
  moreover have "g_phy_mem_size (finish_alloc g k q s1) = g_phy_mem_size s2"
    unfolding s3 [symmetric] by (simp add: mark_referenced_def)
  ultimately have "mm_getFreePages g k s = Some (ADDRESS (of_nat q), finish_alloc g k q s1)"
    using k f t(1) ad(2,3) unfolding mm_getFreePages_def Let_def by (simp flip: s2_def)
  then show ?thesis
    using fin t(3,6) f0 sub finish_alloc_zero by (simp add: finish_alloc_sel(9)) blast
qed

lemma mm_getFreePages_none:
  assumes B: "buddy_inv s" and k: "k < NR_MEM_LISTS"
    and f: "find_free k (s\<lparr>stat_allocs := stat_allocs s + 1\<rparr>) = None"
  shows "mm_getFreePages g k s = Some (0, s\<lparr>stat_allocs := stat_allocs s + 1\<rparr>)"
    and "aligned k q \<Longrightarrow> \<not> block k q \<subseteq> free_pages s"
proof -
  show "mm_getFreePages g k s = Some (0, s\<lparr>stat_allocs := stat_allocs s + 1\<rparr>)"
    using k f by (simp add: mm_getFreePages_def)
  assume q: "aligned k q"
  show "\<not> block k q \<subseteq> free_pages s"
  proof
    assume "block k q \<subseteq> free_pages s"
    then obtain j p where j: "k \<le> j" "(j, p) \<in> free_blocks (free_area s)"
      using free_block_covers [OF _ k q] B unfolding buddy_inv_def areas_ok_def free_pages_def by blast
    have "\<not> PageDMA p s" using find_free_None [OF f j(1)] j(2) by (simp add: page_flag_def)
    moreover have "page_clean p s"
      using B subsetD [OF on_list_free [OF j(2)] block_start] by (simp add: buddy_inv_def)
    ultimately show False by (simp add: page_clean_def)
  qed
qed

subsection \<open>Release\<close>

lemma card_give:
  assumes "finite F" "block k q \<inter> F = {}"
  shows "(of_nat (card (block k q \<union> F)) :: u32) = of_nat (card F) + 2 ^ k"
  using assms by (simp add: card_Un_disjoint)

lemma mask_count: "(c :: u32) - ucast (push_bit k (- 1) :: u64) = c + 2 ^ k" if "k < NR_MEM_LISTS"
proof -
  have "k \<in> {0, 1, 2, 3, 4, 5, 6, 7, 8, 9, 10}"
    using that unfolding NR_MEM_LISTS_def insert_iff empty_iff by presburger
  moreover have "ucast (- 1 :: u64) = (- 1 :: u32)" by (rule bit_word_eqI) (simp add: bit_simps)
  ultimately show ?thesis by (auto simp: push_bit_eq_mult)
qed

lemma free_pages_ok_coalesce:
  assumes "k < NR_MEM_LISTS" "aligned k p" "p < 2 ^ 52"
  shows "free_pages_ok (of_nat p) k s = coalesce k p (s\<lparr>g_nr_free_pages := g_nr_free_pages s + 2 ^ k\<rparr>)"
proof -
  have "(of_nat p :: u64) AND push_bit k (- 1) = of_nat p"
    using assms(2,3) and_mask_of_nat [of p k] by (simp add: aligned_def)
  moreover have "drop_bit (1 + k) (of_nat p :: u64) = of_nat (p div 2 ^ Suc k)"
    using drop_bit_of_nat_u64 [of p "1 + k"] assms(3) by simp
  ultimately show ?thesis
    unfolding free_pages_ok_def Let_def mask_count [OF assms(1)]
    by (simp only: free_pages_loop_coalesce [OF assms])
qed

lemma held_not_free: "buddy_inv s \<Longrightarrow> held_block k p s \<Longrightarrow> block k p \<inter> free_pages s = {}"
  by (auto simp: held_block_def buddy_inv_def)

lemma held_start: "held_block k p s \<Longrightarrow> p < g_max_mapnr s"
  using zero_less_power [of "2 :: nat" k] unfolding held_block_def by linarith

definition start_free :: "nat \<Rightarrow> nat \<Rightarrow> memory \<Rightarrow> memory" where
  "start_free k p s = (page_set_count p 0 (s\<lparr>stat_frees := stat_frees s + 1\<rparr>))
     \<lparr>g_nr_free_pages := g_nr_free_pages s + 2 ^ k\<rparr>"

lemma start_free_sel:
  "free_area (start_free k p s) = free_area s" "g_max_mapnr (start_free k p s) = g_max_mapnr s"
  "g_kernelspace_starting_address (start_free k p s) = g_kernelspace_starting_address s"
  "g_phy_mem_size (start_free k p s) = g_phy_mem_size s" "contents (start_free k p s) = contents s"
  "areas_ok (start_free k p s) = areas_ok s" "page_flag f q (start_free k p s) = page_flag f q s"
  "option_data (g_mem_map (start_free k p s) q) = option_data (g_mem_map s q)"
  "g_nr_free_pages (start_free k p s) = g_nr_free_pages s + 2 ^ k"
  "q \<noteq> p \<Longrightarrow> g_mem_map (start_free k p s) q = g_mem_map s q"
  by (simp_all add: start_free_def page_set_count_def update_page_def areas_ok_def page_flag_def)

lemma finish_free_ok:
  assumes B: "buddy_inv s" and h: "held_block k p s"
    and s2: "areas_ok s2" "only_areas (start_free k p s) s2" "free_pages s2 = block k p \<union> free_pages s"
  defines "s3 \<equiv> unmark_referenced (block k p) s2"
  shows "buddy_inv s3" "free_pages s3 = block k p \<union> free_pages s" "others_kept (block k p) s s3"
    "contents s3 = contents s"
proof -
  note sel = only_areas_sel [OF s2(2)]
  have A: "areas_ok s" and L: "layout_ok s" using B by (simp_all add: buddy_inv_def)
  have pf: "page_flag x q s2 = page_flag x q s" "option_data (g_mem_map s2 q) = option_data (g_mem_map s q)" for x q
    using start_free_sel(7,8) [where q = q and k = k and p = p and s = s] sel(1)
    by (simp_all add: page_flag_def)
  have pc: "page_clean q s3 = page_clean q s" for q
    unfolding page_clean_def s3_def by (simp add: pf) (simp add: unmark_referenced_def pf)
  show f3: "free_pages s3 = block k p \<union> free_pages s"
    using s2(3) by (simp add: free_pages_def s3_def unmark_referenced_def)
  show "contents s3 = contents s" using sel by (simp add: s3_def unmark_referenced_def start_free_sel)
  have "areas_ok s3" using s2(1) by (simp add: areas_ok_def s3_def unmark_referenced_def)
  moreover have "layout_ok s3"
    using L sel by (simp add: layout_ok_def s3_def unmark_referenced_def start_free_sel)
  moreover have "g_nr_free_pages s3 = of_nat (card (free_pages s3))"
    unfolding f3 card_give [OF finite_free_pages [OF A] held_not_free [OF B h]]
    using B sel by (simp add: s3_def unmark_referenced_def start_free_sel buddy_inv_def)
  moreover have "page_clean q s3 \<and> \<not> PageReferenced q s3" if "q \<in> free_pages s3" for q
    using that B h unfolding f3 pc by (auto simp: s3_def pf buddy_inv_def held_block_def)
  ultimately show "buddy_inv s3" by (simp add: buddy_inv_def)
  show "others_kept (block k p) s s3"
  proof -
    have "q \<noteq> p" if "q \<notin> block k p" for q using that by auto
    then show ?thesis
      using sel by (simp add: others_kept_def s3_def unmark_referenced_def start_free_sel)
  qed
qed

lemma mm_putFreePages_held:
  assumes B: "buddy_inv s" and h: "held_block k p s"
  shows "\<exists>s'. mm_putFreePages (ADDRESS (of_nat p)) k s = Some (1, s') \<and> buddy_inv s'
     \<and> free_pages s' = block k p \<union> free_pages s \<and> others_kept (block k p) s s'
     \<and> contents s' = contents s"
proof -
  have A: "areas_ok s" and L: "layout_ok s" using B by (simp_all add: buddy_inv_def)
  have k: "k < NR_MEM_LISTS" and al: "aligned k p" and N: "p + 2 ^ k \<le> g_max_mapnr s"
    using h by (auto simp: held_block_def)
  have p: "p < g_max_mapnr s" by (rule held_start [OF h])
  have p52: "p < 2 ^ 52" using p L by (simp add: layout_ok_def)
  have up: "unat (of_nat p :: u64) = p" using p52 by (intro unat_of_nat_u64) simp
  have first: "\<not> PageReserved p s" "\<not> PageNetBuf p s" "\<not> PageSwapCache p s"
      "option_data (g_mem_map s p) = 0" "pcount (g_mem_map s p) - 1 = 0"
    using h block_start [of p k] by (auto simp: page_clean_def held_block_def)
  have A1: "areas_ok (start_free k p s)" using A by (simp add: start_free_sel)
  have "\<exists>s2. coalesce k p (start_free k p s) = Some s2 \<and> areas_ok s2 \<and> only_areas (start_free k p s) s2
      \<and> free_set (free_area s2) = block k p \<union> free_set (free_area (start_free k p s))"
    using held_not_free [OF B h] N
    by (intro coalesce_ok [OF A1 k al]) (simp_all add: free_pages_def start_free_sel)
  then obtain s2 where s2: "coalesce k p (start_free k p s) = Some s2" "areas_ok s2"
    "only_areas (start_free k p s) s2" "free_pages s2 = block k p \<union> free_pages s"
    by (auto simp: free_pages_def start_free_sel)
  have "PageReferenced q s2" if "q \<in> block k p" for q
    using h that only_areas_sel(1) [OF s2(3)] start_free_sel(7) [where f = PG_referenced and q = q and k = k and p = p and s = s]
    by (simp add: held_block_def page_flag_def)
  then have "clear_pages_referenced p (2 ^ k) s2 = Some (unmark_referenced (block k p) s2)"
    unfolding block_def using N only_areas_sel(2) [OF s2(3)]
    by (intro clear_pages_referenced_ok) (auto simp: start_free_sel block_def)
  then have "mm_putFreePages (ADDRESS (of_nat p)) k s = Some (1, unmark_referenced (block k p) s2)"
    using first p s2(1) up ADDRESS_props(1) [OF L p]
    unfolding mm_putFreePages_def Let_def MAP_NR_def pa_def start_free_def
    by (simp add: page_flag_def page_set_count_def update_page_def free_pages_ok_coalesce [OF k al p52])
  then show ?thesis using finish_free_ok [OF B h s2(2,3,4)] by blast
qed

end
