(* ===== verification/Page_Init.thy ===== *)
theory Page_Init
  imports Buddy
begin

text \<open>
  Boot of the page allocator (\<open>init_free_area\<close> and \<open>init_mem\<close> of mm/memory.c): the page array and
  the bitmaps are laid out at the start of memory, every page starts reserved, and the pages above
  the kernel's own data are released one by one. The theory shows that the allocator invariant
  holds afterwards and which pages are free.
\<close>

section \<open>Model\<close>

definition LONG_ALIGN :: "u64 \<Rightarrow> u64" where
  "LONG_ALIGN x = (x + 8 - 1) AND NOT (8 - 1)"

text \<open>The size of \<open>page_struct_t\<close> with \<open>MEMORY_DEBUG\<close> set.\<close>

definition sizeof_page :: u64 where "sizeof_page = 272"

text \<open>\<open>(1 << PG_DMA) | (1 << PG_reserved)\<close> is a negative \<open>int\<close> widened to \<open>unsigned long\<close>.\<close>

definition initial_page :: page where
  "initial_page = \<lparr>pcount = 0,
     pflags = scast (push_bit PG_DMA 1 OR push_bit PG_reserved 1 :: u32), option_data = 0\<rparr>"

function init_areas :: "nat \<Rightarrow> u64 \<Rightarrow> u64 \<Rightarrow> u64 \<Rightarrow> memory \<Rightarrow> u64 \<times> memory" where
  "init_areas i msk start_mem end_mem s =
     (if i < NR_MEM_LISTS then
        let s = init_mem_queue i s;
            msk = msk + msk;
            end_mem = (end_mem + NOT msk) AND msk;
            bitmap_size = drop_bit (PAGE_SHIFT + i) (end_mem - KADDRSPACE_START);
            bitmap_size = drop_bit 3 (bitmap_size + 7);
            bitmap_size = LONG_ALIGN bitmap_size;
            s = s\<lparr>map_bits := (map_bits s)(i := 8 * unat bitmap_size),
                  area_map := (area_map s)(i := (\<lambda>_. False))\<rparr>
        in init_areas (i + 1) msk (start_mem + bitmap_size) end_mem s
      else (start_mem, s))"
  by pat_completeness auto
termination
  by (relation "measure (\<lambda>(i, _). NR_MEM_LISTS - i)") auto

declare init_areas.simps [simp del]

definition init_free_area :: "u64 \<Rightarrow> u64 \<Rightarrow> memory \<Rightarrow> (u64 \<times> memory) option" where
  "init_free_area start_mem end_mem s = do {
     let mem_map = LONG_ALIGN (start_mem + 8);
     let p = mem_map + MAP_NR end_mem s * sizeof_page;
     let start_mem = LONG_ALIGN p;
     kassert (MAP_NR end_mem s > 0);
     let s = s\<lparr>g_mem_map := (\<lambda>n. if n < unat (MAP_NR end_mem s) then initial_page else g_mem_map s n)\<rparr>;
     Some (init_areas 0 PAGE_MASK start_mem end_mem s) }"

partial_function (option) unreserve_pages :: "u64 \<Rightarrow> u64 \<Rightarrow> memory \<Rightarrow> memory option" where
  "unreserve_pages start_mem end_mem s =
     (if start_mem < end_mem then do {
        kassert (unat (MAP_NR start_mem s) < g_max_mapnr s);
        unreserve_pages (start_mem + 4096) end_mem (PageClearReserved (unat (MAP_NR start_mem s)) s) }
      else Some s)"

partial_function (option) release_pages :: "u64 \<Rightarrow> u64 \<Rightarrow> memory \<Rightarrow> memory option" where
  "release_pages tmp end_mem s =
     (if tmp < end_mem then
        let p = unat (MAP_NR tmp s) in
        if PageReserved p s then release_pages (tmp + 4096) end_mem s
        else do {
          (_, s) \<leftarrow> mm_putFreePages tmp 0 (PageSetReferenced p (page_set_count p 1 s));
          release_pages (tmp + 4096) end_mem s }
      else Some s)"

definition init_mem :: "u64 \<Rightarrow> u64 \<Rightarrow> u64 \<Rightarrow> memory \<Rightarrow> memory option" where
  "init_mem start_mem end_mem virt_start_addr s = do {
     let end_mem = end_mem AND PAGE_MASK;
     let s = s\<lparr>g_max_mapnr := unat (MAP_NR end_mem s)\<rparr>;
     let start_mem = PAGE_ALIGN start_mem;
     let s = s\<lparr>g_stat_mem_size := end_mem - start_mem\<rparr>;
     s \<leftarrow> unreserve_pages start_mem end_mem s;
     s \<leftarrow> release_pages virt_start_addr (end_mem - 0x2000) s;
     Some (s\<lparr>stat_allocs := 0, stat_frees := 0, init_done := True\<rparr>) }"

section \<open>Rounding\<close>

lemma round_up_word:
  fixes x :: u64
  assumes "unat x + 2 ^ j \<le> 2 ^ 64"
  shows "unat ((x + NOT (push_bit j (- 1))) AND push_bit j (- 1)) = (unat x + (2 ^ j - 1)) div 2 ^ j * 2 ^ j"
proof -
  obtain n where n: "(2 :: nat) ^ j = Suc n" using not0_implies_Suc [of "2 ^ j"] by auto
  have "NOT (push_bit j (- 1)) = (mask j :: u64)" by (rule bit_eqI) (auto simp: bit_simps)
  also have "\<dots> = of_nat n"
    using arg_cong [OF n, of "of_nat :: nat \<Rightarrow> u64"] by (simp add: mask_eq_exp_minus_1)
  finally have not: "NOT (push_bit j (- 1)) = (of_nat n :: u64)" .
  have lt: "unat x + n < 2 ^ 64" using assms n by simp
  have "(x + NOT (push_bit j (- 1))) AND push_bit j (- 1) = of_nat (unat x + n) AND push_bit j (- 1)"
    unfolding not by simp
  also have "\<dots> = of_nat ((unat x + n) div 2 ^ j * 2 ^ j)"
    using lt by (rule and_mask_of_nat)
  finally have "unat ((x + NOT (push_bit j (- 1))) AND push_bit j (- 1)) = (unat x + n) div 2 ^ j * 2 ^ j"
    using unat_of_nat_u64 le_less_trans [OF div_times_less_eq_dividend lt] by metis
  then show ?thesis using n by simp
qed

lemma round_up_bounds:
  fixes x d :: nat
  assumes "0 < d"
  shows "x \<le> (x + (d - 1)) div d * d" "(x + (d - 1)) div d * d < x + d" "d dvd (x + (d - 1)) div d * d"
proof -
  have "(x + (d - 1)) div d * d + (x + (d - 1)) mod d = x + (d - 1)" by simp
  moreover have "(x + (d - 1)) mod d < d" using assms by simp
  ultimately show "x \<le> (x + (d - 1)) div d * d" "(x + (d - 1)) div d * d < x + d"
    using assms by linarith+
qed simp

lemma round_up_le_multiple:
  fixes x d m :: nat
  assumes "0 < d" "x \<le> m" "d dvd m"
  shows "(x + (d - 1)) div d * d \<le> m"
proof -
  obtain b where b: "m = b * d" using assms(3) by (metis dvd_div_mult_self)
  have "(x + (d - 1)) div d * d < Suc b * d"
    using round_up_bounds(2) [OF assms(1), of x] assms(2) b by simp
  then have "(x + (d - 1)) div d < Suc b" by (rule mult_less_cancel2 [THEN iffD1, THEN conjunct2])
  then have "(x + (d - 1)) div d \<le> b" by linarith
  then show ?thesis unfolding b by (rule mult_le_mono1)
qed

lemma LONG_ALIGN_push_bit: "LONG_ALIGN x = (x + NOT (push_bit 3 (- 1))) AND push_bit 3 (- 1)"
proof -
  have "push_bit 3 (- 1) = (- 8 :: u64)" by (simp add: push_bit_eq_mult)
  moreover have "NOT (- 8) = (7 :: u64)" "NOT (8 - 1) = (- 8 :: u64)" by simp_all
  ultimately show ?thesis unfolding LONG_ALIGN_def by (simp only: add_diff_eq [symmetric]) simp
qed

lemma PAGE_MASK_push_bit: "PAGE_MASK = push_bit 12 (- 1)"
  by (simp add: PAGE_MASK_def push_bit_eq_mult)

lemma PAGE_ALIGN_push_bit: "PAGE_ALIGN x = (x + NOT (push_bit 12 (- 1))) AND push_bit 12 (- 1)"
proof -
  have "push_bit 12 (- 1) = (- 4096 :: u64)" by (simp add: push_bit_eq_mult)
  moreover have "NOT (- 4096) = (4095 :: u64)" by simp
  ultimately show ?thesis
    unfolding PAGE_ALIGN_def PAGE_MASK_push_bit by (simp only: add_diff_eq [symmetric]) simp
qed

lemma LONG_ALIGN_ge:
  assumes "unat x \<le> 2 ^ 63"
  shows "unat x \<le> unat (LONG_ALIGN x)"
proof -
  have "unat (LONG_ALIGN x) = (unat x + (2 ^ 3 - 1)) div 2 ^ 3 * 2 ^ 3"
    unfolding LONG_ALIGN_push_bit using assms by (intro round_up_word) simp
  then show ?thesis using round_up_bounds(1) [of "2 ^ 3" "unat x"] by simp
qed

text \<open>Every bitmap has a bit for each pair of buddies of its order below the end of memory.\<close>

lemma bitmap_size_enough:
  assumes "unat end_mem = unat KADDRSPACE_START + e" "e \<le> 2 ^ 45" "2 ^ (13 + i) dvd e" "i < NR_MEM_LISTS"
    and "p * PAGE_SIZE < e"
  shows "p div 2 ^ Suc i
    < 8 * unat (LONG_ALIGN (drop_bit 3 (drop_bit (PAGE_SHIFT + i) (end_mem - KADDRSPACE_START) + 7)))"
proof -
  have diff: "end_mem - KADDRSPACE_START = of_nat e"
    unfolding word_unat_eq_iff using assms(1,2) by (subst unat_sub) (simp_all add: word_le_nat_alt)
  obtain c where c: "e = 2 ^ (13 + i) * c" using assms(3) by (auto elim: dvdE)
  define m where "m = e div 2 ^ (12 + i)"
  have m: "m = 2 * c" unfolding m_def c by (simp add: power_add)
  have mb: "m \<le> 2 ^ 45" unfolding m_def using assms(2) div_le_dividend le_trans by blast
  have "drop_bit (PAGE_SHIFT + i) (of_nat e :: u64) = of_nat m"
    unfolding m_def using assms(2) by (intro drop_bit_of_nat_u64) simp
  moreover have "of_nat m + 7 = (of_nat (m + 7) :: u64)" by simp
  moreover have "drop_bit 3 (of_nat (m + 7) :: u64) = of_nat ((m + 7) div 2 ^ 3)"
    using mb by (intro drop_bit_of_nat_u64) simp
  ultimately have w: "drop_bit 3 (drop_bit (PAGE_SHIFT + i) (end_mem - KADDRSPACE_START) + 7)
      = of_nat ((m + 7) div 8)" using diff by simp
  have u: "unat (of_nat ((m + 7) div 8) :: u64) = (m + 7) div 8"
    using mb by (intro unat_of_nat_u64) simp
  have "p < c * 2 ^ Suc i" using assms(5) unfolding c by (simp add: power_add ac_simps)
  then have "p div 2 ^ Suc i < c" by (simp add: div_less_iff_less_mult)
  moreover have "m \<le> 8 * ((m + 7) div 8)" by simp
  moreover have "(m + 7) div 8 \<le> unat (LONG_ALIGN (of_nat ((m + 7) div 8)))"
    using LONG_ALIGN_ge [of "of_nat ((m + 7) div 8)"] mb unfolding u by simp
  ultimately show ?thesis unfolding w m by linarith
qed

section \<open>Empty free areas\<close>

definition areas_empty :: "nat \<Rightarrow> nat \<Rightarrow> memory \<Rightarrow> bool" where
  "areas_empty N i s \<longleftrightarrow>
     (\<forall>k < i. free_area s k = [] \<and> stat_count s k = 0 \<and> (\<forall>x. \<not> area_map s k x)
        \<and> (\<forall>p < N. p div 2 ^ Suc k < map_bits s k))"

lemma areas_empty_ok: "areas_empty (g_max_mapnr s) NR_MEM_LISTS s \<Longrightarrow> areas_ok s \<and> free_pages s = {}"
proof -
  assume e: "areas_empty (g_max_mapnr s) NR_MEM_LISTS s"
  then have "free_blocks (free_area s) = {}" by (auto simp: areas_empty_def free_blocks_def)
  then have "area_inv (g_max_mapnr s) (free_area s) (area_map s)" "free_pages s = {}"
    using e by (auto simp: area_inv_def areas_empty_def buddy_bit_def free_pages_def free_set_def)
  then show ?thesis using e by (simp add: areas_ok_def areas_empty_def del: power_Suc)
qed

lemma init_areas_round:
  fixes end_mem msk :: u64
  assumes "unat end_mem = unat KADDRSPACE_START + e" "e \<le> 2 ^ 45" "i < NR_MEM_LISTS"
    and "msk = push_bit (13 + i) (- 1)"
  shows "\<exists>e'. unat ((end_mem + NOT msk) AND msk) = unat KADDRSPACE_START + e' \<and> e \<le> e' \<and> e' \<le> 2 ^ 45
    \<and> 2 ^ (13 + i) dvd e'"
proof -
  let ?d = "2 ^ (13 + i) :: nat" and ?K = "unat KADDRSPACE_START"
  let ?r = "unat ((end_mem + NOT msk) AND msk)"
  have d: "?d dvd 2 ^ 24" using assms(3) by (intro le_imp_power_dvd) (auto simp: NR_MEM_LISTS_def)
  have K: "?K = 0xffffc90 * 2 ^ 36" by (simp add: KADDRSPACE_START_def)
  have dK: "?d dvd ?K" "?d dvd ?K + 2 ^ 45"
  proof -
    have "(2 :: nat) ^ 24 dvd ?K" "(2 :: nat) ^ 24 dvd ?K + 2 ^ 45"
      unfolding K by (simp_all add: dvd_eq_mod_eq_0)
    then show "?d dvd ?K" "?d dvd ?K + 2 ^ 45" using d dvd_trans by blast+
  qed
  have le: "?d \<le> 2 ^ 24" using d by (rule dvd_imp_le) simp
  have r: "?r = (unat end_mem + (?d - 1)) div ?d * ?d"
    unfolding assms(4) using assms(1,2) le K by (intro round_up_word) simp
  have "unat end_mem \<le> ?r" "?d dvd ?r"
    unfolding r using round_up_bounds [of ?d "unat end_mem"] by simp_all
  moreover have "?r \<le> ?K + 2 ^ 45"
    unfolding r using assms(1,2) dK(2) by (intro round_up_le_multiple) simp_all
  ultimately show ?thesis
    using assms(1) dK(1) by (intro exI [of _ "?r - ?K"]) (auto intro: dvd_diff_nat)
qed

lemma init_areas_empty:
  assumes "i \<le> NR_MEM_LISTS" "areas_empty N i s" "msk = push_bit (12 + i) (- 1)"
    and "unat end_mem = unat KADDRSPACE_START + e" "e \<le> 2 ^ 45" "N * PAGE_SIZE \<le> e"
  shows "areas_empty N NR_MEM_LISTS (snd (init_areas i msk start_mem end_mem s))
     \<and> only_areas s ((snd (init_areas i msk start_mem end_mem s))\<lparr>map_bits := map_bits s\<rparr>)"
  using assms
proof (induction i msk start_mem end_mem s arbitrary: e rule: init_areas.induct)
  case (1 i msk start_mem end_mem s)
  show ?case
  proof (cases "i < NR_MEM_LISTS")
    case False
    then show ?thesis using 1(2,3) by (subst (1 2) init_areas.simps) (simp add: only_areas_def)
  next
    case True
    define msk' where "msk' = msk + msk"
    define end' where "end' = (end_mem + NOT msk') AND msk'"
    define bs where "bs = LONG_ALIGN (drop_bit 3 (drop_bit (PAGE_SHIFT + i) (end' - KADDRSPACE_START) + 7))"
    let ?s = "(init_mem_queue i s)\<lparr>map_bits := (map_bits (init_mem_queue i s))(i := 8 * unat bs),
      area_map := (area_map (init_mem_queue i s))(i := (\<lambda>_. False))\<rparr>"
    have m: "msk' = push_bit (13 + i) (- 1)" using 1(4) by (simp add: msk'_def push_bit_eq_mult power_add)
    obtain e' where e': "unat end' = unat KADDRSPACE_START + e'" "e \<le> e'" "e' \<le> 2 ^ 45" "2 ^ (13 + i) dvd e'"
      using init_areas_round [OF 1(5,6) True m] unfolding end'_def by blast
    have "p div 2 ^ Suc i < 8 * unat bs" if "p < N" for p
      unfolding bs_def using that 1(7) e'(2) by (intro bitmap_size_enough [OF e'(1,3,4) True]) simp
    then have E: "areas_empty N (i + 1) ?s"
      using 1(3) by (auto simp: areas_empty_def init_mem_queue_def less_Suc_eq simp del: power_Suc)
    have "areas_empty N NR_MEM_LISTS (snd (init_areas (i + 1) msk' (start_mem + bs) end' ?s))
      \<and> only_areas ?s ((snd (init_areas (i + 1) msk' (start_mem + bs) end' ?s))\<lparr>map_bits := map_bits ?s\<rparr>)"
    proof (rule 1(1) [OF True refl refl refl refl refl refl refl, folded msk'_def, folded end'_def, folded bs_def])
      show "i + 1 \<le> NR_MEM_LISTS" using True by simp
      show "msk' = push_bit (12 + (i + 1)) (- 1)" using m by simp
      show "N * PAGE_SIZE \<le> e'" using 1(7) e'(2) by simp
    qed (fact E e'(1) e'(3))+
    moreover have "init_areas i msk start_mem end_mem s = init_areas (i + 1) msk' (start_mem + bs) end' ?s"
      using True by (subst init_areas.simps) (simp add: Let_def bs_def end'_def msk'_def)
    ultimately show ?thesis by (simp add: only_areas_def init_mem_queue_def)
  qed
qed

section \<open>The two boot loops\<close>

lemma ADDRESS_next: "ADDRESS (of_nat a) + 4096 = ADDRESS (of_nat (a + 1))"
  by (simp add: ADDRESS_def push_bit_eq_mult algebra_simps)

lemma ADDRESS_unat:
  assumes "a * PAGE_SIZE \<le> 2 ^ 45"
  shows "unat (ADDRESS (of_nat a)) = unat KADDRSPACE_START + a * PAGE_SIZE"
proof -
  have K: "unat KADDRSPACE_START = 0xffffc90000000000" by (simp add: KADDRSPACE_START_def)
  have "push_bit 12 (of_nat a :: u64) = of_nat (a * 4096)" by (simp add: push_bit_eq_mult)
  moreover have "unat (of_nat (a * 4096) :: u64) = a * 4096" using assms by (intro unat_of_nat_u64) simp
  ultimately show ?thesis unfolding ADDRESS_def unat_word_ariths K using assms by simp
qed

lemma ADDRESS_less:
  "a * PAGE_SIZE \<le> 2 ^ 45 \<Longrightarrow> b * PAGE_SIZE \<le> 2 ^ 45 \<Longrightarrow> ADDRESS (of_nat a) < ADDRESS (of_nat b) \<longleftrightarrow> a < b"
  unfolding word_less_nat_alt by (simp add: ADDRESS_unat)

definition unreserved :: "nat set \<Rightarrow> memory \<Rightarrow> memory" where
  "unreserved A s = s\<lparr>g_mem_map := (\<lambda>q. if q \<in> A
     then (g_mem_map s q)\<lparr>pflags := unset_bit PG_reserved (pflags (g_mem_map s q))\<rparr> else g_mem_map s q)\<rparr>"

lemma layout_page:
  assumes "layout_ok s" "a < g_max_mapnr s"
  shows "unat (MAP_NR (ADDRESS (of_nat a)) s) = a"
proof -
  have "unat (of_nat a :: u64) = a" using assms by (intro unat_of_nat_u64) (simp add: layout_ok_def)
  then show ?thesis using ADDRESS_props(1) [OF assms] by simp
qed

lemma layout_bound: "layout_ok s \<Longrightarrow> a \<le> g_max_mapnr s \<Longrightarrow> a * PAGE_SIZE \<le> 2 ^ 45"
  unfolding layout_ok_def using mult_le_mono1 [of a "g_max_mapnr s" PAGE_SIZE] by linarith

lemma unreserve_pages_ok:
  assumes "layout_ok s" "b \<le> g_max_mapnr s" "a + n = b"
  shows "unreserve_pages (ADDRESS (of_nat a)) (ADDRESS (of_nat b)) s = Some (unreserved {a ..< b} s)"
  using assms
proof (induction n arbitrary: a s)
  case 0
  then show ?case by (subst unreserve_pages.simps) (simp add: unreserved_def)
next
  case (Suc n)
  let ?s = "PageClearReserved a s"
  have a: "a < b" "a < g_max_mapnr s" using Suc.prems by simp_all
  have "unreserve_pages (ADDRESS (of_nat (a + 1))) (ADDRESS (of_nat b)) ?s = Some (unreserved {a + 1 ..< b} ?s)"
    using Suc.prems by (intro Suc.IH) (simp_all add: layout_ok_def PageClearReserved_def update_page_def)
  moreover have "unreserved {a + 1 ..< b} ?s = unreserved {a ..< b} s"
    using a by (auto simp: unreserved_def PageClearReserved_def update_page_def fun_eq_iff)
  moreover have "ADDRESS (of_nat a) < ADDRESS (of_nat b)"
    using a Suc.prems layout_bound [OF Suc.prems(1)] by (subst ADDRESS_less) auto
  ultimately show ?case
    using layout_page [OF Suc.prems(1) a(2)] a ADDRESS_next [of a]
    by (subst unreserve_pages.simps) simp
qed

lemma prepare_release:
  assumes B: "buddy_inv s" and a: "a \<notin> free_pages s" "a < g_max_mapnr s" and c: "page_clean a s"
  defines "s' \<equiv> PageSetReferenced a (page_set_count a 1 s)"
  shows "buddy_inv s'" "held_block 0 a s'" "free_pages s' = free_pages s" "others_kept {a} s s'"
proof -
  have m: "g_mem_map s' q = g_mem_map s q" if "q \<noteq> a" for q
    using that by (simp add: s'_def PageSetReferenced_def page_set_count_def update_page_def)
  show f: "free_pages s' = free_pages s"
    by (simp add: s'_def free_pages_def PageSetReferenced_def page_set_count_def update_page_def)
  have "areas_ok s'" "layout_ok s'" "g_nr_free_pages s' = g_nr_free_pages s"
    using B by (simp_all add: s'_def buddy_inv_def areas_ok_def layout_ok_def PageSetReferenced_def
        page_set_count_def update_page_def)
  moreover have "page_clean q s' \<and> \<not> PageReferenced q s'" if "q \<in> free_pages s" for q
  proof -
    have "q \<noteq> a" using that a(1) by blast
    then show ?thesis using B that m [of q] by (simp add: buddy_inv_def page_clean_def page_flag_def)
  qed
  ultimately show "buddy_inv s'" using B by (simp add: buddy_inv_def f)
  have "g_mem_map s' a = (g_mem_map s a)\<lparr>pcount := 1,
      pflags := Bit_Operations.set_bit PG_referenced (pflags (g_mem_map s a))\<rparr>" "g_max_mapnr s' = g_max_mapnr s"
    by (simp_all add: s'_def PageSetReferenced_def page_set_count_def update_page_def)
  then show "held_block 0 a s'"
    using a c by (simp add: held_block_def NR_MEM_LISTS_def page_clean_def page_flag_def bit_simps)
  show "others_kept {a} s s'"
    using m by (simp add: others_kept_def s'_def PageSetReferenced_def page_set_count_def update_page_def)
qed

definition bootable :: "nat \<Rightarrow> memory \<Rightarrow> bool" where
  "bootable a s \<longleftrightarrow> (\<forall>q. a \<le> q \<and> q < g_max_mapnr s \<longrightarrow>
     q \<notin> free_pages s \<and> (PageReserved q s \<or> page_clean q s))"

lemma release_pages_ok:
  assumes "buddy_inv s" "bootable a s" "b \<le> g_max_mapnr s" "a + n = b"
  shows "\<exists>s'. release_pages (ADDRESS (of_nat a)) (ADDRESS (of_nat b)) s = Some s' \<and> buddy_inv s'
    \<and> free_pages s' = free_pages s \<union> {q \<in> {a ..< b}. \<not> PageReserved q s}"
  using assms
proof (induction n arbitrary: a s)
  case 0
  then show ?case by (subst release_pages.simps) simp
next
  case (Suc n)
  have L: "layout_ok s" using Suc.prems(1) by (simp add: buddy_inv_def)
  have a: "a < b" "a < g_max_mapnr s" using Suc.prems by simp_all
  have lt: "ADDRESS (of_nat a) < ADDRESS (of_nat b)"
    using a Suc.prems layout_bound [OF L] by (subst ADDRESS_less) auto
  have nr: "unat (MAP_NR (ADDRESS (of_nat a)) s) = a" by (rule layout_page [OF L a(2)])
  have split: "{q \<in> {a ..< b}. P q} = {q \<in> {a + 1 ..< b}. P q} \<union> (if P a then {a} else {})" for P
    using a by (auto simp: le_less)
  show ?case
  proof (cases "PageReserved a s")
    case True
    have "\<exists>s'. release_pages (ADDRESS (of_nat (a + 1))) (ADDRESS (of_nat b)) s = Some s' \<and> buddy_inv s'
      \<and> free_pages s' = free_pages s \<union> {q \<in> {a + 1 ..< b}. \<not> PageReserved q s}"
      using Suc.prems by (intro Suc.IH) (auto simp: bootable_def)
    then show ?thesis
      unfolding split [of "\<lambda>q. \<not> PageReserved q s"]
      using True lt nr ADDRESS_next [of a] by (subst release_pages.simps) simp
  next
    case False
    have c: "a \<notin> free_pages s" "page_clean a s" using Suc.prems(2) a False by (auto simp: bootable_def)
    note prep = prepare_release [OF Suc.prems(1) c(1) a(2) c(2)]
    let ?s = "PageSetReferenced a (page_set_count a 1 s)"
    obtain s1 where s1: "mm_putFreePages (ADDRESS (of_nat a)) 0 ?s = Some (1, s1)" "buddy_inv s1"
      "free_pages s1 = block 0 a \<union> free_pages ?s" "others_kept (block 0 a) ?s s1"
      using mm_putFreePages_held [OF prep(1,2)] by blast
    have f1: "free_pages s1 = insert a (free_pages s)" using s1(3) prep(3) by simp
    have m1: "g_mem_map s1 q = g_mem_map s q" if "q \<noteq> a" for q
      using s1(4) prep(4) that by (simp add: others_kept_def)
    have N1: "g_max_mapnr s1 = g_max_mapnr s" using s1(4) prep(4) by (simp add: others_kept_def)
    have fl: "PageReserved q s1 = PageReserved q s" "page_clean q s1 = page_clean q s" if "q \<noteq> a" for q
      using m1 [OF that] by (simp_all add: page_flag_def page_clean_def)
    have "bootable (a + 1) s1"
      using Suc.prems(2) fl by (auto simp: bootable_def N1 f1)
    then have "\<exists>s'. release_pages (ADDRESS (of_nat (a + 1))) (ADDRESS (of_nat b)) s1 = Some s' \<and> buddy_inv s'
      \<and> free_pages s' = free_pages s1 \<union> {q \<in> {a + 1 ..< b}. \<not> PageReserved q s1}"
      using Suc.prems N1 by (intro Suc.IH [OF s1(2)]) auto
    moreover have "{q \<in> {a + 1 ..< b}. \<not> PageReserved q s1} = {q \<in> {a + 1 ..< b}. \<not> PageReserved q s}"
      using fl(1) by auto
    moreover have "release_pages (ADDRESS (of_nat a)) (ADDRESS (of_nat b)) s
        = release_pages (ADDRESS (of_nat (a + 1))) (ADDRESS (of_nat b)) s1"
      using False lt nr s1(1) ADDRESS_next [of a] by (subst release_pages.simps) (simp add: Let_def)
    ultimately show ?thesis
      unfolding split [of "\<lambda>q. \<not> PageReserved q s"] using False f1 by auto
  qed
qed

section \<open>Boot\<close>

lemma initial_page_flags:
  "bit (pflags initial_page) PG_DMA" "bit (pflags initial_page) PG_reserved"
  "\<not> bit (pflags initial_page) PG_referenced" "\<not> bit (pflags initial_page) PG_swap_cache"
  "\<not> bit (pflags initial_page) PG_netbuf" "option_data initial_page = 0"
  by (simp_all add: initial_page_def bit_simps)

lemma round_down_shift:
  fixes k d e :: nat
  shows "0 < d \<Longrightarrow> (k * d + e) div d * d = k * d + e div d * d"
  by (simp add: algebra_simps)

lemma boot_addresses:
  fixes end_mem :: u64
  assumes "g_kernelspace_starting_address s = KADDRSPACE_START"
    and e: "unat end_mem = unat KADDRSPACE_START + e" "e \<le> 2 ^ 45"
  shows "unat (MAP_NR end_mem s) = e div PAGE_SIZE"
    and "end_mem AND PAGE_MASK = ADDRESS (of_nat (e div PAGE_SIZE))"
    and "unat (PAGE_ALIGN end_mem) = unat KADDRSPACE_START + (e + 4095) div PAGE_SIZE * PAGE_SIZE"
proof -
  have K: "unat KADDRSPACE_START = 0xffffc90000000 * 4096" by (simp add: KADDRSPACE_START_def)
  have w: "end_mem = of_nat (unat KADDRSPACE_START + e)"
    unfolding word_unat_eq_iff e(1) using e(2) K by (intro unat_of_nat_u64 [symmetric]) simp
  have "\<not> end_mem > KERNEL_CODE_START"
    unfolding word_less_nat_alt e(1) using e(2) K by (simp add: KERNEL_CODE_START_def)
  moreover have "g_kernelspace_starting_address s \<noteq> 1" using assms(1) by (simp add: KADDRSPACE_START_def)
  ultimately have "pa end_mem s = of_nat e"
    using assms(1) unfolding pa_def w by simp
  then have "MAP_NR end_mem s = of_nat (e div 2 ^ 12)"
    unfolding MAP_NR_def using e(2) by (simp add: drop_bit_of_nat_u64 del: of_nat_div)
  moreover have "e div 2 ^ 12 < 2 ^ 64" using e(2) by simp
  ultimately show "unat (MAP_NR end_mem s) = e div PAGE_SIZE" by simp
  have "(unat KADDRSPACE_START + e) div 2 ^ 12 * 2 ^ 12 = unat KADDRSPACE_START + e div 4096 * 4096"
    using round_down_shift [of 4096 "0xffffc90000000" e] K by simp
  then have "end_mem AND PAGE_MASK = of_nat (unat KADDRSPACE_START + e div 4096 * 4096)"
    unfolding PAGE_MASK_push_bit w using e(2) K by (subst and_mask_of_nat) simp_all
  then show "end_mem AND PAGE_MASK = ADDRESS (of_nat (e div PAGE_SIZE))"
    by (simp add: ADDRESS_def push_bit_eq_mult)
  have "unat (PAGE_ALIGN end_mem) = (unat end_mem + (2 ^ 12 - 1)) div 2 ^ 12 * 2 ^ 12"
    unfolding PAGE_ALIGN_push_bit using e K by (intro round_up_word) simp
  then show "unat (PAGE_ALIGN end_mem) = unat KADDRSPACE_START + (e + 4095) div PAGE_SIZE * PAGE_SIZE"
    using round_down_shift [of 4096 "0xffffc90000000" "e + 4095"] e(1) K by simp
qed

lemma init_free_area_ok:
  assumes K: "g_kernelspace_starting_address s = KADDRSPACE_START"
    and e: "unat end_mem = unat KADDRSPACE_START + e" "e \<le> 2 ^ 45" "PAGE_SIZE \<le> e"
  shows "\<exists>m s'. init_free_area start_mem end_mem s = Some (m, s')
    \<and> areas_empty (e div PAGE_SIZE) NR_MEM_LISTS s'
    \<and> (\<forall>q < e div PAGE_SIZE. g_mem_map s' q = initial_page)
    \<and> g_nr_free_pages s' = g_nr_free_pages s \<and> g_phy_mem_size s' = g_phy_mem_size s
    \<and> g_kernelspace_starting_address s' = KADDRSPACE_START"
proof -
  note nr = boot_addresses(1) [OF K e(1,2)]
  let ?s = "s\<lparr>g_mem_map := (\<lambda>n. if n < unat (MAP_NR end_mem s) then initial_page else g_mem_map s n)\<rparr>"
  define start' where "start' = LONG_ALIGN (LONG_ALIGN (start_mem + 8) + MAP_NR end_mem s * sizeof_page)"
  have "0 < e div PAGE_SIZE" using e(3) by (simp add: div_greater_zero_iff)
  then have "MAP_NR end_mem s > 0" using nr by (simp add: word_less_nat_alt)
  then have run: "init_free_area start_mem end_mem s = Some (init_areas 0 PAGE_MASK start' end_mem ?s)"
    by (simp add: init_free_area_def Let_def start'_def)
  let ?r = "snd (init_areas 0 PAGE_MASK start' end_mem ?s)"
  have "areas_empty (e div PAGE_SIZE) NR_MEM_LISTS ?r \<and> only_areas ?s (?r\<lparr>map_bits := map_bits ?s\<rparr>)"
    using e div_times_less_eq_dividend [of e PAGE_SIZE]
    by (intro init_areas_empty [OF _ _ _ e(1,2)]) (simp_all add: areas_empty_def PAGE_MASK_push_bit)
  then show ?thesis
    using run K nr by (intro exI [of _ "fst (init_areas 0 PAGE_MASK start' end_mem ?s)"] exI [of _ ?r])
      (simp add: only_areas_def)
qed

lemma init_mem_ok:
  assumes L: "g_kernelspace_starting_address s = KADDRSPACE_START" "unat (g_phy_mem_size s) \<le> 2 ^ 45"
    and e: "unat end_mem = unat KADDRSPACE_START + e" "e \<le> unat (g_phy_mem_size s)"
    and E: "areas_empty (e div PAGE_SIZE) NR_MEM_LISTS s" "\<forall>q < e div PAGE_SIZE. g_mem_map s q = initial_page"
      "g_nr_free_pages s = 0"
    and b: "unat start_mem = unat KADDRSPACE_START + b" "b + PAGE_SIZE \<le> e"
    and a: "virt_start = ADDRESS (of_nat a)" "a + 2 \<le> e div PAGE_SIZE"
  shows "\<exists>s'. init_mem start_mem end_mem virt_start s = Some s' \<and> buddy_inv s'
    \<and> free_pages s' = {max a ((b + 4095) div PAGE_SIZE) ..< e div PAGE_SIZE - 2}"
proof -
  let ?E = "e div PAGE_SIZE" and ?B = "(b + 4095) div PAGE_SIZE"
  have e45: "e \<le> 2 ^ 45" using e(2) L(2) by linarith
  have b45: "b \<le> 2 ^ 45" using b(2) e45 by linarith
  have BE: "?B \<le> ?E" using b(2) by (intro div_le_mono) simp
  have EP: "?E * PAGE_SIZE \<le> e" by (rule div_times_less_eq_dividend)
  note addr = boot_addresses [OF L(1) e(1) e45] and sadr = boot_addresses(3) [OF L(1) b(1) b45]
  have BP: "?B * PAGE_SIZE \<le> 2 ^ 45" using mult_le_mono1 [OF BE, of PAGE_SIZE] EP e45 by linarith
  have start: "PAGE_ALIGN start_mem = ADDRESS (of_nat ?B)"
    unfolding word_unat_eq_iff sadr ADDRESS_unat [OF BP] by (rule refl)
  let ?s1 = "s\<lparr>g_max_mapnr := ?E, g_stat_mem_size := ADDRESS (of_nat ?E) - ADDRESS (of_nat ?B)\<rparr>"
  have EU: "unat (MAP_NR (ADDRESS (of_nat ?E)) s) = ?E"
    using boot_addresses(1) [OF L(1) ADDRESS_unat, of ?E] EP e45 by (simp del: of_nat_div)
  have L1: "layout_ok ?s1" using L EP e(2) by (simp add: layout_ok_def)
  let ?s2 = "unreserved {?B ..< ?E} ?s1"
  have un: "unreserve_pages (ADDRESS (of_nat ?B)) (ADDRESS (of_nat ?E)) ?s1 = Some ?s2"
    using BE L1 by (intro unreserve_pages_ok [of _ _ _ "?E - ?B"]) simp_all
  have "areas_empty (g_max_mapnr ?s2) NR_MEM_LISTS ?s2"
    using E(1) by (simp add: areas_empty_def unreserved_def)
  note A2 = areas_empty_ok [OF this]
  have res: "PageReserved q ?s2 \<longleftrightarrow> q < ?B" "q \<in> {?B ..< ?E} \<Longrightarrow> page_clean q ?s2" if "q < ?E" for q
    using E(2) that initial_page_flags
    by (auto simp: page_flag_def page_clean_def unreserved_def bit_simps)
  have "layout_ok ?s2" using L1 by (simp add: layout_ok_def unreserved_def)
  then have B2: "buddy_inv ?s2" using A2 E(3) by (simp add: buddy_inv_def unreserved_def)
  have g2: "g_max_mapnr ?s2 = ?E" by (simp add: unreserved_def)
  have "PageReserved q ?s2 \<or> page_clean q ?s2" if "q < ?E" for q
    using res [OF that] that by (cases "q < ?B") auto
  then have boot: "bootable a ?s2" unfolding bootable_def g2 using A2 by blast
  have N: "?E - 2 \<le> g_max_mapnr ?s2" unfolding g2 by simp
  obtain s3 where s3: "release_pages (ADDRESS (of_nat a)) (ADDRESS (of_nat (?E - 2))) ?s2 = Some s3"
    "buddy_inv s3" "free_pages s3 = free_pages ?s2 \<union> {q \<in> {a ..< ?E - 2}. \<not> PageReserved q ?s2}"
    using release_pages_ok [OF B2 boot N, of "?E - 2 - a"] a(2) by auto
  have lim: "ADDRESS (of_nat ?E) - 0x2000 = ADDRESS (of_nat (?E - 2))"
    using a(2) by (simp add: ADDRESS_def push_bit_eq_mult of_nat_diff algebra_simps)
  have "init_mem start_mem end_mem virt_start s = Some (s3\<lparr>stat_allocs := 0, stat_frees := 0, init_done := True\<rparr>)"
    unfolding init_mem_def Let_def addr(2) start a(1) lim using EU un s3(1) by (simp del: of_nat_div)
  moreover have "{q \<in> {a ..< ?E - 2}. \<not> PageReserved q ?s2} = {max a ?B ..< ?E - 2}"
    using res(1) by auto
  moreover have "buddy_inv (s3\<lparr>stat_allocs := 0, stat_frees := 0, init_done := True\<rparr>)"
    using s3(2) by (simp add: buddy_inv_def areas_ok_def layout_ok_def free_pages_def page_clean_def page_flag_def)
  moreover have "free_pages (s3\<lparr>stat_allocs := 0, stat_frees := 0, init_done := True\<rparr>) = free_pages s3"
    by (simp add: free_pages_def)
  ultimately show ?thesis using s3(3) A2 by auto
qed

end
