(* ===== verification/Page_Alloc.thy ===== *)
theory Page_Alloc
  imports Page_Init
begin

text \<open>
  What the rest of the kernel may rely on when it asks mm/memory.c for pages: the interface
  \<open>page_source\<close>, its implementation by the buddy allocator, and the properties of
  \<open>mm_getFreePages\<close>, \<open>mm_putFreePages\<close> and the boot code.
\<close>

section \<open>Interface\<close>

locale page_source =
  fixes inv :: "'s \<Rightarrow> bool"
    and free :: "'s \<Rightarrow> nat set"
    and held :: "nat \<Rightarrow> nat \<Rightarrow> 's \<Rightarrow> bool"
    and get :: "nat \<Rightarrow> 's \<Rightarrow> (nat option \<times> 's) option"
    and put :: "nat \<Rightarrow> nat \<Rightarrow> 's \<Rightarrow> 's option"
  assumes get_returns: "inv s \<Longrightarrow> \<exists>r s'. get k s = Some (r, s') \<and> inv s'"
    and get_some: "inv s \<Longrightarrow> get k s = Some (Some q, s') \<Longrightarrow>
      held k q s' \<and> block k q \<subseteq> free s \<and> free s' = free s - block k q"
    and get_none: "inv s \<Longrightarrow> get k s = Some (None, s') \<Longrightarrow> free s' = free s"
    and get_keeps_held: "inv s \<Longrightarrow> get k s = Some (r, s') \<Longrightarrow> held j p s \<Longrightarrow> held j p s'"
    and put_ok: "inv s \<Longrightarrow> held k p s \<Longrightarrow> \<exists>s'. put k p s = Some s' \<and> inv s' \<and> free s' = free s \<union> block k p"
    and put_keeps_held: "inv s \<Longrightarrow> held k p s \<Longrightarrow> put k p s = Some s' \<Longrightarrow> held j q s \<Longrightarrow> block j q \<inter> block k p = {} \<Longrightarrow> held j q s'"
    and held_not_free: "inv s \<Longrightarrow> held k p s \<Longrightarrow> block k p \<inter> free s = {}"
begin

lemma get_put_restores:
  assumes "inv s" "get k s = Some (Some q, s1)"
  shows "\<exists>s2. put k q s1 = Some s2 \<and> inv s2 \<and> free s2 = free s"
proof -
  have g: "held k q s1" "block k q \<subseteq> free s" "free s1 = free s - block k q"
    using get_some [OF assms] by auto
  have "inv s1" using get_returns [OF assms(1), of k] assms(2) by simp
  then show ?thesis using put_ok [OF _ g(1)] g(2,3) by (auto simp: Un_absorb2)
qed

text \<open>A sequence of requests that all succeed: the blocks handed out never overlap.\<close>

primrec get_all :: "nat list \<Rightarrow> 's \<Rightarrow> (nat list \<times> 's) option" where
  "get_all [] s = Some ([], s)"
| "get_all (k # ks) s = (case get k s of
     Some (Some q, s1) \<Rightarrow> map_option (\<lambda>(qs, s'). (q # qs, s')) (get_all ks s1)
   | _ \<Rightarrow> None)"

lemma get_all_disjoint:
  assumes "inv s" "get_all ks s = Some (qs, s')"
  shows "inv s' \<and> length qs = length ks
    \<and> (\<forall>i < length ks. held (ks ! i) (qs ! i) s' \<and> block (ks ! i) (qs ! i) \<subseteq> free s)
    \<and> (\<forall>i < length ks. \<forall>j < length ks. i \<noteq> j \<longrightarrow> block (ks ! i) (qs ! i) \<inter> block (ks ! j) (qs ! j) = {})
    \<and> (\<forall>j p. held j p s \<longrightarrow> held j p s')"
  using assms
proof (induction ks arbitrary: s qs)
  case Nil
  then show ?case by simp
next
  case (Cons k ks)
  then obtain q s1 qs1 where g: "get k s = Some (Some q, s1)" "get_all ks s1 = Some (qs1, s')" "qs = q # qs1"
    by (auto split: option.splits prod.splits)
  have i1: "inv s1" using get_returns [OF Cons.prems(1), of k] g(1) by simp
  note g1 = get_some [OF Cons.prems(1) g(1)] and IH = Cons.IH [OF i1 g(2)]
  have "block k q \<inter> block (ks ! i) (qs1 ! i) = {}" if "i < length ks" for i
    using IH g1 that by blast
  then show ?case
    using IH g1 get_keeps_held [OF Cons.prems(1) g(1)] g(3)
    by (auto simp: nth_Cons All_less_Suc2 split: nat.splits)
qed

end

section \<open>The buddy allocator as a page source\<close>

definition alloc_block :: "u32 \<Rightarrow> nat \<Rightarrow> memory \<Rightarrow> (nat option \<times> memory) option" where
  "alloc_block g k s = (case mm_getFreePages g k s of
     None \<Rightarrow> None
   | Some (a, s') \<Rightarrow> Some (if a = 0 then None else Some (unat (MAP_NR a s')), s'))"

definition free_block :: "nat \<Rightarrow> nat \<Rightarrow> memory \<Rightarrow> memory option" where
  "free_block k p s = map_option snd (mm_putFreePages (ADDRESS (of_nat p)) k s)"

lemma buddy_inv_layout: "buddy_inv s \<Longrightarrow> layout_ok s"
  by (simp add: buddy_inv_def)

lemma getFreePages_cases:
  assumes "buddy_inv s"
  obtains (block) q s' where "mm_getFreePages g k s = Some (ADDRESS (of_nat q), s')" "buddy_inv s'"
      "held_block k q s'" "block k q \<subseteq> free_pages s" "free_pages s' = free_pages s - block k q"
      "others_kept (block k q) s s'" "ADDRESS (of_nat q) \<noteq> 0" "unat (MAP_NR (ADDRESS (of_nat q)) s') = q"
      "g AND MEM_CLEAR \<noteq> 0 \<longrightarrow> (\<forall>a \<in> block k q. \<forall>i < PAGE_SIZE. contents s' a i = 0)" "k < NR_MEM_LISTS"
    | (fail) "mm_getFreePages g k s = Some (0, s\<lparr>stat_allocs := stat_allocs s + 1\<rparr>)"
      "k < NR_MEM_LISTS \<longrightarrow> (\<forall>q. aligned k q \<longrightarrow> \<not> block k q \<subseteq> free_pages s)"
proof (cases "k < NR_MEM_LISTS")
  case False
  then show ?thesis using fail by (simp add: mm_getFreePages_def)
next
  case True
  show ?thesis
  proof (cases "find_free k (s\<lparr>stat_allocs := stat_allocs s + 1\<rparr>)")
    case None
    show ?thesis using mm_getFreePages_none [OF assms True None] by (intro fail) auto
  next
    case (Some jp)
    obtain j p where "jp = (j, p)" by force
    then obtain q s' where q: "mm_getFreePages g k s = Some (ADDRESS (of_nat q), s')" "buddy_inv s'"
      "held_block k q s'" "block k q \<subseteq> free_pages s" "free_pages s' = free_pages s - block k q"
      "others_kept (block k q) s s'"
      "g AND MEM_CLEAR \<noteq> 0 \<longrightarrow> (\<forall>a \<in> block k q. \<forall>i < PAGE_SIZE. contents s' a i = 0)"
      using mm_getFreePages_found [OF assms True, of j p g] Some by blast
    note L = buddy_inv_layout [OF q(2)] and N = held_start [OF q(3)]
    have "ADDRESS (of_nat q) \<noteq> 0" using ADDRESS_props(2) [OF L N] by auto
    then show ?thesis using block q layout_page [OF L N] True by blast
  qed
qed

lemma held_block_kept:
  assumes "others_kept A s s'" "held_block j p s" "block j p \<inter> A = {}"
  shows "held_block j p s'"
proof -
  have "g_mem_map s' q = g_mem_map s q" if "q \<in> block j p" for q
    using assms(1,3) that by (auto simp: others_kept_def)
  moreover have "g_max_mapnr s' = g_max_mapnr s" using assms(1) by (simp add: others_kept_def)
  ultimately show ?thesis
    using assms(2) by (simp add: held_block_def page_clean_def page_flag_def)
qed

lemma stat_allocs_inv [simp]: "buddy_inv (s\<lparr>stat_allocs := n\<rparr>) = buddy_inv s"
  "free_pages (s\<lparr>stat_allocs := n\<rparr>) = free_pages s" "held_block k p (s\<lparr>stat_allocs := n\<rparr>) = held_block k p s"
  by (simp_all add: buddy_inv_def areas_ok_def layout_ok_def free_pages_def page_clean_def page_flag_def
      held_block_def)

interpretation buddy: page_source buddy_inv free_pages held_block "alloc_block g" free_block for g
proof unfold_locales
  fix s k assume B: "buddy_inv s"
  show "\<exists>r s'. alloc_block g k s = Some (r, s') \<and> buddy_inv s'"
    by (cases rule: getFreePages_cases [OF B, of g k]) (use B in \<open>auto simp: alloc_block_def\<close>)
  show "held_block k q s' \<and> block k q \<subseteq> free_pages s \<and> free_pages s' = free_pages s - block k q"
    if "alloc_block g k s = Some (Some q, s')" for q s'
    by (cases rule: getFreePages_cases [OF B, of g k]) (use that in \<open>auto simp: alloc_block_def\<close>)
  show "free_pages s' = free_pages s" if "alloc_block g k s = Some (None, s')" for s'
    by (cases rule: getFreePages_cases [OF B, of g k]) (use that in \<open>auto simp: alloc_block_def\<close>)
  show "held_block j p s'" if "alloc_block g k s = Some (r, s')" "held_block j p s" for r s' j p
  proof (cases rule: getFreePages_cases [OF B, of g k])
    case (1 q s1)
    then show ?thesis
      using that held_block_kept [OF 1(6) that(2)] held_not_free [OF B that(2)]
      by (auto simp: alloc_block_def)
  qed (use that in \<open>auto simp: alloc_block_def\<close>)
  show "\<exists>s'. free_block k p s = Some s' \<and> buddy_inv s' \<and> free_pages s' = free_pages s \<union> block k p"
    if "held_block k p s" for p
    using mm_putFreePages_held [OF B that] by (auto simp: free_block_def)
  show "held_block j q s'" if "held_block k p s" "free_block k p s = Some s'" "held_block j q s" "block j q \<inter> block k p = {}"
    for p s' j q
    using mm_putFreePages_held [OF B that(1)] that(2-4) held_block_kept [of "block k p" s _ j q]
    by (auto simp: free_block_def)
  show "block k p \<inter> free_pages s = {}" if "held_block k p s" for p
    by (rule held_not_free [OF B that])
qed

section \<open>Runs of the allocator\<close>

datatype page_op = GetPages u32 nat | PutPages nat nat

fun page_exec :: "page_op \<Rightarrow> memory \<Rightarrow> memory option" where
  "page_exec (GetPages g k) s = map_option snd (mm_getFreePages g k s)"
| "page_exec (PutPages k p) s = map_option snd (mm_putFreePages (ADDRESS (of_nat p)) k s)"

fun page_op_ok :: "page_op \<Rightarrow> memory \<Rightarrow> bool" where
  "page_op_ok (GetPages g k) s = True"
| "page_op_ok (PutPages k p) s = held_block k p s"

interpretation pages: machine page_exec page_op_ok buddy_inv
proof unfold_locales
  show "\<exists>s'. page_exec e s = Some s' \<and> buddy_inv s'" if "buddy_inv s" "page_op_ok e s" for e s
  proof (cases e)
    case (GetPages g k)
    then show ?thesis
      using buddy.get_returns [OF that(1), of g k] by (auto simp: alloc_block_def split: option.splits prod.splits)
  next
    case (PutPages k p)
    then show ?thesis using mm_putFreePages_held [OF that(1), of k p] that(2) by fastforce
  qed
qed

section \<open>A small memory\<close>

text \<open>Eight frames of which the upper four are one free block, the lower four are kernel data.\<close>

definition small_page :: "bool \<Rightarrow> page" where
  "small_page res = \<lparr>pcount = 0, pflags = (if res then 0x80000100 else 0x100), option_data = 0\<rparr>"

definition small_memory :: memory where
  "small_memory = \<lparr>g_mem_map = (\<lambda>p. small_page (p < 4)), g_max_mapnr = 8, g_nr_free_pages = 4,
     free_area = (\<lambda>k. if k = 2 then [4] else []), area_map = (\<lambda>k i. k = 2 \<and> i = 0),
     map_bits = (\<lambda>_. 64), stat_count = (\<lambda>k. if k = 2 then 1 else 0), stat_allocs = 0, stat_frees = 0,
     g_stat_mem_size = 0, init_done = True, g_kernelspace_starting_address = KADDRSPACE_START,
     g_phy_mem_size = 0x8000, contents = (\<lambda>_ _. 7)\<rparr>"

lemma small_free_blocks: "free_blocks (free_area small_memory) = {(2, 4)}"
  by (auto simp: small_memory_def free_blocks_def NR_MEM_LISTS_def split: if_splits)

lemma small_free_pages: "free_pages small_memory = {4 ..< 8}"
  by (auto simp: free_pages_def free_set_def small_free_blocks block_def)

lemma small_memory_inv: "buddy_inv small_memory"
proof -
  have "area_inv (g_max_mapnr small_memory) (free_area small_memory) (area_map small_memory)"
    unfolding area_inv_def small_free_blocks
    by (auto simp: small_memory_def aligned_def buddy_bit_def)
  moreover have "p div 2 ^ Suc k < 64" if "p < 8" for p k :: nat
    using div_le_dividend [of p "2 ^ Suc k"] that by linarith
  ultimately have "areas_ok small_memory" by (simp add: areas_ok_def small_memory_def del: power_Suc)
  moreover have "layout_ok small_memory" by (simp add: layout_ok_def small_memory_def)
  moreover have "g_nr_free_pages small_memory = of_nat (card (free_pages small_memory))"
    unfolding small_free_pages by (simp add: small_memory_def)
  moreover have "page_clean p small_memory \<and> \<not> PageReferenced p small_memory" if "4 \<le> p" for p
    using that by (simp add: page_clean_def page_flag_def small_memory_def small_page_def)
  ultimately show ?thesis by (simp add: buddy_inv_def small_free_pages)
qed

section \<open>Properties\<close>

text \<open>
  C1: with the allocator invariant, \<open>mm_getFreePages\<close> returns for every order and never reaches
  \<open>BUG()\<close>. When some aligned block of the order is entirely free it returns the address of such
  a block, which is then held by the caller (one reference, every page marked), is no longer free
  and was cleared if \<open>MEM_CLEAR\<close> was asked for, and no other page is touched; when there is none, it
  returns 0 and only counts the call. The invariant holds again.
\<close>

theorem getFreePages_correct:
  assumes "buddy_inv s" "order < NR_MEM_LISTS"
  shows "\<exists>a s'. mm_getFreePages gfp_mask order s = Some (a, s') \<and> buddy_inv s' \<and>
    (if \<exists>p. aligned order p \<and> block order p \<subseteq> free_pages s
     then \<exists>p. a = ADDRESS (of_nat p) \<and> a \<noteq> 0 \<and> held_block order p s' \<and> block order p \<subseteq> free_pages s
       \<and> free_pages s' = free_pages s - block order p \<and> others_kept (block order p) s s'
       \<and> (gfp_mask AND MEM_CLEAR \<noteq> 0 \<longrightarrow> (\<forall>q \<in> block order p. \<forall>i < PAGE_SIZE. contents s' q i = 0))
     else a = 0 \<and> s' = s\<lparr>stat_allocs := stat_allocs s + 1\<rparr>)"
proof (cases rule: getFreePages_cases [OF assms(1), of gfp_mask order])
  case (1 q s')
  then have "\<exists>p. aligned order p \<and> block order p \<subseteq> free_pages s" by (auto simp: held_block_def)
  then show ?thesis using 1 by auto
next
  case 2
  then show ?thesis using assms by auto
qed

theorem getFreePages_correct_witness:
  "\<exists>a s'. mm_getFreePages MEM_CLEAR 1 small_memory = Some (a, s') \<and> buddy_inv s' \<and> a \<noteq> 0"
proof -
  have "aligned 1 4 \<and> block 1 4 \<subseteq> free_pages small_memory"
    by (auto simp: small_free_pages block_def aligned_def)
  then have "\<exists>p. aligned 1 p \<and> block 1 p \<subseteq> free_pages small_memory" by blast
  then show ?thesis
    using getFreePages_correct [OF small_memory_inv, of 1 MEM_CLEAR] by (auto simp: NR_MEM_LISTS_def)
qed

text \<open>
  C2: releasing a held block returns 1, makes exactly its pages free again, keeps the invariant,
  and neither touches another page nor changes the contents of memory.
\<close>

theorem putFreePages_correct:
  assumes "buddy_inv s" "held_block order p s"
  shows "\<exists>s'. mm_putFreePages (ADDRESS (of_nat p)) order s = Some (1, s') \<and> buddy_inv s'
    \<and> free_pages s' = block order p \<union> free_pages s \<and> others_kept (block order p) s s'
    \<and> contents s' = contents s"
  using assms by (rule mm_putFreePages_held)

definition small_held :: memory where
  "small_held = small_memory\<lparr>g_mem_map := (\<lambda>p. if p = 2
     then \<lparr>pcount = 1, pflags = 0x104, option_data = 0\<rparr> else g_mem_map small_memory p)\<rparr>"

lemma small_held_inv: "buddy_inv small_held" "held_block 0 2 small_held" "free_pages small_held = {4 ..< 8}"
proof -
  show f: "free_pages small_held = {4 ..< 8}"
    using small_free_pages by (simp add: small_held_def free_pages_def)
  show "buddy_inv small_held"
    using small_memory_inv
    by (simp add: buddy_inv_def f small_free_pages) (auto simp: small_held_def areas_ok_def layout_ok_def
        page_clean_def page_flag_def)
  show "held_block 0 2 small_held"
    by (simp add: held_block_def NR_MEM_LISTS_def small_held_def small_memory_def page_clean_def page_flag_def)
qed

theorem putFreePages_correct_witness:
  "\<exists>s'. mm_putFreePages (ADDRESS 2) 0 small_held = Some (1, s') \<and> free_pages s' = {2, 4, 5, 6, 7}"
  using putFreePages_correct [OF small_held_inv(1,2)] by (auto simp: small_held_inv(3))

text \<open>
  C3: any sequence of allocations of any order and of releases of blocks that are held when they
  are released runs to its end without reaching \<open>BUG()\<close>, a failed \<open>assert\<close>, a bitmap
  or page-array access out of range, or an unlink of a page that is not on its list, and the
  invariant holds at the end.
\<close>

theorem page_runs_safe:
  assumes "buddy_inv s" "legal_run page_exec page_op_ok ops s"
  shows "\<exists>s'. run_ops page_exec ops s = Some s' \<and> buddy_inv s'"
  using assms by (rule pages.run_keeps_inv)

theorem page_runs_safe_witness:
  "\<exists>s'. run_ops page_exec [PutPages 0 2, GetPages 0 1, GetPages 0 9] small_held = Some s' \<and> buddy_inv s'"
proof -
  have "legal_run page_exec page_op_ok [PutPages 0 2, GetPages 0 1, GetPages 0 9] small_held"
    by (auto simp: small_held_inv split: option.splits)
  then show ?thesis using page_runs_safe [OF small_held_inv(1)] by blast
qed

text \<open>
  C4: allocating a block and releasing it again gives back exactly the free pages there were, so
  splitting and merging lose nothing.
\<close>

theorem get_put_round_trip:
  assumes "buddy_inv s" "mm_getFreePages gfp_mask order s = Some (a, s1)" "a \<noteq> 0"
  shows "\<exists>s2. mm_putFreePages a order s1 = Some (1, s2) \<and> buddy_inv s2 \<and> free_pages s2 = free_pages s
    \<and> g_nr_free_pages s2 = g_nr_free_pages s"
proof (cases rule: getFreePages_cases [OF assms(1), of gfp_mask order])
  case (1 q s')
  then have "a = ADDRESS (of_nat q)" "s1 = s'" using assms(2) by auto
  moreover obtain s2 where s2: "mm_putFreePages (ADDRESS (of_nat q)) order s' = Some (1, s2)" "buddy_inv s2"
    "free_pages s2 = block order q \<union> free_pages s'"
    using mm_putFreePages_held [OF 1(2,3)] by blast
  moreover have "free_pages s2 = free_pages s" using s2(3) 1(4,5) by blast
  ultimately show ?thesis using assms(1) by (auto simp: buddy_inv_def)
next
  case 2
  then show ?thesis using assms by auto
qed

theorem get_put_round_trip_witness:
  "\<exists>a s1 s2. mm_getFreePages 0 0 small_memory = Some (a, s1) \<and> mm_putFreePages a 0 s1 = Some (1, s2)
    \<and> free_pages s2 = {4 ..< 8}"
proof -
  have "block 0 4 \<subseteq> free_pages small_memory" by (auto simp: small_free_pages)
  then obtain a s1 where "mm_getFreePages 0 0 small_memory = Some (a, s1)" "a \<noteq> 0"
    by (cases rule: getFreePages_cases [OF small_memory_inv, of 0 0]) (auto simp: NR_MEM_LISTS_def)
  then show ?thesis using get_put_round_trip [OF small_memory_inv] small_free_pages by metis
qed

primrec alloc_all :: "u32 \<Rightarrow> nat list \<Rightarrow> memory \<Rightarrow> (nat list \<times> memory) option" where
  "alloc_all g [] s = Some ([], s)"
| "alloc_all g (k # ks) s = (case alloc_block g k s of
     Some (Some q, s1) \<Rightarrow> map_option (\<lambda>(qs, s'). (q # qs, s')) (alloc_all g ks s1)
   | _ \<Rightarrow> None)"

lemma alloc_all_get_all: "alloc_all g ks s = buddy.get_all g ks s"
  by (induction ks arbitrary: s) (simp_all split: option.splits prod.splits)

text \<open>
  C5: blocks obtained by successive successful requests never overlap, each is held by its
  caller at the end, and blocks held before are still held.
\<close>

theorem allocations_disjoint:
  assumes "buddy_inv s" "alloc_all gfp_mask orders s = Some (ps, s')"
  shows "buddy_inv s' \<and> length ps = length orders
    \<and> (\<forall>i < length orders. held_block (orders ! i) (ps ! i) s' \<and> block (orders ! i) (ps ! i) \<subseteq> free_pages s)
    \<and> (\<forall>i < length orders. \<forall>j < length orders. i \<noteq> j \<longrightarrow>
         block (orders ! i) (ps ! i) \<inter> block (orders ! j) (ps ! j) = {})
    \<and> (\<forall>j p. held_block j p s \<longrightarrow> held_block j p s')"
  using assms unfolding alloc_all_get_all by (rule buddy.get_all_disjoint)

theorem allocations_disjoint_witness:
  "\<exists>ps s'. alloc_all 0 [1, 0] small_memory = Some (ps, s') \<and> block 1 (ps ! 0) \<inter> block 0 (ps ! 1) = {}"
proof -
  have b1: "block 1 4 \<subseteq> free_pages small_memory" "aligned 1 4" by (auto simp: small_free_pages block_def aligned_def)
  obtain q s1 where 1: "alloc_block 0 1 small_memory = Some (Some q, s1)" "buddy_inv s1"
      "free_pages s1 = free_pages small_memory - block 1 q"
    by (cases rule: getFreePages_cases [OF small_memory_inv, of 0 1])
      (use b1 in \<open>auto simp: NR_MEM_LISTS_def alloc_block_def\<close>)
  have "4 \<in> free_pages s1 \<or> 6 \<in> free_pages s1" using 1(3) by (auto simp: small_free_pages block_def)
  then have "\<exists>p. aligned 0 p \<and> block 0 p \<subseteq> free_pages s1" by auto
  then obtain r s2 where 2: "alloc_block 0 0 s1 = Some (Some r, s2)"
    by (cases rule: getFreePages_cases [OF 1(2), of 0 0]) (auto simp: NR_MEM_LISTS_def alloc_block_def)
  have "alloc_all 0 [1, 0] small_memory = Some ([q, r], s2)" using 1(1) 2 by simp
  then show ?thesis using allocations_disjoint [OF small_memory_inv, of 0 "[1, 0]" "[q, r]" s2] by force
qed

text \<open>
  C6: the word-level freeing loop of \<open>_free_pages_ok\<close> (masks of 64 bits, the test
  \<open>mask + (1 << 10)\<close>, the exclusive-or with \<open>-mask\<close>) computes the merging of buddies on page
  numbers, for every order and every page number of a machine of up to 16 EiB.
\<close>

theorem free_pages_ok_is_coalesce:
  assumes "order < NR_MEM_LISTS" "aligned order p" "p < 2 ^ 52"
  shows "free_pages_ok (of_nat p) order s =
    coalesce order p (s\<lparr>g_nr_free_pages := g_nr_free_pages s + 2 ^ order\<rparr>)"
  using assms by (rule free_pages_ok_coalesce)

theorem free_pages_ok_is_coalesce_witness:
  "free_pages_ok 8 3 small_memory = coalesce 3 8 (small_memory\<lparr>g_nr_free_pages := 12\<rparr>)"
  using free_pages_ok_is_coalesce [of 3 8 small_memory]
  by (simp add: NR_MEM_LISTS_def aligned_def small_memory_def)

text \<open>
  C7: the boot code establishes the invariant. \<open>init_free_area\<close> followed by \<open>init_mem\<close> on a memory
  whose end is \<open>e\<close> bytes above \<open>KADDRSPACE_START\<close> returns, and the free pages are exactly those
  from the first page that starts at or after both \<open>start_mem\<close> and \<open>virt_start_addr\<close> up to two
  pages below the end: no page of the kernel image, the page array or the bitmaps is given out.
\<close>

theorem boot_correct:
  assumes "g_kernelspace_starting_address s = KADDRSPACE_START" "unat (g_phy_mem_size s) \<le> 2 ^ 45"
    and "g_nr_free_pages s = 0"
    and "unat end_mem = unat KADDRSPACE_START + e" "e \<le> unat (g_phy_mem_size s)"
    and "unat start_mem = unat KADDRSPACE_START + b" "b + PAGE_SIZE \<le> e"
    and "virt_start_addr = ADDRESS (of_nat a)" "a + 2 \<le> e div PAGE_SIZE"
  shows "\<exists>m s1 s2. init_free_area map_start end_mem s = Some (m, s1)
    \<and> init_mem start_mem end_mem virt_start_addr s1 = Some s2 \<and> buddy_inv s2
    \<and> free_pages s2 = {max a ((b + 4095) div PAGE_SIZE) ..< e div PAGE_SIZE - 2}"
proof -
  have "e \<le> 2 ^ 45" "PAGE_SIZE \<le> e" using assms(2,5,7) by linarith+
  then obtain m s1 where s1: "init_free_area map_start end_mem s = Some (m, s1)"
    "areas_empty (e div PAGE_SIZE) NR_MEM_LISTS s1" "\<forall>q < e div PAGE_SIZE. g_mem_map s1 q = initial_page"
    "g_nr_free_pages s1 = g_nr_free_pages s" "g_phy_mem_size s1 = g_phy_mem_size s"
    "g_kernelspace_starting_address s1 = KADDRSPACE_START"
    using init_free_area_ok [OF assms(1,4)] by blast
  have "\<exists>s2. init_mem start_mem end_mem virt_start_addr s1 = Some s2 \<and> buddy_inv s2
    \<and> free_pages s2 = {max a ((b + 4095) div PAGE_SIZE) ..< e div PAGE_SIZE - 2}"
    using init_mem_ok [OF s1(6) _ assms(4) _ s1(2,3) _ assms(6,7,8,9)] assms(2,3,5) s1(4,5) by simp
  then show ?thesis using s1(1) by blast
qed

theorem boot_correct_witness:
  "\<exists>m s1 s2. init_free_area (ADDRESS 2) (ADDRESS 64) (small_memory\<lparr>g_nr_free_pages := 0, g_phy_mem_size := 0x40000\<rparr>) = Some (m, s1)
    \<and> init_mem (ADDRESS 16 + 8) (ADDRESS 64) (ADDRESS 0) s1 = Some s2 \<and> buddy_inv s2
    \<and> free_pages s2 = {17 ..< 62}"
proof -
  have "unat (ADDRESS 64) = unat KADDRSPACE_START + 64 * 4096"
    "unat (ADDRESS 16 + 8) = unat KADDRSPACE_START + (16 * 4096 + 8)"
    by (simp_all add: ADDRESS_def KADDRSPACE_START_def)
  then show ?thesis
    using boot_correct [of "small_memory\<lparr>g_nr_free_pages := 0, g_phy_mem_size := 0x40000\<rparr>" "ADDRESS 64"
        "64 * 4096" "ADDRESS 16 + 8" "16 * 4096 + 8" "ADDRESS 0" 0 "ADDRESS 2"]
    by (simp add: small_memory_def)
qed

end
