(* ===== verification/Sched.thy ===== *)
theory Sched
  imports Kernel_Prelude
begin

text \<open>
  Tasks, run queues and the context switch of kernel/sched_task.cc. A task is its address (0 is
  the null pointer); \<open>run_queue\<close> lists the tasks of a cpu from the head on, and the link
  \<open>run_queue.next\<close> of a task is non-null exactly while the task is on some run queue.
  \<open>cur s c\<close> is \<open>g_current_task\<close> on cpu \<open>c\<close>. Every function runs on a cpu, which is its last but one
  argument; \<open>BUG()\<close> and an index outside \<open>g_cpu_state\<close> are \<^term>\<open>None\<close>.
\<close>

section \<open>State\<close>

definition NO_CPU :: nat where "NO_CPU = 0xffff"

definition TASK_RUNNING :: u64 where "TASK_RUNNING = 0"
definition TASK_INTERRUPTIBLE :: u64 where "TASK_INTERRUPTIBLE = 1"
definition TASK_STOPPED :: u64 where "TASK_STOPPED = 4"
definition TASK_DEAD :: u64 where "TASK_DEAD = 0x10"
definition TASK_NONPREEMPTIVE :: u64 where "TASK_NONPREEMPTIVE = 0x20"

lemmas task_states = TASK_RUNNING_def TASK_INTERRUPTIBLE_def TASK_STOPPED_def TASK_DEAD_def
  TASK_NONPREEMPTIVE_def

record task =
  state :: u64
  pending_signals :: bool
  killed :: bool
  usage :: int
  clone_flags :: u32
  task_id :: u64
  parent_process_pid :: u64
  process_id :: u64
  allocated_cpu :: nat
  current_cpu :: nat
  stick_to_cpu :: nat
  counter :: int
  sleep_ticks :: int
  last_jiffie :: u64
  locks_sleepable :: int
  locks_nonsleepable :: int
  exit_code :: int
  total_contexts :: u64
  ticks_consumed :: u64
  magic :: bool

record cpu_state =
  idle_task :: nat
  run_queue :: "nat list"
  run_queue_length :: int
  active :: bool
  intr_disabled :: bool
  idle_state :: bool
  task_on_wait :: bool
  cpu_contexts :: u64
  nonidle_contexts :: u64

record sched =
  tasks :: "nat \<Rightarrow> task"
  g_cpu_state :: "nat \<Rightarrow> cpu_state"
  cur :: "nat \<Rightarrow> nat"
  g_task_queue :: "nat list"
  free_pid_no :: u64
  g_jiffies :: u64
  g_conf_cpu_sched_ticks :: int
  g_stat_idle_errs :: u64
  cpu_rr :: int
  deadtask_list :: "nat list"

definition upd_task :: "nat \<Rightarrow> (task \<Rightarrow> task) \<Rightarrow> sched \<Rightarrow> sched" where
  "upd_task p f s = s\<lparr>tasks := (tasks s)(p := f (tasks s p))\<rparr>"

definition upd_cpu :: "nat \<Rightarrow> (cpu_state \<Rightarrow> cpu_state) \<Rightarrow> sched \<Rightarrow> sched" where
  "upd_cpu c f s = s\<lparr>g_cpu_state := (g_cpu_state s)(c := f (g_cpu_state s c))\<rparr>"

abbreviation rq :: "sched \<Rightarrow> nat \<Rightarrow> nat list" where "rq s c \<equiv> run_queue (g_cpu_state s c)"

definition on_runqueue :: "nat \<Rightarrow> sched \<Rightarrow> bool" where
  "on_runqueue p s = list_ex (\<lambda>c. p \<in> set (rq s c)) [0 ..< MAX_CPUS]"

section \<open>Run queues\<close>

definition add_to_runqueue :: "nat \<Rightarrow> int \<Rightarrow> nat \<Rightarrow> sched \<Rightarrow> (int \<times> sched) option" where
  "add_to_runqueue p arg_cpuid my_cpuid s = do {
     (cpuid, s) \<leftarrow>
       (if arg_cpuid = - 1 then do {
          let cpuid = allocated_cpu (tasks s p);
          kassert (cpuid < MAX_CPUS);
          Some (if \<not> active (g_cpu_state s cpuid)
                then (0, upd_task p (\<lambda>t. t\<lparr>allocated_cpu := 0\<rparr>) s) else (cpuid, s)) }
        else if arg_cpuid = - 99 then Some (my_cpuid, s)
        else None);
     kassert (magic (tasks s p) \<and> \<not> on_runqueue p s);
     kassert (current_cpu (tasks s p) = NO_CPU);
     let s = upd_cpu cpuid (\<lambda>c. c\<lparr>run_queue := run_queue c @ [p],
                                  run_queue_length := run_queue_length c + 1\<rparr>) s;
     let s = upd_task p (\<lambda>t. t\<lparr>state := TASK_RUNNING\<rparr>) s;
     Some (run_queue_length (g_cpu_state s cpuid) - 1, s) }"

definition del_from_runqueue :: "int \<Rightarrow> nat \<Rightarrow> sched \<Rightarrow> (nat \<times> sched) option" where
  "del_from_runqueue arg_cpuid my_cpuid s = do {
     cpuid \<leftarrow> (if arg_cpuid = - 99 then Some my_cpuid
               else if 0 \<le> arg_cpuid \<and> arg_cpuid < int MAX_CPUS then Some (nat arg_cpuid) else None);
     if run_queue_length (g_cpu_state s cpuid) = 0 then Some (0, s)
     else case rq s cpuid of
       [] \<Rightarrow> Some (0, s)
     | p # ps \<Rightarrow> do {
         kassert (p \<noteq> 0);
         Some (p, upd_cpu cpuid (\<lambda>c. c\<lparr>run_queue := ps,
                                        run_queue_length := run_queue_length c - 1\<rparr>) s) } }"

definition sc_task_assign_to_cpu :: "nat \<Rightarrow> nat \<Rightarrow> sched \<Rightarrow> (bool \<times> sched) option" where
  "sc_task_assign_to_cpu p my_cpuid s = do {
     (_, s) \<leftarrow> add_to_runqueue p (- 1) my_cpuid s;
     Some (allocated_cpu (tasks s p) = my_cpuid, s) }"

section \<open>The context switch\<close>

text \<open>The choice of the next task: \<open>0\<close> stands for "none" until the two fallbacks.\<close>

definition pick_next :: "nat \<Rightarrow> sched \<Rightarrow> (nat \<times> sched) option" where
  "pick_next cpuid s =
     (if cpuid \<noteq> 0 \<and> \<not> active (g_cpu_state s cpuid) then
        Some (idle_task (g_cpu_state s cpuid), upd_cpu cpuid (\<lambda>c. c\<lparr>intr_disabled := True\<rparr>) s)
      else do {
        (next, s) \<leftarrow> del_from_runqueue (- 99) cpuid s;
        (next, s) \<leftarrow>
          (if next \<noteq> 0 \<and> stick_to_cpu (tasks s next) \<noteq> NO_CPU \<and> stick_to_cpu (tasks s next) \<noteq> cpuid then do {
             let s = upd_task next (\<lambda>t. t\<lparr>allocated_cpu := stick_to_cpu t\<rparr>) s;
             (_, s) \<leftarrow> add_to_runqueue next (- 99) cpuid s;
             Some (0, s) }
           else Some (next, s));
        Some (next, if intr_disabled (g_cpu_state s cpuid) \<and> cpuid \<noteq> 0 \<and> active (g_cpu_state s cpuid)
                    then upd_cpu cpuid (\<lambda>c. c\<lparr>intr_disabled := False\<rparr>) s else s) })"

text \<open>
  Handing the cpu from \<open>prev\<close> to a different task \<open>next\<close>; the register and page-table switch itself
  (\<open>arch::switch_to\<close>, \<open>flush_tlb\<close>, the task state segment) belongs to the architecture layer and is
  the change of \<open>cur\<close>.
\<close>

definition switch_task :: "nat \<Rightarrow> nat \<Rightarrow> nat \<Rightarrow> sched \<Rightarrow> sched option" where
  "switch_task prev next cpuid s = do {
     let s = (if next \<noteq> idle_task (g_cpu_state s cpuid)
              then upd_cpu cpuid (\<lambda>c. c\<lparr>nonidle_contexts := nonidle_contexts c + 1\<rparr>) s else s);
     let s = upd_task next (\<lambda>t. t\<lparr>counter := g_conf_cpu_sched_ticks s\<rparr>) s;
     s \<leftarrow> (if state (tasks s prev) = TASK_DEAD then Some s
           else if prev \<noteq> idle_task (g_cpu_state s cpuid) \<and> state (tasks s prev) = TASK_RUNNING then do {
             kassert (\<not> on_runqueue prev s);
             let s = upd_task prev (\<lambda>t. t\<lparr>current_cpu := NO_CPU\<rparr>) s;
             (_, s) \<leftarrow> add_to_runqueue prev (- 99) cpuid s;
             Some s }
           else Some s);
     let s = upd_task next (\<lambda>t. t\<lparr>current_cpu := cpuid, total_contexts := total_contexts t + 1,
                                   last_jiffie := g_jiffies s\<rparr>) s;
     let s = upd_cpu cpuid (\<lambda>c. c\<lparr>cpu_contexts := cpu_contexts c + 1\<rparr>) s;
     let s = upd_task prev (\<lambda>t. t\<lparr>current_cpu := NO_CPU\<rparr>) s;
     Some (s\<lparr>cur := (cur s)(cpuid := next)\<rparr>) }"

definition schedule :: "nat \<Rightarrow> sched \<Rightarrow> sched option" where
  "schedule cpuid s =
     (let prev = cur s cpuid in
      if state (tasks s prev) AND TASK_NONPREEMPTIVE \<noteq> 0 then Some s
      else do {
        (next, s) \<leftarrow> pick_next cpuid s;
        let next = (if next = 0 \<and> state (tasks s prev) \<noteq> TASK_RUNNING
                    then idle_task (g_cpu_state s cpuid) else next);
        let next = (if next = 0 then prev else next);
        if prev = next then do {
          kassert (state (tasks s prev) = TASK_RUNNING);
          Some s }
        else switch_task prev next cpuid s })"

definition sc_schedule :: "nat \<Rightarrow> sched \<Rightarrow> sched option" where
  "sc_schedule cpuid s = do {
     let s = (if idle_state (g_cpu_state s cpuid)
              then (upd_cpu cpuid (\<lambda>c. c\<lparr>idle_state := False\<rparr>) s)\<lparr>g_stat_idle_errs := g_stat_idle_errs s + 1\<rparr>
              else s);
     kassert (cur s cpuid \<noteq> 0);
     kassert (current_cpu (tasks s (cur s cpuid)) = cpuid \<and> magic (tasks s (cur s cpuid)));
     schedule cpuid s }"

section \<open>Other operations on tasks\<close>

definition find_task :: "u64 \<Rightarrow> sched \<Rightarrow> nat option" where
  "find_task pid s = find (\<lambda>p. task_id (tasks s p) = pid) (g_task_queue s)"

definition sc_task_stick_to_cpu :: "u64 \<Rightarrow> nat \<Rightarrow> sched \<Rightarrow> int \<times> sched" where
  "sc_task_stick_to_cpu pid cpu_id s = (case find_task pid s of
     None \<Rightarrow> (SYSCALL_FAIL, s)
   | Some p \<Rightarrow> (SYSCALL_SUCCESS, upd_task p (\<lambda>t. t\<lparr>stick_to_cpu := cpu_id\<rparr>) s))"

definition SYS_sc_kill :: "u64 \<Rightarrow> u64 \<Rightarrow> sched \<Rightarrow> int \<times> sched" where
  "SYS_sc_kill pid signal s = (case find_task pid s of
     None \<Rightarrow> (SYSCALL_FAIL, s)
   | Some p \<Rightarrow> (SYSCALL_SUCCESS,
       upd_task p (\<lambda>t. t\<lparr>pending_signals := True, killed := (if signal = 9 then True else killed t)\<rparr>) s))"

text \<open>
  \<open>continue_parent_task\<close>: the statement \<open>task->state == TASK_RUNNING;\<close> is a comparison without
  effect, the state is set by \<open>add_to_runqueue\<close>.
\<close>

definition continue_parent_task :: "u64 \<Rightarrow> nat \<Rightarrow> sched \<Rightarrow> sched option" where
  "continue_parent_task ppid my_cpuid s = (case find_task ppid s of
     None \<Rightarrow> Some s
   | Some p \<Rightarrow>
       if state (tasks s p) = TASK_STOPPED then do {
         (_, s) \<leftarrow> add_to_runqueue p (- 1) my_cpuid s; Some s }
       else Some s)"

definition sc_enable_nonpreemptive :: "nat \<Rightarrow> sched \<Rightarrow> sched option" where
  "sc_enable_nonpreemptive cpuid s = do {
     let p = cur s cpuid;
     kassert (state (tasks s p) AND TASK_RUNNING = 0);
     Some (upd_task p (\<lambda>t. t\<lparr>state := state t OR TASK_NONPREEMPTIVE\<rparr>) s) }"

definition sc_disable_nonpreemptive :: "nat \<Rightarrow> sched \<Rightarrow> sched" where
  "sc_disable_nonpreemptive cpuid s =
     upd_task (cur s cpuid) (\<lambda>t. t\<lparr>state := state t AND NOT TASK_NONPREEMPTIVE\<rparr>) s"

definition MAX_DEADTASKLIST_SIZE :: nat where "MAX_DEADTASKLIST_SIZE = 100"

text \<open>The dead list is a stack: its end is the next task to be removed.\<close>

definition add_to_deadlist :: "nat \<Rightarrow> sched \<Rightarrow> sched option" where
  "add_to_deadlist p s = do {
     kassert (length (deadtask_list s) < MAX_DEADTASKLIST_SIZE);
     let s = upd_task p (\<lambda>t. t\<lparr>state := TASK_DEAD\<rparr>) s;
     Some (s\<lparr>deadtask_list := deadtask_list s @ [p]\<rparr>) }"

definition get_dead_task :: "sched \<Rightarrow> nat \<times> sched" where
  "get_dead_task s =
     (if deadtask_list s = [] then (0, s)
      else (last (deadtask_list s), s\<lparr>deadtask_list := butlast (deadtask_list s)\<rparr>))"

text \<open>Linking a freshly initialised task into the task list and its run queue, as a clone does.\<close>

definition start_task :: "nat \<Rightarrow> nat \<Rightarrow> sched \<Rightarrow> sched option" where
  "start_task p my_cpuid s = do {
     let s = upd_task p (\<lambda>t. t\<lparr>state := TASK_RUNNING\<rparr>) s;
     let s = s\<lparr>g_task_queue := g_task_queue s @ [p]\<rparr>;
     (_, s) \<leftarrow> add_to_runqueue p (- 1) my_cpuid s;
     Some s }"

text \<open>
  \<open>get_free_cpu\<close>: the static counter is an \<open>int\<close>, whose overflow is undefined; \<open>maxcpus\<close> is
  \<open>getmaxcpus()\<close>. A negative or too large \<open>g_conf_netbh_cpu\<close> never matches.
\<close>

definition get_free_cpu :: "nat \<Rightarrow> int \<Rightarrow> int \<Rightarrow> sched \<Rightarrow> (nat \<times> sched) option" where
  "get_free_cpu maxcpus g_conf_netbh_cpu g_conf_cpu_stick s = do {
     kassert (cpu_rr s + 2 < 2 ^ 31 \<and> 0 < maxcpus);
     let i = cpu_rr s + 1;
     let k = nat i mod maxcpus;
     let k = (if k \<ge> maxcpus then 0 else k);
     let (i, k) = (if int k = g_conf_netbh_cpu \<and> maxcpus > 1 then (i + 1, nat (i + 1) mod maxcpus) else (i, k));
     let s = s\<lparr>cpu_rr := i\<rparr>;
     if g_conf_cpu_stick \<noteq> 99 \<and> g_conf_cpu_stick < int maxcpus then do {
       kassert (0 \<le> g_conf_cpu_stick);
       Some (nat g_conf_cpu_stick, s) }
     else if active (g_cpu_state s k) then Some (k, s) else Some (0, s) }"

section \<open>Invariant\<close>

text \<open>
  No task is on two run queues or queued twice, queued tasks are runnable and run nowhere, and a
  cpu is claimed by its current task alone; idle tasks are runnable and never queued.
\<close>

definition is_idle :: "nat \<Rightarrow> sched \<Rightarrow> bool" where
  "is_idle p s \<longleftrightarrow> (\<exists>c < MAX_CPUS. idle_task (g_cpu_state s c) = p)"

definition queues_ok :: "sched \<Rightarrow> bool" where
  "queues_ok s \<longleftrightarrow>
     (\<forall>c < MAX_CPUS. distinct (rq s c) \<and> 0 \<notin> set (rq s c)
        \<and> run_queue_length (g_cpu_state s c) = int (length (rq s c)))
   \<and> (\<forall>c < MAX_CPUS. \<forall>d < MAX_CPUS. c \<noteq> d \<longrightarrow> set (rq s c) \<inter> set (rq s d) = {})"

definition queued_ok :: "sched \<Rightarrow> bool" where
  "queued_ok s \<longleftrightarrow> (\<forall>p. on_runqueue p s \<longrightarrow> state (tasks s p) = TASK_RUNNING
     \<and> current_cpu (tasks s p) = NO_CPU \<and> magic (tasks s p) \<and> \<not> is_idle p s)"

definition current_ok :: "sched \<Rightarrow> bool" where
  "current_ok s \<longleftrightarrow>
     (\<forall>c < MAX_CPUS. cur s c \<noteq> 0 \<and> current_cpu (tasks s (cur s c)) = c \<and> magic (tasks s (cur s c)))
   \<and> (\<forall>c < MAX_CPUS. \<forall>p. current_cpu (tasks s p) = c \<longrightarrow> p = cur s c)"

definition idle_ok :: "sched \<Rightarrow> bool" where
  "idle_ok s \<longleftrightarrow>
     (\<forall>c < MAX_CPUS. idle_task (g_cpu_state s c) \<noteq> 0
        \<and> state (tasks s (idle_task (g_cpu_state s c))) = TASK_RUNNING
        \<and> magic (tasks s (idle_task (g_cpu_state s c))))
   \<and> (\<forall>c < MAX_CPUS. \<forall>d < MAX_CPUS. cur s d = idle_task (g_cpu_state s c) \<longrightarrow> c = d)
   \<and> (\<forall>c < MAX_CPUS. \<forall>d < MAX_CPUS. idle_task (g_cpu_state s c) = idle_task (g_cpu_state s d) \<longrightarrow> c = d)"

definition cpus_valid :: "sched \<Rightarrow> bool" where
  "cpus_valid s \<longleftrightarrow> (\<forall>p. allocated_cpu (tasks s p) < MAX_CPUS
     \<and> (stick_to_cpu (tasks s p) = NO_CPU \<or> stick_to_cpu (tasks s p) < MAX_CPUS))"

definition sched_inv :: "sched \<Rightarrow> bool" where
  "sched_inv s \<longleftrightarrow> queues_ok s \<and> queued_ok s \<and> current_ok s \<and> idle_ok s \<and> cpus_valid s"

lemmas sched_inv_defs = sched_inv_def queues_ok_def queued_ok_def current_ok_def idle_ok_def cpus_valid_def

lemma on_runqueue_iff: "on_runqueue p s \<longleftrightarrow> (\<exists>c < MAX_CPUS. p \<in> set (rq s c))"
  by (auto simp: on_runqueue_def list_ex_iff)

lemma upd_task_sel [simp]:
  "tasks (upd_task p f s) q = (if q = p then f (tasks s p) else tasks s q)"
  "g_cpu_state (upd_task p f s) = g_cpu_state s" "cur (upd_task p f s) = cur s"
  "g_task_queue (upd_task p f s) = g_task_queue s" "deadtask_list (upd_task p f s) = deadtask_list s"
  "g_conf_cpu_sched_ticks (upd_task p f s) = g_conf_cpu_sched_ticks s" "g_jiffies (upd_task p f s) = g_jiffies s"
  "on_runqueue q (upd_task p f s) = on_runqueue q s" "is_idle q (upd_task p f s) = is_idle q s"
  by (simp_all add: upd_task_def on_runqueue_def is_idle_def)

lemma upd_cpu_sel [simp]:
  "g_cpu_state (upd_cpu c f s) d = (if d = c then f (g_cpu_state s c) else g_cpu_state s d)"
  "tasks (upd_cpu c f s) = tasks s" "cur (upd_cpu c f s) = cur s"
  "g_task_queue (upd_cpu c f s) = g_task_queue s" "deadtask_list (upd_cpu c f s) = deadtask_list s"
  "g_conf_cpu_sched_ticks (upd_cpu c f s) = g_conf_cpu_sched_ticks s" "g_jiffies (upd_cpu c f s) = g_jiffies s"
  by (simp_all add: upd_cpu_def)

lemma cur_not_queued: "sched_inv s \<Longrightarrow> c < MAX_CPUS \<Longrightarrow> \<not> on_runqueue (cur s c) s"
  by (force simp: sched_inv_defs NO_CPU_def MAX_CPUS_def)

section \<open>Queue steps keep the invariant\<close>

definition enqueue :: "nat \<Rightarrow> nat \<Rightarrow> sched \<Rightarrow> sched" where
  "enqueue p c s = upd_task p (\<lambda>t. t\<lparr>state := TASK_RUNNING\<rparr>)
     (upd_cpu c (\<lambda>c. c\<lparr>run_queue := run_queue c @ [p], run_queue_length := run_queue_length c + 1\<rparr>) s)"

definition dequeue :: "nat \<Rightarrow> sched \<Rightarrow> sched" where
  "dequeue c s = upd_cpu c (\<lambda>c. c\<lparr>run_queue := tl (run_queue c), run_queue_length := run_queue_length c - 1\<rparr>) s"

text \<open>A task that may be put on a run queue: it is neither queued nor running, and not an idle task.\<close>

definition parked :: "nat \<Rightarrow> sched \<Rightarrow> bool" where
  "parked p s \<longleftrightarrow> p \<noteq> 0 \<and> \<not> on_runqueue p s \<and> current_cpu (tasks s p) = NO_CPU \<and> magic (tasks s p)
     \<and> \<not> is_idle p s"

lemma on_runqueue_enqueue [simp]:
  "c < MAX_CPUS \<Longrightarrow> on_runqueue q (enqueue p c s) \<longleftrightarrow> q = p \<or> on_runqueue q s"
  by (auto simp: on_runqueue_iff enqueue_def split: if_splits)

lemma enqueue_sel [simp]:
  "tasks (enqueue p c s) q = (if q = p then (tasks s p)\<lparr>state := TASK_RUNNING\<rparr> else tasks s q)"
  "cur (enqueue p c s) = cur s" "is_idle q (enqueue p c s) = is_idle q s"
  "rq (enqueue p c s) d = (if d = c then rq s c @ [p] else rq s d)"
  "run_queue_length (g_cpu_state (enqueue p c s) d)
     = run_queue_length (g_cpu_state s d) + (if d = c then 1 else 0)"
  "idle_task (g_cpu_state (enqueue p c s) d) = idle_task (g_cpu_state s d)"
  "active (g_cpu_state (enqueue p c s) d) = active (g_cpu_state s d)"
  "intr_disabled (g_cpu_state (enqueue p c s) d) = intr_disabled (g_cpu_state s d)"
  "g_jiffies (enqueue p c s) = g_jiffies s"
  by (auto simp: enqueue_def is_idle_def)

lemma enqueue_inv:
  assumes I: "sched_inv s" and c: "c < MAX_CPUS" and p: "parked p s"
  shows "sched_inv (enqueue p c s)"
proof -
  have np: "p \<notin> set (rq s d)" if "d < MAX_CPUS" for d
    using p that by (auto simp: parked_def on_runqueue_iff)
  have "queues_ok (enqueue p c s)"
    using I p c np by (auto simp: sched_inv_def queues_ok_def parked_def)
  moreover have "queued_ok (enqueue p c s)"
    using I p c by (auto simp: sched_inv_def queued_ok_def parked_def)
  moreover have "p \<noteq> cur s d" if "d < MAX_CPUS" for d
    using I p that by (auto simp: sched_inv_def current_ok_def parked_def NO_CPU_def MAX_CPUS_def)
  then have "current_ok (enqueue p c s)"
    using I p by (auto simp: sched_inv_def current_ok_def parked_def)
  moreover have "idle_ok (enqueue p c s)"
    using I p by (auto simp: sched_inv_def idle_ok_def parked_def is_idle_def)
  moreover have "cpus_valid (enqueue p c s)"
    using I by (simp add: sched_inv_def cpus_valid_def)
  ultimately show ?thesis by (simp add: sched_inv_def)
qed

lemma dequeue_sel [simp]:
  "tasks (dequeue c s) = tasks s" "cur (dequeue c s) = cur s" "is_idle q (dequeue c s) = is_idle q s"
  "rq (dequeue c s) d = (if d = c then tl (rq s c) else rq s d)"
  "idle_task (g_cpu_state (dequeue c s) d) = idle_task (g_cpu_state s d)"
  "active (g_cpu_state (dequeue c s) d) = active (g_cpu_state s d)"
  "intr_disabled (g_cpu_state (dequeue c s) d) = intr_disabled (g_cpu_state s d)"
  "run_queue_length (g_cpu_state (dequeue c s) d)
     = run_queue_length (g_cpu_state s d) - (if d = c then 1 else 0)"
  "g_jiffies (dequeue c s) = g_jiffies s"
  by (auto simp: dequeue_def is_idle_def)

lemma dequeue_inv:
  assumes I: "sched_inv s" and c: "c < MAX_CPUS" and q: "rq s c = p # ps"
  shows "sched_inv (dequeue c s)" "parked p (dequeue c s)" "state (tasks s p) = TASK_RUNNING"
proof -
  have sub: "on_runqueue x (dequeue c s) \<Longrightarrow> on_runqueue x s" for x
    using q by (auto simp: on_runqueue_iff split: if_splits)
  have onp: "on_runqueue p s" using c q by (auto simp: on_runqueue_iff)
  have dis: "set (p # ps) \<inter> set (rq s d) = {}" "set (rq s d) \<inter> set (p # ps) = {}" if "d < MAX_CPUS" "d \<noteq> c" for d
    using I that c q unfolding sched_inv_def queues_ok_def by metis+
  then have "p \<notin> set (rq s d)" if "d < MAX_CPUS" "d \<noteq> c" for d
    using that by fastforce
  moreover have "p \<notin> set ps" "p \<noteq> 0" using I c q by (auto simp: sched_inv_def queues_ok_def)
  ultimately have "\<not> on_runqueue p (dequeue c s)"
    using q by (auto simp: on_runqueue_iff split: if_splits)
  then show "parked p (dequeue c s)" "state (tasks s p) = TASK_RUNNING"
    using I onp \<open>p \<noteq> 0\<close> by (auto simp: parked_def sched_inv_def queued_ok_def)
  have "queues_ok (dequeue c s)"
    using I c q dis by (auto simp: sched_inv_def queues_ok_def)
  moreover have "queued_ok (dequeue c s)" using I sub by (simp add: sched_inv_def queued_ok_def)
  ultimately show "sched_inv (dequeue c s)"
    using I by (simp add: sched_inv_def current_ok_def idle_ok_def cpus_valid_def)
qed

lemma add_to_runqueue_here:
  "parked p s \<Longrightarrow> \<exists>n. add_to_runqueue p (- 99) c s = Some (n, enqueue p c s)"
  by (simp add: add_to_runqueue_def parked_def enqueue_def Let_def)

lemma add_to_runqueue_allocated:
  assumes "parked p s" "allocated_cpu (tasks s p) < MAX_CPUS"
  shows "\<exists>n c s1. add_to_runqueue p (- 1) my s = Some (n, enqueue p c s1) \<and> c < MAX_CPUS
    \<and> s1 = upd_task p (\<lambda>t. t\<lparr>allocated_cpu := c\<rparr>) s \<and> (active (g_cpu_state s c) \<or> c = 0)"
proof -
  let ?c = "allocated_cpu (tasks s p)"
  have same: "upd_task p (\<lambda>t. t\<lparr>allocated_cpu := ?c\<rparr>) s = s" by (simp add: upd_task_def)
  show ?thesis
  proof (cases "active (g_cpu_state s ?c)")
    case True
    then have "\<exists>n. add_to_runqueue p (- 1) my s = Some (n, enqueue p ?c s)"
      using assms by (simp add: add_to_runqueue_def parked_def enqueue_def Let_def)
    then show ?thesis using True assms(2) same by metis
  next
    case False
    let ?s = "upd_task p (\<lambda>t. t\<lparr>allocated_cpu := 0\<rparr>) s"
    have "\<exists>n. add_to_runqueue p (- 1) my s = Some (n, enqueue p 0 ?s)"
      using False assms by (simp add: add_to_runqueue_def parked_def enqueue_def Let_def)
    moreover have "0 < MAX_CPUS" by (simp add: MAX_CPUS_def)
    ultimately show ?thesis by blast
  qed
qed

lemma upd_allocated_inv:
  "sched_inv s \<Longrightarrow> c < MAX_CPUS \<Longrightarrow> sched_inv (upd_task p (\<lambda>t. t\<lparr>allocated_cpu := c\<rparr>) s)"
  unfolding sched_inv_def queues_ok_def queued_ok_def current_ok_def idle_ok_def cpus_valid_def by auto

lemma parked_upd_allocated [simp]:
  "parked q (upd_task p (\<lambda>t. t\<lparr>allocated_cpu := c\<rparr>) s) = parked q s"
  by (simp add: parked_def)

lemma add_to_runqueue_inv:
  assumes "sched_inv s" "parked p s"
  shows "\<exists>n s'. add_to_runqueue p (- 1) my s = Some (n, s') \<and> sched_inv s' \<and> on_runqueue p s'
    \<and> cur s' = cur s \<and> (\<forall>q. q \<noteq> p \<longrightarrow> tasks s' q = tasks s q) \<and> (\<forall>q. q \<noteq> p \<longrightarrow> on_runqueue q s' = on_runqueue q s)
    \<and> sleep_ticks (tasks s' p) = sleep_ticks (tasks s p) \<and> (\<forall>q. is_idle q s' = is_idle q s)
    \<and> current_cpu (tasks s' p) = current_cpu (tasks s p)"
proof -
  have "allocated_cpu (tasks s p) < MAX_CPUS" using assms(1) by (simp add: sched_inv_def cpus_valid_def)
  then obtain n c s1 where r: "add_to_runqueue p (- 1) my s = Some (n, enqueue p c s1)" "c < MAX_CPUS"
    "s1 = upd_task p (\<lambda>t. t\<lparr>allocated_cpu := c\<rparr>) s"
    using add_to_runqueue_allocated [OF assms(2)] by blast
  then have "sched_inv (enqueue p c s1)"
    using assms by (intro enqueue_inv) (simp_all add: upd_allocated_inv)
  then show ?thesis using r by auto
qed

section \<open>The context switch keeps the invariant\<close>

definition same_tasks :: "sched \<Rightarrow> sched \<Rightarrow> bool" where
  "same_tasks s s' \<longleftrightarrow> cur s' = cur s
     \<and> (\<forall>c. idle_task (g_cpu_state s' c) = idle_task (g_cpu_state s c))
     \<and> (\<forall>p. state (tasks s' p) = state (tasks s p) \<and> sleep_ticks (tasks s' p) = sleep_ticks (tasks s p)
          \<and> current_cpu (tasks s' p) = current_cpu (tasks s p))"

lemma same_tasks_refl [simp]: "same_tasks s s"
  by (simp add: same_tasks_def)

lemma same_tasks_idle: "same_tasks s s' \<Longrightarrow> is_idle p s' = is_idle p s"
  by (simp add: same_tasks_def is_idle_def)

text \<open>The invariant depends on the queues, the idle tasks, the current tasks and the task records only.\<close>

lemma sched_frame:
  assumes "\<And>d. rq s' d = rq s d" "\<And>d. run_queue_length (g_cpu_state s' d) = run_queue_length (g_cpu_state s d)"
    "\<And>d. idle_task (g_cpu_state s' d) = idle_task (g_cpu_state s d)" "tasks s' = tasks s" "cur s' = cur s"
  shows "sched_inv s' = sched_inv s" "parked p s' = parked p s" "on_runqueue p s' = on_runqueue p s"
    "same_tasks t s' = same_tasks t s" "is_idle p s' = is_idle p s"
proof -
  have der: "on_runqueue q s' = on_runqueue q s" "is_idle q s' = is_idle q s" for q
    unfolding on_runqueue_def is_idle_def assms by simp_all
  show "on_runqueue p s' = on_runqueue p s" "is_idle p s' = is_idle p s" by (rule der)+
  show "sched_inv s' = sched_inv s" unfolding sched_inv_defs der assms by (rule refl)
  show "parked p s' = parked p s" unfolding parked_def der assms by (rule refl)
  show "same_tasks t s' = same_tasks t s" unfolding same_tasks_def assms by (rule refl)
qed

lemma set_intr_inv:
  "sched_inv (upd_cpu c (\<lambda>c. c\<lparr>intr_disabled := b\<rparr>) s) = sched_inv s"
  "parked p (upd_cpu c (\<lambda>c. c\<lparr>intr_disabled := b\<rparr>) s) = parked p s"
  "on_runqueue p (upd_cpu c (\<lambda>c. c\<lparr>intr_disabled := b\<rparr>) s) = on_runqueue p s"
  "same_tasks t (upd_cpu c (\<lambda>c. c\<lparr>intr_disabled := b\<rparr>) s) = same_tasks t s"
  by (rule sched_frame; simp)+

lemma pick_next_ok:
  assumes I: "sched_inv s" and c: "c < MAX_CPUS"
  shows "\<exists>next s'. pick_next c s = Some (next, s') \<and> sched_inv s' \<and> same_tasks s s'
    \<and> (next = 0 \<or> next = idle_task (g_cpu_state s' c) \<or> parked next s' \<and> state (tasks s' next) = TASK_RUNNING)
    \<and> (\<forall>p. p \<noteq> next \<longrightarrow> on_runqueue p s' = on_runqueue p s) \<and> (\<forall>p. magic (tasks s' p) = magic (tasks s p))"
proof (cases "c \<noteq> 0 \<and> \<not> active (g_cpu_state s c)")
  case True
  then show ?thesis using I by (simp add: pick_next_def set_intr_inv)
next
  case act: False
  have len: "run_queue_length (g_cpu_state s c) = int (length (rq s c))"
    using I c by (simp add: sched_inv_def queues_ok_def)
  define fin where "fin t = (if intr_disabled (g_cpu_state t c) \<and> c \<noteq> 0 \<and> active (g_cpu_state t c)
      then upd_cpu c (\<lambda>c. c\<lparr>intr_disabled := False\<rparr>) t else t)" for t
  have fin: "sched_inv (fin t) = sched_inv t" "parked p (fin t) = parked p t" "tasks (fin t) = tasks t"
    "on_runqueue p (fin t) = on_runqueue p t" "same_tasks s (fin t) = same_tasks s t" for p t
    by (simp_all add: fin_def set_intr_inv)
  show ?thesis
  proof (cases "rq s c")
    case Nil
    then have "pick_next c s = Some (0, fin s)"
      unfolding pick_next_def if_not_P [OF act] fin_def using len by (simp add: del_from_runqueue_def)
    then show ?thesis using I by (auto simp: fin)
  next
    case (Cons p ps)
    note deq = dequeue_inv [OF I c Cons]
    have p0: "p \<noteq> 0" using deq(2) by (simp add: parked_def)
    have del: "del_from_runqueue (- 99) c s = Some (p, dequeue c s)"
      using Cons len p0 by (simp add: del_from_runqueue_def dequeue_def upd_cpu_def)
    have onp: "on_runqueue p s" using c Cons by (auto simp: on_runqueue_iff)
    have other: "on_runqueue q (dequeue c s) = on_runqueue q s" if "q \<noteq> p" for q
      using that Cons by (auto simp: on_runqueue_iff split: if_splits)
    let ?st = "stick_to_cpu (tasks s p)"
    show ?thesis
    proof (cases "?st \<noteq> NO_CPU \<and> ?st \<noteq> c")
      case False
      then have "pick_next c s = Some (p, fin (dequeue c s))"
        unfolding pick_next_def if_not_P [OF act] del fin_def using p0 by auto
      moreover have "same_tasks s (dequeue c s)" by (simp add: same_tasks_def)
      ultimately show ?thesis using deq other by (auto simp: fin)
    next
      case True
      let ?t = "upd_task p (\<lambda>t. t\<lparr>allocated_cpu := stick_to_cpu t\<rparr>) (dequeue c s)"
      have t: "?t = upd_task p (\<lambda>t. t\<lparr>allocated_cpu := ?st\<rparr>) (dequeue c s)" by (simp add: upd_task_def)
      have st: "?st < MAX_CPUS" using I True by (auto simp: sched_inv_def cpus_valid_def)
      have parked: "parked p ?t" unfolding t using deq(2) by simp
      then obtain n where "add_to_runqueue p (- 99) c ?t = Some (n, enqueue p c ?t)"
        using add_to_runqueue_here by blast
      then have "pick_next c s = Some (0, fin (enqueue p c ?t))"
        unfolding pick_next_def if_not_P [OF act] del fin_def using p0 True by simp
      moreover have "sched_inv (enqueue p c ?t)"
        using enqueue_inv [OF _ c parked] upd_allocated_inv [OF deq(1) st] unfolding t by simp
      moreover have "same_tasks s (enqueue p c ?t)" using deq(3) by (auto simp: same_tasks_def)
      moreover have "on_runqueue q (enqueue p c ?t) = on_runqueue q s" for q
        using c other [of q] onp by (cases "q = p") simp_all
      ultimately show ?thesis by (auto simp: fin)
    qed
  qed
qed

text \<open>
  What a switch does: \<open>prev\<close> claims no cpu any more and goes to the end of the queue when it is
  still runnable and not the idle task; \<open>next\<close> is current.
\<close>

definition requeued :: "nat \<Rightarrow> nat \<Rightarrow> sched \<Rightarrow> bool" where
  "requeued prev c s \<longleftrightarrow> prev \<noteq> idle_task (g_cpu_state s c) \<and> state (tasks s prev) = TASK_RUNNING"

definition switched :: "nat \<Rightarrow> nat \<Rightarrow> nat \<Rightarrow> sched \<Rightarrow> sched \<Rightarrow> bool" where
  "switched prev next c s s' \<longleftrightarrow>
     cur s' = (cur s)(c := next)
   \<and> (\<forall>d. rq s' d = rq s d @ (if d = c \<and> requeued prev c s then [prev] else []))
   \<and> (\<forall>d. run_queue_length (g_cpu_state s' d) =
        run_queue_length (g_cpu_state s d) + (if d = c \<and> requeued prev c s then 1 else 0))
   \<and> (\<forall>d. idle_task (g_cpu_state s' d) = idle_task (g_cpu_state s d) \<and> active (g_cpu_state s' d) = active (g_cpu_state s d))
   \<and> (\<forall>p. current_cpu (tasks s' p) = (if p = next then c else if p = prev then NO_CPU else current_cpu (tasks s p)))
   \<and> (\<forall>p. state (tasks s' p) = state (tasks s p) \<and> magic (tasks s' p) = magic (tasks s p)
        \<and> allocated_cpu (tasks s' p) = allocated_cpu (tasks s p) \<and> stick_to_cpu (tasks s' p) = stick_to_cpu (tasks s p)
        \<and> sleep_ticks (tasks s' p) = sleep_ticks (tasks s p))"

lemma on_runqueue_rq: "(\<And>c. rq s' c = rq s c) \<Longrightarrow> on_runqueue p s' = on_runqueue p s"
  by (simp add: on_runqueue_def)

lemma switch_task_ok:
  assumes I: "sched_inv s" and c: "c < MAX_CPUS" and prev: "prev = cur s c" and n: "next \<noteq> prev"
  shows "\<exists>s'. switch_task prev next c s = Some s' \<and> switched prev next c s s'"
proof -
  have m: "magic (tasks s prev)" and nq: "\<not> on_runqueue prev s"
    using I c cur_not_queued [OF I c] by (auto simp: prev sched_inv_def current_ok_def)
  have dead: "TASK_DEAD \<noteq> TASK_RUNNING" by (simp add: task_states)
  define s1 where "s1 = (if next \<noteq> idle_task (g_cpu_state s c)
    then upd_cpu c (\<lambda>c. c\<lparr>nonidle_contexts := nonidle_contexts c + 1\<rparr>) s else s)"
  have s1: "rq s1 d = rq s d" "run_queue_length (g_cpu_state s1 d) = run_queue_length (g_cpu_state s d)"
    "idle_task (g_cpu_state s1 d) = idle_task (g_cpu_state s d)" "active (g_cpu_state s1 d) = active (g_cpu_state s d)"
    "tasks s1 = tasks s" "cur s1 = cur s" for d
    by (simp_all add: s1_def)
  have nq1: "\<not> on_runqueue prev s1" using nq on_runqueue_rq [of s1 s] s1(1) by simp
  show ?thesis
  proof (cases "requeued prev c s")
    case True
    then show ?thesis
      using n m nq1 dead unfolding switch_task_def s1_def [symmetric] Let_def
      by (simp add: add_to_runqueue_def requeued_def s1 Let_def switched_def)
  next
    case False
    then show ?thesis
      using n m dead unfolding switch_task_def s1_def [symmetric] Let_def
      by (auto simp: requeued_def s1 switched_def)
  qed
qed

lemma sched_invD:
  assumes "sched_inv s" "c < MAX_CPUS"
  shows "distinct (rq s c)" "0 \<notin> set (rq s c)" "run_queue_length (g_cpu_state s c) = int (length (rq s c))"
    "cur s c \<noteq> 0" "current_cpu (tasks s (cur s c)) = c" "magic (tasks s (cur s c))"
    "idle_task (g_cpu_state s c) \<noteq> 0" "state (tasks s (idle_task (g_cpu_state s c))) = TASK_RUNNING"
    "magic (tasks s (idle_task (g_cpu_state s c)))" "current_cpu (tasks s p) = c \<Longrightarrow> p = cur s c"
    "d < MAX_CPUS \<Longrightarrow> cur s d = idle_task (g_cpu_state s c) \<Longrightarrow> c = d"
    "d < MAX_CPUS \<Longrightarrow> idle_task (g_cpu_state s c) = idle_task (g_cpu_state s d) \<Longrightarrow> c = d"
    "d < MAX_CPUS \<Longrightarrow> c \<noteq> d \<Longrightarrow> set (rq s c) \<inter> set (rq s d) = {}"
proof -
  have Q: "queues_ok s" and C: "current_ok s" and D: "idle_ok s" using assms(1) by (simp_all add: sched_inv_def)
  show "distinct (rq s c)" "0 \<notin> set (rq s c)" "run_queue_length (g_cpu_state s c) = int (length (rq s c))"
    "d < MAX_CPUS \<Longrightarrow> c \<noteq> d \<Longrightarrow> set (rq s c) \<inter> set (rq s d) = {}"
    using Q assms(2) by (auto simp: queues_ok_def)
  show "cur s c \<noteq> 0" "current_cpu (tasks s (cur s c)) = c" "magic (tasks s (cur s c))"
    "current_cpu (tasks s p) = c \<Longrightarrow> p = cur s c"
    using C assms(2) by (auto simp: current_ok_def)
  show "idle_task (g_cpu_state s c) \<noteq> 0" "state (tasks s (idle_task (g_cpu_state s c))) = TASK_RUNNING"
    "magic (tasks s (idle_task (g_cpu_state s c)))"
    "d < MAX_CPUS \<Longrightarrow> cur s d = idle_task (g_cpu_state s c) \<Longrightarrow> c = d"
    "d < MAX_CPUS \<Longrightarrow> idle_task (g_cpu_state s c) = idle_task (g_cpu_state s d) \<Longrightarrow> c = d"
    using D assms(2) by (auto simp: idle_ok_def)
qed

lemma queuedD:
  assumes "sched_inv s" "on_runqueue p s"
  shows "state (tasks s p) = TASK_RUNNING" "current_cpu (tasks s p) = NO_CPU" "magic (tasks s p)" "\<not> is_idle p s"
  using assms by (auto simp: sched_inv_def queued_ok_def)

lemma NO_CPU_range: "\<not> NO_CPU < MAX_CPUS"
  by (simp add: NO_CPU_def MAX_CPUS_def)

lemma switched_inv:
  assumes I: "sched_inv s" and c: "c < MAX_CPUS" and prev: "prev = cur s c" and n: "next \<noteq> prev"
    and nx: "next = idle_task (g_cpu_state s c) \<or> parked next s" and sw: "switched prev next c s s'"
  shows "sched_inv s'"
proof -
  have rq: "rq s' d = rq s d @ (if d = c \<and> requeued prev c s then [prev] else [])"
    and len: "run_queue_length (g_cpu_state s' d) =
      run_queue_length (g_cpu_state s d) + (if d = c \<and> requeued prev c s then 1 else 0)"
    and idle: "idle_task (g_cpu_state s' d) = idle_task (g_cpu_state s d)"
    and cc: "current_cpu (tasks s' p) = (if p = next then c else if p = prev then NO_CPU else current_cpu (tasks s p))"
    and tk: "state (tasks s' p) = state (tasks s p)" "magic (tasks s' p) = magic (tasks s p)"
      "allocated_cpu (tasks s' p) = allocated_cpu (tasks s p)" "stick_to_cpu (tasks s' p) = stick_to_cpu (tasks s p)"
    and cu: "cur s' = (cur s)(c := next)" for d p
    using sw by (auto simp: switched_def)
  have nq: "\<not> on_runqueue prev s" using cur_not_queued [OF I c] prev by simp
  have on: "on_runqueue p s' \<longleftrightarrow> on_runqueue p s \<or> p = prev \<and> requeued prev c s" for p
    using c by (auto simp: on_runqueue_iff rq)
  have ii: "is_idle p s' = is_idle p s" for p by (simp add: is_idle_def idle)
  have nn: "next \<noteq> 0" "magic (tasks s next)"
    using nx sched_invD(7,9) [OF I c] by (auto simp: parked_def)
  have nf: "\<not> on_runqueue next s" using nx queuedD(4) [OF I] c by (auto simp: parked_def is_idle_def)
  have pd: "cur s d \<noteq> prev" "cur s d \<noteq> next" if "d < MAX_CPUS" "d \<noteq> c" for d
  proof -
    show "cur s d \<noteq> prev" using that sched_invD(5) [OF I] c prev by metis
    show "cur s d \<noteq> next"
      using nx that sched_invD(5) [OF I that(1)] sched_invD(11) [OF I c that(1)] NO_CPU_range
      by (auto simp: parked_def)
  qed
  have "queues_ok s'"
  proof -
    have np: "prev \<notin> set (rq s d)" if "d < MAX_CPUS" for d using nq that by (auto simp: on_runqueue_iff)
    have "set (rq s' a) \<inter> set (rq s' b) = {}" if "a < MAX_CPUS" "b < MAX_CPUS" "a \<noteq> b" for a b
      using sched_invD(13) [OF I that] np that by (auto simp: rq)
    then show ?thesis
      using sched_invD(1,2,3) [OF I] sched_invD(4) [OF I c] np prev
      unfolding queues_ok_def by (auto simp: rq len)
  qed
  moreover have "queued_ok s'"
  proof -
    have "\<not> is_idle prev s" if "requeued prev c s"
      using that sched_invD(11) [OF I _ c] prev unfolding is_idle_def requeued_def by metis
    then show ?thesis
      unfolding queued_ok_def on ii using queuedD [OF I] nq nf n sched_invD(6) [OF I c] prev
      by (auto simp: cc tk requeued_def)
  qed
  moreover have "current_ok s'"
    unfolding current_ok_def
  proof (intro conjI allI impI)
    fix d assume d: "d < MAX_CPUS"
    show "cur s' d \<noteq> 0" "magic (tasks s' (cur s' d))"
      using sched_invD(4,6) [OF I d] nn by (simp_all add: cu tk)
    show "current_cpu (tasks s' (cur s' d)) = d" using pd [OF d] sched_invD(5) [OF I d] by (simp add: cu cc)
    show "p = cur s' d" if "current_cpu (tasks s' p) = d" for p
      using that sched_invD(10) [OF I d, of p] NO_CPU_range d n prev by (auto simp: cc cu split: if_splits)
  qed
  moreover have "idle_ok s'"
  proof -
    have ne: "e = c" if "e < MAX_CPUS" "next = idle_task (g_cpu_state s e)" for e
      using nx that sched_invD(12) [OF I c that(1)] by (auto simp: parked_def is_idle_def)
    show ?thesis
      unfolding idle_ok_def
    proof (intro conjI allI impI)
      fix a b assume ab: "a < MAX_CPUS" "b < MAX_CPUS"
      show "a = b" if "cur s' b = idle_task (g_cpu_state s' a)"
        using that ne [OF ab(1)] sched_invD(11) [OF I ab] by (cases "b = c") (simp_all add: cu idle)
      show "a = b" if "idle_task (g_cpu_state s' a) = idle_task (g_cpu_state s' b)"
        using that sched_invD(12) [OF I ab] by (simp add: idle)
    qed (use sched_invD(7,8,9) [OF I] in \<open>simp_all add: idle tk\<close>)
  qed
  moreover have "cpus_valid s'" using I by (simp add: sched_inv_def cpus_valid_def tk)
  ultimately show ?thesis by (simp add: sched_inv_def)
qed

text \<open>
  What a call of \<open>_schedule\<close> leaves alone: no state and no sleep time changes, a parked task that is
  not runnable stays parked, and a current task that is not runnable is parked.
\<close>

definition sched_post :: "nat \<Rightarrow> sched \<Rightarrow> sched \<Rightarrow> bool" where
  "sched_post c s s' \<longleftrightarrow>
     (\<forall>p. state (tasks s' p) = state (tasks s p) \<and> sleep_ticks (tasks s' p) = sleep_ticks (tasks s p))
   \<and> (\<forall>p. is_idle p s' = is_idle p s)
   \<and> (\<forall>p. state (tasks s p) \<noteq> TASK_RUNNING \<longrightarrow> parked p s \<longrightarrow> parked p s')
   \<and> (state (tasks s (cur s c)) \<noteq> TASK_RUNNING \<longrightarrow> state (tasks s (cur s c)) AND TASK_NONPREEMPTIVE = 0 \<longrightarrow>
        parked (cur s c) s')"

lemma switched_post:
  assumes I: "sched_inv s" and c: "c < MAX_CPUS" and prev: "prev = cur s c" and n: "next \<noteq> prev"
    and nx: "next = idle_task (g_cpu_state s c) \<or> parked next s \<and> state (tasks s next) = TASK_RUNNING"
    and sw: "switched prev next c s s'"
  shows "sched_post c s s'"
proof -
  have on: "on_runqueue p s' \<longleftrightarrow> on_runqueue p s \<or> p = prev \<and> requeued prev c s" for p
    using c sw by (auto simp: on_runqueue_iff switched_def)
  have ii: "is_idle p s' = is_idle p s" for p using sw by (simp add: is_idle_def switched_def)
  have other: "p \<noteq> next" if "state (tasks s p) \<noteq> TASK_RUNNING" for p
    using nx that sched_invD(8) [OF I c] by auto
  have np: "\<not> is_idle prev s" if "state (tasks s prev) \<noteq> TASK_RUNNING"
    using that sched_invD(8) [OF I] by (auto simp: is_idle_def)
  show ?thesis
    using sw other np ii on sched_invD(4,6) [OF I c] cur_not_queued [OF I c] prev
    by (auto simp: sched_post_def switched_def parked_def requeued_def)
qed

lemma same_tasks_post:
  assumes "sched_inv s" "sched_inv s1" "c < MAX_CPUS" "same_tasks s s1"
    and "\<And>p. state (tasks s p) \<noteq> TASK_RUNNING \<Longrightarrow> parked p s \<Longrightarrow> parked p s1" "sched_post c s1 s'"
  shows "sched_post c s s'"
  using assms(4-) same_tasks_idle [OF assms(4)] unfolding sched_post_def by (auto simp: same_tasks_def)

lemma schedule_ok:
  assumes I: "sched_inv s" and c: "c < MAX_CPUS"
  shows "\<exists>s'. schedule c s = Some s' \<and> sched_inv s' \<and> sched_post c s s'"
proof (cases "state (tasks s (cur s c)) AND TASK_NONPREEMPTIVE = 0")
  case False
  then show ?thesis using I by (simp add: schedule_def sched_post_def)
next
  case True
  obtain n s1 where p: "pick_next c s = Some (n, s1)" "sched_inv s1" "same_tasks s s1"
    "n = 0 \<or> n = idle_task (g_cpu_state s1 c) \<or> parked n s1 \<and> state (tasks s1 n) = TASK_RUNNING"
    "\<forall>p. p \<noteq> n \<longrightarrow> on_runqueue p s1 = on_runqueue p s" "\<forall>p. magic (tasks s1 p) = magic (tasks s p)"
    using pick_next_ok [OF I c] by blast
  have cur: "cur s1 c = cur s c" using p(3) by (simp add: same_tasks_def)
  have park: "parked q s1" if "state (tasks s q) \<noteq> TASK_RUNNING" "parked q s" for q
  proof -
    have "\<not> on_runqueue q s1"
      using that p(3,4,5) same_tasks_idle [OF p(3), of q] c
      by (cases "q = n") (auto simp: parked_def same_tasks_def is_idle_def)
    then show ?thesis
      using that p(3,6) same_tasks_idle [OF p(3)] by (auto simp: parked_def same_tasks_def)
  qed
  note lift = same_tasks_post [OF I p(2) c p(3) park]
  define n2 where "n2 = (let next = (if n = 0 \<and> state (tasks s1 (cur s c)) \<noteq> TASK_RUNNING
      then idle_task (g_cpu_state s1 c) else n) in if next = 0 then cur s c else next)"
  have run: "schedule c s = (if cur s c = n2 then do { kassert (state (tasks s1 (cur s c)) = TASK_RUNNING); Some s1 }
      else switch_task (cur s c) n2 c s1)"
    using True p(1) by (simp add: schedule_def n2_def Let_def)
  show ?thesis
  proof (cases "cur s c = n2")
    case same: True
    have r: "state (tasks s1 (cur s c)) = TASK_RUNNING"
    proof (rule ccontr)
      assume a: "state (tasks s1 (cur s c)) \<noteq> TASK_RUNNING"
      then have "n2 = idle_task (g_cpu_state s1 c) \<or> parked n2 s1"
        using p(4) sched_invD(7) [OF p(2) c] by (auto simp: n2_def parked_def Let_def)
      then show False
        using a same cur sched_invD(5,8) [OF p(2) c] NO_CPU_range c by (auto simp: parked_def)
    qed
    then have "sched_post c s1 s1" using cur by (simp add: sched_post_def)
    then show ?thesis using run same p(2) r lift by simp
  next
    case False
    then have nx: "n2 = idle_task (g_cpu_state s1 c) \<or> parked n2 s1 \<and> state (tasks s1 n2) = TASK_RUNNING"
      using p(4) by (auto simp: n2_def Let_def split: if_splits)
    obtain s' where s': "switch_task (cur s c) n2 c s1 = Some s'" "switched (cur s c) n2 c s1 s'"
      using switch_task_ok [OF p(2) c cur [symmetric]] False by metis
    have "sched_inv s'" using switched_inv [OF p(2) c cur [symmetric] _ _ s'(2)] nx False by auto
    moreover have "sched_post c s1 s'"
      using switched_post [OF p(2) c cur [symmetric] _ nx s'(2)] False by auto
    ultimately show ?thesis using run False s'(1) lift by auto
  qed
qed

lemma set_idle_state_inv:
  "sched_inv ((upd_cpu c (\<lambda>c. c\<lparr>idle_state := b\<rparr>) s)\<lparr>g_stat_idle_errs := e\<rparr>) = sched_inv s"
  by (rule sched_frame) simp_all

lemma sc_schedule_ok:
  assumes I: "sched_inv s" and c: "c < MAX_CPUS"
  shows "\<exists>s'. sc_schedule c s = Some s' \<and> sched_inv s' \<and> sched_post c s s'"
proof -
  define s1 where "s1 = (if idle_state (g_cpu_state s c)
    then (upd_cpu c (\<lambda>c. c\<lparr>idle_state := False\<rparr>) s)\<lparr>g_stat_idle_errs := g_stat_idle_errs s + 1\<rparr> else s)"
  have I1: "sched_inv s1" using I by (simp add: s1_def set_idle_state_inv)
  have "sc_schedule c s = schedule c s1"
    using sched_invD(4,5,6) [OF I1 c] by (simp add: sc_schedule_def flip: s1_def)
  moreover have "parked p s1 = parked p s" "is_idle p s1 = is_idle p s" for p
    by (rule sched_frame; simp add: s1_def)+
  then have "sched_post c s1 s' = sched_post c s s'" for s'
    unfolding sched_post_def by (simp add: s1_def)
  ultimately show ?thesis using schedule_ok [OF I1 c] by simp
qed

end
