(* ===== verification/Wait_Queue.thy ===== *)
theory Wait_Queue
  imports Sched
begin

text \<open>
  Wait queues of kernel/ipc.cc. A wait queue is a delta list: the \<open>sleep_ticks\<close> of a task count from
  the deadline of the task before it, so that the timer only has to decrement the first entry.
  The scheduler state is a field of the state here; inter-processor interrupts are recorded in
  the order in which they are sent.
\<close>

section \<open>State\<close>

definition MAX_WAIT_QUEUES :: nat where "MAX_WAIT_QUEUES = 500"
definition WAIT_QUEUE_WAKEUP_ONE :: u64 where "WAIT_QUEUE_WAKEUP_ONE = 1"

record waitq =
  wq_tasks :: "nat list"
  wq_flags :: u64
  used_for :: nat
  stat_wait_count :: u64
  stat_wait_ticks :: u64
  stat_wakeon_samecpu :: u64

record kern =
  sch :: sched
  wait_queues :: "nat \<Rightarrow> waitq option"
  maxcpus :: nat
  ipis :: "nat list"
  g_stat_timeout_wakeups :: u64
  g_stat_async_wakeups :: u64
  g_stat_idle_busy :: u64

definition set_wq :: "nat \<Rightarrow> waitq \<Rightarrow> kern \<Rightarrow> kern" where
  "set_wq i w k = k\<lparr>wait_queues := (wait_queues k)(i \<mapsto> w)\<rparr>"

definition set_sleep :: "(nat \<Rightarrow> int) \<Rightarrow> sched \<Rightarrow> sched" where
  "set_sleep sl s = s\<lparr>tasks := (\<lambda>p. (tasks s p)\<lparr>sleep_ticks := sl p\<rparr>)\<rparr>"

abbreviation sleep_of :: "sched \<Rightarrow> nat \<Rightarrow> int" where "sleep_of s \<equiv> \<lambda>p. sleep_ticks (tasks s p)"

section \<open>The delta list\<close>

text \<open>
  \<open>_add_to_me\<close>: walk to the first task whose accumulated ticks exceed \<open>ticks\<close>, link the new task
  before it and take its share off that task; at the end of the list it is appended.
\<close>

fun insert_ticks :: "(nat \<Rightarrow> int) \<Rightarrow> nat \<Rightarrow> int \<Rightarrow> int \<Rightarrow> nat list \<Rightarrow> nat list \<times> (nat \<Rightarrow> int)" where
  "insert_ticks sl p ticks cum_ticks [] = ([p], sl(p := ticks - cum_ticks))"
| "insert_ticks sl p ticks cum_ticks (t # ts) =
     (let prev_cum_ticks = cum_ticks; cum_ticks = cum_ticks + sl t in
      if cum_ticks > ticks then
        let sl = sl(p := ticks - prev_cum_ticks) in (p # t # ts, sl(t := sl t - sl p))
      else let (ts, sl) = insert_ticks sl p ticks cum_ticks ts in (t # ts, sl))"

text \<open>\<open>_del_from_me\<close>: the ticks of the task go to its successor.\<close>

fun delete_ticks :: "(nat \<Rightarrow> int) \<Rightarrow> nat \<Rightarrow> nat list \<Rightarrow> (nat list \<times> (nat \<Rightarrow> int)) option" where
  "delete_ticks sl p [] = None"
| "delete_ticks sl p (t # ts) =
     (if p = t then
        Some (ts, (case ts of [] \<Rightarrow> sl | n # _ \<Rightarrow> sl(n := sl n + sl p))(p := 0))
      else map_option (\<lambda>(ts, sl). (t # ts, sl)) (delete_ticks sl p ts))"

definition add_to_me :: "nat \<Rightarrow> nat \<Rightarrow> int \<Rightarrow> nat \<Rightarrow> kern \<Rightarrow> kern option" where
  "add_to_me i p ticks my_cpuid k = do {
     w \<leftarrow> wait_queues k i;
     kassert (p \<noteq> idle_task (g_cpu_state (sch k) my_cpuid));
     let (ts, sl) = insert_ticks (sleep_of (sch k)) p ticks 0 (wq_tasks w);
     Some ((set_wq i (w\<lparr>wq_tasks := ts\<rparr>) k)\<lparr>sch := set_sleep sl (sch k)\<rparr>) }"

definition del_from_me :: "nat \<Rightarrow> nat \<Rightarrow> kern \<Rightarrow> (int \<times> kern) option" where
  "del_from_me i p k = do {
     w \<leftarrow> wait_queues k i;
     if p = 0 then Some (JFAIL, k)
     else case delete_ticks (sleep_of (sch k)) p (wq_tasks w) of
       None \<Rightarrow> Some (JFAIL, k)
     | Some (ts, sl) \<Rightarrow> Some (JSUCCESS, (set_wq i (w\<lparr>wq_tasks := ts\<rparr>) k)\<lparr>sch := set_sleep sl (sch k)\<rparr>) }"

section \<open>Registering\<close>

fun first_free :: "nat \<Rightarrow> nat \<Rightarrow> (nat \<Rightarrow> 'a option) \<Rightarrow> nat option" where
  "first_free 0 i m = None"
| "first_free (Suc n) i m = (if m i = None then Some i else first_free n (i + 1) m)"

definition wait_queue_new :: "u64 \<Rightarrow> kern \<Rightarrow> nat option \<times> kern" where
  "wait_queue_new arg_flags k = (case first_free MAX_WAIT_QUEUES 0 (wait_queues k) of
     None \<Rightarrow> (None, k)
   | Some i \<Rightarrow> (Some i, set_wq i \<lparr>wq_tasks = [], wq_flags = arg_flags, used_for = 0,
       stat_wait_count = 0, stat_wait_ticks = 0, stat_wakeon_samecpu = 0\<rparr> k))"

definition wait_queue_unregister :: "nat \<Rightarrow> kern \<Rightarrow> kern" where
  "wait_queue_unregister i k = k\<lparr>wait_queues := (wait_queues k)(i := None)\<rparr>"

section \<open>Waking up\<close>

definition wakeup_one_cpu :: "nat \<Rightarrow> nat \<Rightarrow> kern \<Rightarrow> int \<times> kern" where
  "wakeup_one_cpu wakeup_cpu my_cpuid k =
     (let s = sch k; g = g_cpu_state s wakeup_cpu in
      if current_cpu (tasks s (cur s my_cpuid)) = wakeup_cpu then (0, k)
      else if idle_state g then (1, k\<lparr>ipis := ipis k @ [wakeup_cpu]\<rparr>)
      else (0, if cur s wakeup_cpu = idle_task g then k\<lparr>g_stat_idle_busy := g_stat_idle_busy k + 1\<rparr> else k))"

definition wakeup_cpus :: "int \<Rightarrow> nat \<Rightarrow> kern \<Rightarrow> int \<times> kern" where
  "wakeup_cpus wakeup_cpu my_cpuid k =
     (if wakeup_cpu \<noteq> - 1 then wakeup_one_cpu (nat wakeup_cpu) my_cpuid k
      else let s = sch k;
               cs = filter (\<lambda>i. current_cpu (tasks s (cur s my_cpuid)) \<noteq> i \<and> idle_state (g_cpu_state s i)
                                \<and> active (g_cpu_state s i)) [0 ..< maxcpus k]
           in (int (length cs), k\<lparr>ipis := ipis k @ cs\<rparr>))"

text \<open>
  Taking the first task off a queue and making it runnable, with the global lock held. A first
  task that \<open>_del_from_me\<close> does not find would make \<open>wakeup\<close> spin for ever.
\<close>

definition wake_first :: "nat \<Rightarrow> nat \<Rightarrow> kern \<Rightarrow> (bool \<times> nat \<times> kern) option" where
  "wake_first i my_cpuid k = do {
     w \<leftarrow> wait_queues k i;
     let p = hd (wq_tasks w);
     (r, k) \<leftarrow> del_from_me i p k;
     kassert (r = JSUCCESS);
     kassert (\<not> on_runqueue p (sch k));
     (here, s) \<leftarrow> sc_task_assign_to_cpu p my_cpuid (sch k);
     Some (here, allocated_cpu (tasks s p), k\<lparr>sch := s\<rparr>) }"

partial_function (option) wakeup_loop :: "nat \<Rightarrow> nat \<Rightarrow> int \<Rightarrow> kern \<Rightarrow> (int \<times> kern) option" where
  "wakeup_loop i my_cpuid ret k = do {
     w \<leftarrow> wait_queues k i;
     if wq_tasks w = [] then Some (ret, k)
     else do {
       (here, wakeup_cpu, k) \<leftarrow> wake_first i my_cpuid k;
       let ret = ret + 1;
       let k = (if here then k
                else snd (wakeup_cpus (int wakeup_cpu) my_cpuid
                            (k\<lparr>g_stat_async_wakeups := g_stat_async_wakeups k + 1\<rparr>)));
       if wq_flags w AND WAIT_QUEUE_WAKEUP_ONE \<noteq> 0 then Some (ret, k)
       else wakeup_loop i my_cpuid ret k } }"

definition wakeup :: "nat \<Rightarrow> nat \<Rightarrow> kern \<Rightarrow> (int \<times> kern) option" where
  "wakeup i my_cpuid k = wakeup_loop i my_cpuid 0 k"

text \<open>
  The timer side: on every tick the first task of every queue loses one tick, and is woken when
  none is left.
\<close>

definition check_waitqueue :: "nat \<Rightarrow> nat \<Rightarrow> kern \<Rightarrow> kern option" where
  "check_waitqueue i my_cpuid k = (case wait_queues k i of
     None \<Rightarrow> Some k
   | Some w \<Rightarrow>
       if wq_tasks w = [] then Some k
       else do {
         let p = hd (wq_tasks w);
         kassert (p \<noteq> 0);
         let k = k\<lparr>sch := upd_task p (\<lambda>t. t\<lparr>sleep_ticks := sleep_ticks t - 1\<rparr>) (sch k)\<rparr>;
         if sleep_ticks (tasks (sch k) p) \<le> 0 then do {
           (here, wakeup_cpu, k) \<leftarrow> wake_first i my_cpuid k;
           if here then do {
             w \<leftarrow> wait_queues k i;
             Some (set_wq i (w\<lparr>stat_wakeon_samecpu := stat_wakeon_samecpu w + 1\<rparr>) k) }
           else Some (snd (wakeup_cpus (int wakeup_cpu) my_cpuid
                             (k\<lparr>g_stat_timeout_wakeups := g_stat_timeout_wakeups k + 1\<rparr>))) }
         else Some k })"

fun check_from :: "nat \<Rightarrow> nat \<Rightarrow> nat \<Rightarrow> kern \<Rightarrow> kern option" where
  "check_from 0 i my_cpuid k = Some k"
| "check_from (Suc n) i my_cpuid k = do { k \<leftarrow> check_waitqueue i my_cpuid k; check_from n (i + 1) my_cpuid k }"

definition ipc_check_waitqueues :: "nat \<Rightarrow> kern \<Rightarrow> kern option" where
  "ipc_check_waitqueues my_cpuid k = check_from MAX_WAIT_QUEUES 0 my_cpuid k"

section \<open>Waiting\<close>

text \<open>
  \<open>wait_internal\<close> up to the point where the task gives up the cpu (the global lock is held until
  then), and what the call returns once the task runs again.
\<close>

definition wait_internal :: "nat \<Rightarrow> int \<Rightarrow> nat \<Rightarrow> kern \<Rightarrow> kern option" where
  "wait_internal i ticks my_cpuid k = do {
     let p = cur (sch k) my_cpuid;
     kassert (state (tasks (sch k) p) \<noteq> TASK_NONPREEMPTIVE);
     let k = k\<lparr>sch := upd_task p (\<lambda>t. t\<lparr>state := TASK_INTERRUPTIBLE\<rparr>) (sch k)\<rparr>;
     w \<leftarrow> wait_queues k i;
     let k = set_wq i (w\<lparr>stat_wait_count := stat_wait_count w + 1\<rparr>) k;
     k \<leftarrow> add_to_me i p ticks my_cpuid k;
     s \<leftarrow> sc_schedule my_cpuid (sch k);
     Some (k\<lparr>sch := s\<rparr>) }"

definition wait_result :: "nat \<Rightarrow> kern \<Rightarrow> int" where
  "wait_result p k = (let t = sleep_ticks (tasks (sch k) p) in if t \<le> 0 then 0 else t)"

text \<open>\<open>_ipc_delete_from_waitqueues\<close>: the task is taken off the first queue it is found on.\<close>

fun delete_from :: "nat \<Rightarrow> nat \<Rightarrow> nat \<Rightarrow> kern \<Rightarrow> kern option" where
  "delete_from 0 i p k = Some k"
| "delete_from (Suc n) i p k =
     (if wait_queues k i = None then delete_from n (i + 1) p k
      else do {
        (r, k) \<leftarrow> del_from_me i p k;
        if r = JFAIL then delete_from n (i + 1) p k else Some k })"

definition ipc_delete_from_waitqueues :: "nat \<Rightarrow> kern \<Rightarrow> kern option" where
  "ipc_delete_from_waitqueues p k = (if p = 0 then Some k else delete_from MAX_WAIT_QUEUES 0 p k)"

section \<open>Deadlines\<close>

text \<open>\<open>deadlines sl base ts\<close>: each task with the number of ticks after which it is due.\<close>

primrec deadlines :: "(nat \<Rightarrow> int) \<Rightarrow> int \<Rightarrow> nat list \<Rightarrow> (nat \<times> int) list" where
  "deadlines sl base [] = []"
| "deadlines sl base (t # ts) = (t, base + sl t) # deadlines sl (base + sl t) ts"

lemma deadlines_cong:
  "(\<And>t. t \<in> set ts \<Longrightarrow> sl t = sl' t) \<Longrightarrow> deadlines sl base ts = deadlines sl' base ts"
  by (induction ts arbitrary: base) auto

lemma map_fst_deadlines [simp]: "map fst (deadlines sl base ts) = ts"
  by (induction ts arbitrary: base) auto

lemma deadlines_shift:
  "deadlines sl (base + d) ts = map (\<lambda>(t, x). (t, x + d)) (deadlines sl base ts)"
proof (induction ts arbitrary: base)
  case (Cons t ts)
  show ?case using Cons.IH [of "base + sl t"] by (simp add: algebra_simps)
qed simp

lemma insert_ticks_deadlines:
  "p \<notin> set ts \<Longrightarrow> distinct ts \<Longrightarrow> insert_ticks sl p ticks base ts = (ts', sl') \<Longrightarrow>
   deadlines sl' base ts' =
     takeWhile (\<lambda>(t, d). d \<le> ticks) (deadlines sl base ts) @ (p, ticks) #
     dropWhile (\<lambda>(t, d). d \<le> ticks) (deadlines sl base ts) \<and> (\<forall>q. q \<notin> set (p # ts) \<longrightarrow> sl' q = sl q)"
proof (induction ts arbitrary: base ts' sl')
  case Nil
  then show ?case by auto
next
  case (Cons t ts)
  show ?case
  proof (cases "base + sl t > ticks")
    case True
    have "deadlines (sl(p := ticks - base, t := sl t - (ticks - base))) (base + sl t) ts
        = deadlines sl (base + sl t) ts"
      using Cons.prems by (intro deadlines_cong) auto
    then show ?thesis using True Cons.prems by (auto simp: Let_def fun_upd_def add.commute)
  next
    case False
    obtain ts1 sl1 where r: "insert_ticks sl p ticks (base + sl t) ts = (ts1, sl1)" by force
    have IH: "deadlines sl1 (base + sl t) ts1 =
        takeWhile (\<lambda>(t, d). d \<le> ticks) (deadlines sl (base + sl t) ts) @ (p, ticks) #
        dropWhile (\<lambda>(t, d). d \<le> ticks) (deadlines sl (base + sl t) ts)"
      "\<forall>q. q \<notin> set (p # ts) \<longrightarrow> sl1 q = sl q"
      using Cons.IH [OF _ _ r] Cons.prems by auto
    moreover have "sl1 t = sl t" using IH(2) Cons.prems by auto
    ultimately show ?thesis using False Cons.prems r by (auto simp: Let_def)
  qed
qed

lemma insert_ticks_set:
  "insert_ticks sl p ticks base ts = (ts', sl') \<Longrightarrow>
   set ts' = insert p (set ts) \<and> (distinct ts \<longrightarrow> p \<notin> set ts \<longrightarrow> distinct ts')"
  by (induction ts arbitrary: base ts' sl') (fastforce simp: Let_def split: if_splits prod.splits)+

lemma filter_deadlines:
  "p \<notin> set ts \<Longrightarrow> filter (\<lambda>(t, d). t \<noteq> p) (deadlines sl base ts) = deadlines sl base ts"
  by (induction ts arbitrary: base) auto

lemma delete_ticks_Some:
  "p \<in> set ts \<Longrightarrow> \<exists>ts' sl'. delete_ticks sl p ts = Some (ts', sl')"
  by (induction ts) auto

lemma delete_ticks_None: "p \<notin> set ts \<Longrightarrow> delete_ticks sl p ts = None"
  by (induction ts) auto

lemma delete_ticks_deadlines:
  "distinct ts \<Longrightarrow> delete_ticks sl p ts = Some (ts', sl') \<Longrightarrow>
   deadlines sl' base ts' = filter (\<lambda>(t, d). t \<noteq> p) (deadlines sl base ts) \<and> ts' = remove1 p ts
     \<and> (\<forall>q. q \<notin> set ts \<longrightarrow> sl' q = sl q) \<and> sl' p = 0"
proof (induction ts arbitrary: base ts')
  case Nil
  then show ?case by simp
next
  case (Cons t ts)
  show ?case
  proof (cases "p = t")
    case True
    have keep: "filter (\<lambda>(t, d). t \<noteq> p) (deadlines sl b ts) = deadlines sl b ts" for b
      using Cons.prems True by (intro filter_deadlines) auto
    show ?thesis
    proof (cases ts)
      case Nil
      then show ?thesis using Cons.prems True by auto
    next
      case (Cons n ns)
      let ?sl = "sl(n := sl n + sl p, p := 0)"
      have "deadlines ?sl (base + sl t + sl n) ns = deadlines sl (base + sl t + sl n) ns"
        using Cons.prems True Cons by (intro deadlines_cong) auto
      then show ?thesis using Cons.prems True Cons keep by (auto simp: algebra_simps fun_upd_def)
    qed
  next
    case False
    then obtain ts1 where r: "delete_ticks sl p ts = Some (ts1, sl')" "ts' = t # ts1"
      using Cons.prems by auto
    note IH = Cons.IH [of ts1 "base + sl t", OF _ r(1)]
    have "sl' t = sl t" using IH Cons.prems by auto
    then show ?thesis using IH Cons.prems r(2) False by auto
  qed
qed

section \<open>Invariant\<close>

text \<open>
  Every waiting task is parked and interruptible, and waits on one queue only; every queue is
  ordered by deadline; the scheduler's own invariant holds.
\<close>

definition waiting :: "nat \<Rightarrow> kern \<Rightarrow> bool" where
  "waiting p k \<longleftrightarrow> (\<exists>i w. wait_queues k i = Some w \<and> p \<in> set (wq_tasks w))"

definition queues_wf :: "(nat \<Rightarrow> waitq option) \<Rightarrow> bool" where
  "queues_wf q \<longleftrightarrow> (\<forall>i w. q i = Some w \<longrightarrow> i < MAX_WAIT_QUEUES \<and> distinct (wq_tasks w))
     \<and> (\<forall>i j v w. q i = Some v \<longrightarrow> q j = Some w \<longrightarrow> i \<noteq> j \<longrightarrow> set (wq_tasks v) \<inter> set (wq_tasks w) = {})"

definition asleep :: "nat \<Rightarrow> sched \<Rightarrow> bool" where
  "asleep p s \<longleftrightarrow> parked p s \<and> state (tasks s p) = TASK_INTERRUPTIBLE"

definition queue_deadlines :: "kern \<Rightarrow> nat \<Rightarrow> (nat \<times> int) list" where
  "queue_deadlines k i =
     deadlines (sleep_of (sch k)) 0 (case wait_queues k i of None \<Rightarrow> [] | Some w \<Rightarrow> wq_tasks w)"

definition kern_inv :: "kern \<Rightarrow> bool" where
  "kern_inv k \<longleftrightarrow> sched_inv (sch k) \<and> queues_wf (wait_queues k) \<and> (\<forall>p. waiting p k \<longrightarrow> asleep p (sch k))
     \<and> (\<forall>i. sorted (map snd (queue_deadlines k i)))"

lemma set_wq_sel [simp]:
  "sch (set_wq i w k) = sch k" "wait_queues (set_wq i w k) = (wait_queues k)(i \<mapsto> w)"
  "ipis (set_wq i w k) = ipis k" "maxcpus (set_wq i w k) = maxcpus k"
  by (simp_all add: set_wq_def)

lemma set_sleep_sel [simp]:
  "tasks (set_sleep sl s) p = (tasks s p)\<lparr>sleep_ticks := sl p\<rparr>" "g_cpu_state (set_sleep sl s) = g_cpu_state s"
  "cur (set_sleep sl s) = cur s"
  by (simp_all add: set_sleep_def)

text \<open>Sleep times play no part in the scheduler's invariant.\<close>

lemma same_but_sleep:
  assumes "\<And>p. \<exists>x. tasks s' p = (tasks s p)\<lparr>sleep_ticks := x\<rparr>" "g_cpu_state s' = g_cpu_state s" "cur s' = cur s"
  shows "sched_inv s' = sched_inv s" "parked p s' = parked p s" "asleep p s' = asleep p s"
    "on_runqueue p s' = on_runqueue p s"
proof -
  have t: "state (tasks s' q) = state (tasks s q)" "current_cpu (tasks s' q) = current_cpu (tasks s q)"
    "magic (tasks s' q) = magic (tasks s q)" "allocated_cpu (tasks s' q) = allocated_cpu (tasks s q)"
    "stick_to_cpu (tasks s' q) = stick_to_cpu (tasks s q)" for q
    using assms(1) [of q] by auto
  have der: "on_runqueue q s' = on_runqueue q s" "is_idle q s' = is_idle q s" for q
    unfolding on_runqueue_def is_idle_def assms by simp_all
  show "on_runqueue p s' = on_runqueue p s" by (rule der)
  show "sched_inv s' = sched_inv s" unfolding sched_inv_defs der t assms(2,3) by (rule refl)
  show "parked p s' = parked p s" "asleep p s' = asleep p s" unfolding asleep_def parked_def der t by (rule refl)+
qed

lemma set_sleep_inv [simp]:
  "sched_inv (set_sleep sl s) = sched_inv s" "parked p (set_sleep sl s) = parked p s"
  "asleep p (set_sleep sl s) = asleep p s" "on_runqueue p (set_sleep sl s) = on_runqueue p s"
  by (rule same_but_sleep; auto)+

lemma upd_sleep_record:
  "\<exists>x. tasks (upd_task p (\<lambda>t. t\<lparr>sleep_ticks := f t\<rparr>) s) q = (tasks s q)\<lparr>sleep_ticks := x\<rparr>"
  by (rule exI [of _ "if q = p then f (tasks s p) else sleep_ticks (tasks s q)"]) simp

lemma upd_sleep_inv [simp]:
  "sched_inv (upd_task p (\<lambda>t. t\<lparr>sleep_ticks := f t\<rparr>) s) = sched_inv s"
  "asleep q (upd_task p (\<lambda>t. t\<lparr>sleep_ticks := f t\<rparr>) s) = asleep q s"
  by (rule same_but_sleep; (rule upd_sleep_record)?; simp)+

lemma queues_wfD:
  assumes "queues_wf q" "q i = Some v"
  shows "distinct (wq_tasks v)" "q j = Some w \<Longrightarrow> i \<noteq> j \<Longrightarrow> set (wq_tasks v) \<inter> set (wq_tasks w) = {}"
    "i < MAX_WAIT_QUEUES"
  using assms by (auto simp: queues_wf_def)

lemma queues_wf_upd:
  assumes wf: "queues_wf q" and "distinct (wq_tasks w)" and "i < MAX_WAIT_QUEUES"
    and "\<And>j v. j \<noteq> i \<Longrightarrow> q j = Some v \<Longrightarrow> set (wq_tasks w) \<inter> set (wq_tasks v) = {}"
  shows "queues_wf (q(i \<mapsto> w))"
  using assms unfolding queues_wf_def by (auto split: if_splits)

lemma queues_wf_shrink:
  assumes wf: "queues_wf q" "q i = Some v" and "distinct (wq_tasks w)" "set (wq_tasks w) \<subseteq> set (wq_tasks v)"
  shows "queues_wf (q(i \<mapsto> w))"
proof (rule queues_wf_upd [OF wf(1) assms(3) queues_wfD(3) [OF wf]])
  fix j u assume "j \<noteq> i" "q j = Some u"
  then have "set (wq_tasks v) \<inter> set (wq_tasks u) = {}" using queues_wfD(2) [OF wf] by simp
  then show "set (wq_tasks w) \<inter> set (wq_tasks u) = {}" using assms(4) by blast
qed

lemma waitingI: "wait_queues k i = Some w \<Longrightarrow> p \<in> set (wq_tasks w) \<Longrightarrow> waiting p k"
  unfolding waiting_def by blast

lemma waiting_upd:
  "waiting p (k\<lparr>sch := s\<rparr>) = waiting p k"
  "waiting p (set_wq i w k) \<longleftrightarrow> p \<in> set (wq_tasks w) \<or> (\<exists>j v. j \<noteq> i \<and> wait_queues k j = Some v \<and> p \<in> set (wq_tasks v))"
  by (auto simp: waiting_def)

lemma waiting_split:
  "wait_queues k i = Some w \<Longrightarrow>
   waiting q k \<longleftrightarrow> q \<in> set (wq_tasks w) \<or> (\<exists>j v. j \<noteq> i \<and> wait_queues k j = Some v \<and> q \<in> set (wq_tasks v))"
  unfolding waiting_def by (metis option.sel)

lemma waiting_remove:
  assumes W: "queues_wf (wait_queues k)" and w: "wait_queues k i = Some w" "p \<in> set (wq_tasks w)"
    and v: "wq_tasks v = remove1 p (wq_tasks w)"
  shows "waiting q (set_wq i v k) \<longleftrightarrow> q \<noteq> p \<and> waiting q k"
proof -
  have "p \<notin> set (wq_tasks u)" if "j \<noteq> i" "wait_queues k j = Some u" for j u
    using queues_wfD(2) [OF W w(1) that(2)] that(1) w(2) by blast
  moreover have "set (wq_tasks v) = set (wq_tasks w) - {p}"
    using v queues_wfD(1) [OF W w(1)] by (simp add: set_remove1_eq)
  ultimately show ?thesis unfolding waiting_upd(2) waiting_split [OF w(1)] by blast
qed

lemma wait_queues_frame:
  "wait_queues k' = wait_queues k \<Longrightarrow> waiting p k' = waiting p k"
  "wait_queues k' = wait_queues k \<Longrightarrow> sch k' = sch k \<Longrightarrow> kern_inv k' = kern_inv k"
  unfolding waiting_def kern_inv_def queue_deadlines_def by metis+

lemma wakeup_cpus_sel [simp]:
  "sch (snd (wakeup_cpus n c k)) = sch k" "wait_queues (snd (wakeup_cpus n c k)) = wait_queues k"
  by (simp_all add: wakeup_cpus_def wakeup_one_cpu_def Let_def)

section \<open>Waking keeps the invariant\<close>

text \<open>
  \<open>wake_first\<close> on a non-empty queue: the first task leaves the queue and is on a run queue, its
  successors keep their deadlines, every other task keeps its record.
\<close>

definition woken :: "nat \<Rightarrow> nat \<Rightarrow> waitq \<Rightarrow> kern \<Rightarrow> kern \<Rightarrow> bool" where
  "woken i p w k k' \<longleftrightarrow> wait_queues k' = (wait_queues k)(i \<mapsto> w\<lparr>wq_tasks := remove1 p (wq_tasks w)\<rparr>)
     \<and> kern_inv k' \<and> on_runqueue p (sch k') \<and> cur (sch k') = cur (sch k)
     \<and> (\<forall>q. on_runqueue q (sch k) \<longrightarrow> on_runqueue q (sch k'))
     \<and> (\<forall>j. queue_deadlines k' j = (if j = i then tl (queue_deadlines k i) else queue_deadlines k j))"

lemma del_from_me_head:
  assumes "wait_queues k i = Some w" "wq_tasks w = p # ps" "p \<noteq> 0" "distinct (p # ps)"
  shows "\<exists>sl. del_from_me i p k =
    Some (JSUCCESS, (set_wq i (w\<lparr>wq_tasks := ps\<rparr>) k)\<lparr>sch := set_sleep sl (sch k)\<rparr>)
    \<and> deadlines sl 0 ps = tl (queue_deadlines k i) \<and> (\<forall>q. q \<notin> set (p # ps) \<longrightarrow> sl q = sleep_of (sch k) q)"
proof -
  obtain ts sl where d: "delete_ticks (sleep_of (sch k)) p (p # ps) = Some (ts, sl)" "ts = ps" by simp
  then have "deadlines sl 0 ps = tl (queue_deadlines k i)"
    using delete_ticks_deadlines [OF assms(4) d(1), of 0] filter_deadlines [of p ps] assms d(2)
    by (simp add: queue_deadlines_def)
  moreover have "\<forall>q. q \<notin> set (p # ps) \<longrightarrow> sl q = sleep_of (sch k) q"
    using delete_ticks_deadlines [OF assms(4) d(1)] by blast
  ultimately show ?thesis using assms d unfolding del_from_me_def by auto
qed

text \<open>Deadlines of the queues a change does not touch.\<close>

lemma queue_deadlines_other:
  assumes "queues_wf (wait_queues k)" "wait_queues k i = Some w" "j \<noteq> i" "wait_queues k' j = wait_queues k j"
    and "\<And>q. q \<notin> set (wq_tasks w) \<Longrightarrow> waiting q k \<Longrightarrow> sleep_of (sch k') q = sleep_of (sch k) q"
  shows "queue_deadlines k' j = queue_deadlines k j"
proof (cases "wait_queues k j")
  case (Some v)
  then have "sleep_of (sch k') q = sleep_of (sch k) q" if "q \<in> set (wq_tasks v)" for q
    using that queues_wfD(2) [OF assms(1,2) Some] assms(3) by (intro assms(5)) (auto simp: waiting_def)
  then show ?thesis
    unfolding queue_deadlines_def assms(4) by (intro deadlines_cong) (simp add: Some)
qed (simp add: queue_deadlines_def assms(4))

lemma wake_first_ok:
  assumes I: "kern_inv k" and w: "wait_queues k i = Some w" "wq_tasks w = p # ps"
  shows "\<exists>here wc k'. wake_first i c k = Some (here, wc, k') \<and> woken i p w k k'"
proof -
  have S: "sched_inv (sch k)" and W: "queues_wf (wait_queues k)"
    and A: "\<And>q. waiting q k \<Longrightarrow> asleep q (sch k)"
    and T: "\<And>j. sorted (map snd (queue_deadlines k j))"
    using I by (auto simp: kern_inv_def)
  have dist: "distinct (p # ps)" using queues_wfD(1) [OF W w(1)] w(2) by simp
  have wp: "waiting q k" if "q \<in> set (p # ps)" for q using waitingI [OF w(1)] w(2) that by simp
  have pk: "parked p (sch k)" using A [OF wp] by (auto simp: asleep_def)
  then obtain sl where del: "del_from_me i p k =
      Some (JSUCCESS, (set_wq i (w\<lparr>wq_tasks := ps\<rparr>) k)\<lparr>sch := set_sleep sl (sch k)\<rparr>)"
    and dl: "deadlines sl 0 ps = tl (queue_deadlines k i)"
    and sl: "\<And>q. q \<notin> set (p # ps) \<Longrightarrow> sl q = sleep_of (sch k) q"
    using del_from_me_head [OF w _ dist] by (auto simp: parked_def)
  let ?s = "set_sleep sl (sch k)"
  have nq: "\<not> on_runqueue p ?s" using pk by (simp add: parked_def)
  obtain n s' where s': "add_to_runqueue p (- 1) c ?s = Some (n, s')" "sched_inv s'" "on_runqueue p s'"
    "cur s' = cur ?s" "\<And>q. q \<noteq> p \<Longrightarrow> tasks s' q = tasks ?s q"
    "\<And>q. q \<noteq> p \<Longrightarrow> on_runqueue q s' = on_runqueue q ?s" "\<And>q. is_idle q s' = is_idle q ?s"
    using add_to_runqueue_inv [of ?s p c] S pk by auto
  have keep: "asleep q s'" if "q \<noteq> p" "asleep q (sch k)" for q
    using that s'(5-7) set_sleep_inv(3) [of q sl "sch k"] by (auto simp: asleep_def parked_def)
  let ?k = "(set_wq i (w\<lparr>wq_tasks := ps\<rparr>) k)\<lparr>sch := s'\<rparr>"
  have "queues_wf (wait_queues ?k)"
    using queues_wf_shrink [OF W w(1), of "w\<lparr>wq_tasks := ps\<rparr>"] queues_wfD(1) [OF W w(1)] w(2) by auto
  moreover have "q \<noteq> p \<and> waiting q k" if "waiting q ?k" for q
    using that waiting_remove [OF W w(1), of p "w\<lparr>wq_tasks := ps\<rparr>" q] w(2) by (simp add: waiting_upd(1))
  moreover have "on_runqueue q s'" if "on_runqueue q (sch k)" for q using that s'(3,6) by (cases "q = p") auto
  moreover have dlj: "queue_deadlines ?k j = queue_deadlines k j" if "j \<noteq> i" for j
    using that w(2) sl s'(5) by (intro queue_deadlines_other [OF W w(1)]) auto
  moreover have dli: "queue_deadlines ?k i = tl (queue_deadlines k i)"
  proof -
    have "sleep_of s' t = sl t" if "t \<in> set ps" for t
    proof -
      have "t \<noteq> p" using that dist by auto
      then show ?thesis using s'(5) by simp
    qed
    then have "deadlines (sleep_of s') 0 ps = deadlines sl 0 ps" by (rule deadlines_cong)
    then show ?thesis using dl by (simp add: queue_deadlines_def)
  qed
  moreover have "sorted (map snd (queue_deadlines ?k j))" for j
    using T dlj dli by (cases "j = i") (simp_all add: map_tl sorted_tl)
  ultimately have "woken i p w k ?k"
    using s'(2-4) keep A T w(2) unfolding woken_def kern_inv_def by auto
  then show ?thesis using w del nq s'(1) by (simp add: wake_first_def sc_task_assign_to_cpu_def set_wq_def)
qed

lemma kern_inv_simps:
  "kern_inv (k\<lparr>g_stat_async_wakeups := a\<rparr>) = kern_inv k"
  "kern_inv (k\<lparr>g_stat_timeout_wakeups := a\<rparr>) = kern_inv k"
  "kern_inv (snd (wakeup_cpus n c k)) = kern_inv k"
  by (rule wait_queues_frame; simp)+

lemma stat_upd_inv:
  assumes "kern_inv k" "wait_queues k i = Some v" "wq_tasks u = wq_tasks v"
  shows "kern_inv (set_wq i u k)" "queue_deadlines (set_wq i u k) = queue_deadlines k"
proof -
  have "queues_wf ((wait_queues k)(i \<mapsto> u))"
    using assms queues_wf_shrink [of "wait_queues k" i v u] queues_wfD(1) [of "wait_queues k" i v]
    by (simp add: kern_inv_def)
  moreover have "waiting p (set_wq i u k) = waiting p k" for p
    unfolding waiting_upd(2) waiting_split [OF assms(2)] assms(3) by (rule refl)
  moreover show "queue_deadlines (set_wq i u k) = queue_deadlines k"
    using assms(2,3) by (intro ext) (auto simp: queue_deadlines_def)
  ultimately show "kern_inv (set_wq i u k)" using assms(1) by (simp add: kern_inv_def)
qed

text \<open>Waking a whole queue: the loop ends, and every task that was waiting is on a run queue.\<close>

lemma wakeup_loop_all:
  assumes "kern_inv k" "wait_queues k i = Some w" "wq_flags w AND WAIT_QUEUE_WAKEUP_ONE = 0"
  shows "\<exists>k'. wakeup_loop i c ret k = Some (ret + int (length (wq_tasks w)), k') \<and> kern_inv k'
    \<and> wait_queues k' = (wait_queues k)(i \<mapsto> w\<lparr>wq_tasks := []\<rparr>) \<and> cur (sch k') = cur (sch k)
    \<and> (\<forall>q. q \<in> set (wq_tasks w) \<or> on_runqueue q (sch k) \<longrightarrow> on_runqueue q (sch k'))"
  using assms
proof (induction "wq_tasks w" arbitrary: w k ret)
  case Nil
  then have "w\<lparr>wq_tasks := []\<rparr> = w" by simp
  then show ?case using Nil by (subst wakeup_loop.simps) (auto simp: fun_upd_idem)
next
  case (Cons p ps)
  obtain here wc k1 where f: "wake_first i c k = Some (here, wc, k1)" "woken i p w k k1"
    using wake_first_ok [OF Cons.prems(1,2) Cons.hyps(2) [symmetric]] by blast
  define k2 where "k2 = (if here then k1
    else snd (wakeup_cpus (int wc) c (k1\<lparr>g_stat_async_wakeups := g_stat_async_wakeups k1 + 1\<rparr>)))"
  have k2: "kern_inv k2" "wait_queues k2 = wait_queues k1" "sch k2 = sch k1"
    using f(2) by (auto simp: k2_def kern_inv_simps woken_def)
  have w2: "wait_queues k2 i = Some (w\<lparr>wq_tasks := ps\<rparr>)"
    using f(2) Cons.hyps(2) [symmetric] k2(2) by (simp add: woken_def)
  obtain k' where k': "wakeup_loop i c (ret + 1) k2 = Some (ret + 1 + int (length ps), k')" "kern_inv k'"
    "wait_queues k' = (wait_queues k2)(i \<mapsto> w\<lparr>wq_tasks := []\<rparr>)" "cur (sch k') = cur (sch k2)"
    "\<forall>q. q \<in> set ps \<or> on_runqueue q (sch k2) \<longrightarrow> on_runqueue q (sch k')"
    using Cons.hyps(1) [OF _ k2(1) w2, of "ret + 1"] Cons.prems(3) by auto
  have "wakeup_loop i c ret k = wakeup_loop i c (ret + 1) k2"
    using Cons.prems(2,3) Cons.hyps(2) [symmetric] f(1)
    by (subst wakeup_loop.simps) (simp add: Let_def k2_def)
  then show ?case
    using k' k2 f(2) Cons.hyps(2) [symmetric] by (auto simp: woken_def)
qed

section \<open>Timer ticks\<close>

text \<open>One tick on a queue, on the level of deadlines: all come closer, and one that is due leaves.\<close>

fun tick_deadlines :: "(nat \<times> int) list \<Rightarrow> (nat \<times> int) list" where
  "tick_deadlines [] = []"
| "tick_deadlines ((p, d) # ds) = map (\<lambda>(q, e). (q, e - 1)) (if d \<le> 1 then ds else (p, d) # ds)"

definition ticked :: "nat set \<Rightarrow> kern \<Rightarrow> kern \<Rightarrow> bool" where
  "ticked S k k' \<longleftrightarrow> kern_inv k' \<and> cur (sch k') = cur (sch k)
     \<and> (\<forall>j. queue_deadlines k' j = (if j \<in> S then tick_deadlines (queue_deadlines k j) else queue_deadlines k j))
     \<and> (\<forall>q. on_runqueue q (sch k) \<longrightarrow> on_runqueue q (sch k'))
     \<and> (\<forall>j\<in>S. \<forall>p d ds. queue_deadlines k j = (p, d) # ds \<longrightarrow> d \<le> 1 \<longrightarrow> on_runqueue p (sch k'))"

lemma sorted_dec: "sorted (map snd ds) \<Longrightarrow> sorted (map snd (map (\<lambda>(q, e). (q, e - (1 :: int))) ds))"
  by (induction ds) auto

lemma decrement_head:
  assumes I: "kern_inv k" and w: "wait_queues k i = Some w" "wq_tasks w = p # ps"
    and k1: "k1 = k\<lparr>sch := upd_task p (\<lambda>t. t\<lparr>sleep_ticks := sleep_ticks t - 1\<rparr>) (sch k)\<rparr>"
  shows "kern_inv k1 \<and> queue_deadlines k1 i = map (\<lambda>(q, e). (q, e - 1)) (queue_deadlines k i)
    \<and> (\<forall>j. j \<noteq> i \<longrightarrow> queue_deadlines k1 j = queue_deadlines k j)"
proof -
  have S: "sched_inv (sch k)" and W: "queues_wf (wait_queues k)"
    and A: "\<And>q. waiting q k \<Longrightarrow> asleep q (sch k)" and T: "\<And>j. sorted (map snd (queue_deadlines k j))"
    using I by (auto simp: kern_inv_def)
  have np: "p \<notin> set ps" using queues_wfD(1) [OF W w(1)] w(2) by simp
  have other: "queue_deadlines k1 j = queue_deadlines k j" if "j \<noteq> i" for j
    using that w(2) by (intro queue_deadlines_other [OF W w(1)]) (auto simp: k1)
  have "deadlines (sleep_of (sch k1)) b ps = deadlines (sleep_of (sch k)) b ps" for b
    using np by (intro deadlines_cong) (auto simp: k1)
  then have mine: "queue_deadlines k1 i = map (\<lambda>(q, e). (q, e - 1)) (queue_deadlines k i)"
    using w deadlines_shift [of "sleep_of (sch k)" "sleep_of (sch k) p" "- 1" ps]
    by (simp add: queue_deadlines_def k1)
  have "sorted (map snd (queue_deadlines k1 j))" for j
    using other mine sorted_dec [OF T [of i]] T by (cases "j = i") simp_all
  moreover have "waiting q k1 = waiting q k" for q by (rule wait_queues_frame) (simp add: k1)
  ultimately show ?thesis using S W A other mine by (auto simp: kern_inv_def k1)
qed

lemma ticked_refl: "kern_inv k \<Longrightarrow> queue_deadlines k i = [] \<Longrightarrow> ticked {i} k k"
  by (simp add: ticked_def)

lemma ticked_trans:
  assumes "ticked S k k1" "ticked R k1 k2" "S \<inter> R = {}"
  shows "ticked (S \<union> R) k k2"
proof -
  have late: "on_runqueue p (sch k2)" if j: "j \<in> R" "queue_deadlines k j = (p, d) # ds" "d \<le> 1" for j p d ds
  proof -
    have "queue_deadlines k1 j = (p, d) # ds" using j(1,2) assms(1,3) by (auto simp: ticked_def disjoint_iff)
    then show ?thesis using j(1,3) assms(2) unfolding ticked_def by blast
  qed
  have early: "on_runqueue p (sch k2)" if j: "j \<in> S" "queue_deadlines k j = (p, d) # ds" "d \<le> 1" for j p d ds
    using j assms(1,2) unfolding ticked_def by blast
  have "queue_deadlines k2 j =
      (if j \<in> S \<union> R then tick_deadlines (queue_deadlines k j) else queue_deadlines k j)" for j
    using assms by (auto simp: ticked_def disjoint_iff)
  moreover have "kern_inv k2" "cur (sch k2) = cur (sch k)" "\<forall>q. on_runqueue q (sch k) \<longrightarrow> on_runqueue q (sch k2)"
    using assms(1,2) by (simp_all add: ticked_def)
  ultimately show ?thesis using late early unfolding ticked_def by blast
qed

lemma check_waitqueue_ok:
  assumes I: "kern_inv k"
  shows "\<exists>k'. check_waitqueue i c k = Some k' \<and> ticked {i} k k'"
proof (cases "wait_queues k i")
  case None
  then show ?thesis using I by (auto simp: check_waitqueue_def queue_deadlines_def intro!: ticked_refl)
next
  case (Some w)
  show ?thesis
  proof (cases "wq_tasks w")
    case Nil
    then show ?thesis using I Some by (auto simp: check_waitqueue_def queue_deadlines_def intro!: ticked_refl)
  next
    case (Cons p ps)
    define k1 where "k1 = k\<lparr>sch := upd_task p (\<lambda>t. t\<lparr>sleep_ticks := sleep_ticks t - 1\<rparr>) (sch k)\<rparr>"
    note dec = decrement_head [OF I Some Cons k1_def]
    have p0: "p \<noteq> 0"
    proof -
      have "waiting p k" using waitingI [OF Some, of p] Cons by simp
      then show ?thesis using I by (auto simp: kern_inv_def asleep_def parked_def)
    qed
    have k1: "wait_queues k1 i = Some w" "on_runqueue q (sch k1) = on_runqueue q (sch k)" "cur (sch k1) = cur (sch k)"
      "sleep_of (sch k1) p = sleep_of (sch k) p - 1" for q
      using Some by (simp_all add: k1_def)
    have hd: "queue_deadlines k i = (p, sleep_of (sch k) p) # deadlines (sleep_of (sch k)) (sleep_of (sch k) p) ps"
      using Some Cons by (simp add: queue_deadlines_def)
    have run: "check_waitqueue i c k = (if sleep_of (sch k1) p \<le> 0 then do {
           (here, wakeup_cpu, k) \<leftarrow> wake_first i c k1;
           if here then do {
             w \<leftarrow> wait_queues k i;
             Some (set_wq i (w\<lparr>stat_wakeon_samecpu := stat_wakeon_samecpu w + 1\<rparr>) k) }
           else Some (snd (wakeup_cpus (int wakeup_cpu) c
                             (k\<lparr>g_stat_timeout_wakeups := g_stat_timeout_wakeups k + 1\<rparr>))) } else Some k1)"
      using Some Cons p0 by (simp add: check_waitqueue_def k1_def)
    show ?thesis
    proof (cases "sleep_of (sch k) p \<le> 1")
      case False
      then have "ticked {i} k k1" using dec hd k1 by (auto simp: ticked_def)
      then show ?thesis using False run k1(4) by simp
    next
      case True
      obtain here wc k2 where f: "wake_first i c k1 = Some (here, wc, k2)" "woken i p w k1 k2"
        using wake_first_ok [OF _ k1(1) Cons] dec by blast
      have t2: "ticked {i} k k2" using f(2) dec hd k1 True by (auto simp: ticked_def woken_def)
      have same: "ticked {i} k k3" if "queue_deadlines k3 = queue_deadlines k2" "sch k3 = sch k2" "kern_inv k3" for k3
        using t2 that by (simp add: ticked_def)
      show ?thesis
      proof (cases here)
        case False
        then show ?thesis using run f(1) True k1(4) t2
          by (auto intro!: same ext simp: kern_inv_simps queue_deadlines_def ticked_def)
      next
        case here: True
        define v where "v = w\<lparr>wq_tasks := ps\<rparr>"
        have w2: "wait_queues k2 i = Some v" using f(2) Cons by (simp add: woken_def v_def)
        let ?k = "set_wq i (v\<lparr>stat_wakeon_samecpu := stat_wakeon_samecpu v + 1\<rparr>) k2"
        have "kern_inv ?k" "queue_deadlines ?k = queue_deadlines k2"
          using stat_upd_inv [OF _ w2, of "v\<lparr>stat_wakeon_samecpu := stat_wakeon_samecpu v + 1\<rparr>"] t2
          by (simp_all add: ticked_def)
        then have "ticked {i} k ?k" by (intro same) simp_all
        then show ?thesis using run f(1) True k1(4) here w2 by simp
      qed
    qed
  qed
qed

lemma check_from_ok:
  "kern_inv k \<Longrightarrow> \<exists>k'. check_from n i c k = Some k' \<and> ticked {i ..< i + n} k k'"
proof (induction n arbitrary: i k)
  case 0
  then show ?case by (simp add: ticked_def)
next
  case (Suc n)
  obtain k1 where k1: "check_waitqueue i c k = Some k1" "ticked {i} k k1"
    using check_waitqueue_ok [OF Suc.prems] by blast
  obtain k2 where k2: "check_from n (i + 1) c k1 = Some k2" "ticked {i + 1 ..< i + 1 + n} k1 k2"
    using Suc.IH [of k1 "i + 1"] k1(2) by (auto simp: ticked_def)
  have "{i ..< i + Suc n} = {i} \<union> {i + 1 ..< i + 1 + n}" by auto
  then show ?case using k1(1) k2(1) ticked_trans [OF k1(2) k2(2)] by simp
qed

section \<open>Going to sleep\<close>

lemma upd_state_inv:
  assumes I: "sched_inv s" and c: "c < MAX_CPUS" and n: "\<not> is_idle (cur s c) s"
  shows "sched_inv (upd_task (cur s c) (\<lambda>t. t\<lparr>state := x\<rparr>) s)"
proof -
  let ?p = "cur s c"
  have q: "\<not> on_runqueue ?p s" by (rule cur_not_queued [OF I c])
  have t: "current_cpu (tasks (upd_task ?p (\<lambda>t. t\<lparr>state := x\<rparr>) s) r) = current_cpu (tasks s r)"
    "magic (tasks (upd_task ?p (\<lambda>t. t\<lparr>state := x\<rparr>) s) r) = magic (tasks s r)"
    "allocated_cpu (tasks (upd_task ?p (\<lambda>t. t\<lparr>state := x\<rparr>) s) r) = allocated_cpu (tasks s r)"
    "stick_to_cpu (tasks (upd_task ?p (\<lambda>t. t\<lparr>state := x\<rparr>) s) r) = stick_to_cpu (tasks s r)" for r
    by simp_all
  have "queued_ok (upd_task ?p (\<lambda>t. t\<lparr>state := x\<rparr>) s)"
    using I q unfolding sched_inv_def queued_ok_def by auto
  moreover have "idle_ok (upd_task ?p (\<lambda>t. t\<lparr>state := x\<rparr>) s)"
    using I n unfolding sched_inv_def idle_ok_def is_idle_def by auto
  ultimately show ?thesis
    using I unfolding sched_inv_def queues_ok_def current_ok_def cpus_valid_def t by simp
qed

lemma sorted_insert_deadline:
  "sorted (map snd D) \<Longrightarrow> sorted (map snd (takeWhile (\<lambda>(t, d). d \<le> x) D @ (p, x :: int) # dropWhile (\<lambda>(t, d). d \<le> x) D))"
proof (induction D)
  case (Cons a D)
  then show ?case
    by (cases a) (auto dest!: set_takeWhileD set_dropWhileD split: if_splits)
qed simp

text \<open>Linking the current task into a queue, before the cpu is given up.\<close>

lemma add_to_me_ok:
  assumes W: "queues_wf (wait_queues k)" and T: "\<And>j. sorted (map snd (queue_deadlines k j))"
    and w: "wait_queues k i = Some w" and p: "\<not> waiting p k" "p \<noteq> idle_task (g_cpu_state (sch k) c)"
  shows "\<exists>k' sl. add_to_me i p ticks c k = Some k' \<and> sch k' = set_sleep sl (sch k)
    \<and> queues_wf (wait_queues k') \<and> (\<forall>j. sorted (map snd (queue_deadlines k' j)))
    \<and> (\<forall>q. waiting q k' \<longleftrightarrow> q = p \<or> waiting q k)
    \<and> (\<forall>j. j \<noteq> i \<longrightarrow> queue_deadlines k' j = queue_deadlines k j)
    \<and> queue_deadlines k' i = takeWhile (\<lambda>(t, d). d \<le> ticks) (queue_deadlines k i) @ (p, ticks) #
        dropWhile (\<lambda>(t, d). d \<le> ticks) (queue_deadlines k i)"
proof -
  obtain ts sl where ins: "insert_ticks (sleep_of (sch k)) p ticks 0 (wq_tasks w) = (ts, sl)" by force
  let ?k = "(set_wq i (w\<lparr>wq_tasks := ts\<rparr>) k)\<lparr>sch := set_sleep sl (sch k)\<rparr>"
  have run: "add_to_me i p ticks c k = Some ?k" using w p(2) ins by (simp add: add_to_me_def)
  have np: "p \<notin> set (wq_tasks w)" using p(1) waitingI [OF w] by blast
  have d: "distinct (wq_tasks w)" by (rule queues_wfD [OF W w])
  note D = insert_ticks_deadlines [OF np d ins]
  have mine: "queue_deadlines ?k i = takeWhile (\<lambda>(t, d). d \<le> ticks) (queue_deadlines k i) @ (p, ticks) #
        dropWhile (\<lambda>(t, d). d \<le> ticks) (queue_deadlines k i)"
    using D w by (simp add: queue_deadlines_def)
  have set: "set ts = insert p (set (wq_tasks w))" and dist: "distinct ts"
    using insert_ticks_set [OF ins] np d by auto
  have "queues_wf (wait_queues ?k)"
  proof -
    have "set ts \<inter> set (wq_tasks v) = {}" if "j \<noteq> i" "wait_queues k j = Some v" for j v
      using that queues_wfD(2) [OF W w that(2)] p(1) waitingI [OF that(2)] set by auto
    then show ?thesis using queues_wf_upd [OF W, of "w\<lparr>wq_tasks := ts\<rparr>" i] dist queues_wfD(3) [OF W w] by simp
  qed
  moreover have other: "queue_deadlines ?k j = queue_deadlines k j" if "j \<noteq> i" for j
    using that D p(1) by (intro queue_deadlines_other [OF W w]) auto
  moreover have "sorted (map snd (queue_deadlines ?k j))" for j
    using other [of j] mine sorted_insert_deadline [OF T] T by (cases "j = i") simp_all
  moreover have "waiting q ?k \<longleftrightarrow> q = p \<or> waiting q k" for q
    unfolding waiting_upd waiting_split [OF w] using set by simp
  ultimately show ?thesis using run mine by auto
qed

end
