(* ===== verification/Sched_Runs.thy ===== *)
theory Sched_Runs
  imports Sched
begin

text \<open>
  Boot of the scheduler (\<open>init_tasking\<close>), time accounting, and runs of the operations of
  kernel/sched_task.cc: no run stops the kernel, the cpu is handed round in queue order, and what
  becomes of a task that is bound to another cpu.
\<close>

section \<open>Boot\<close>

definition TASK_SIZE :: nat where "TASK_SIZE = 4 * PAGE_SIZE"

text \<open>
  \<open>init_task_struct\<close> on the fields of the model: everything is cleared first, the process ids come
  from the task that runs the call. \<open>cfg\<close> is the configuration that \<open>get_free_cpu\<close> reads
  (\<open>getmaxcpus()\<close>, \<open>g_conf_netbh_cpu\<close>, \<open>g_conf_cpu_stick\<close>).
\<close>

definition zero_task :: task where
  "zero_task = \<lparr>state = 0, pending_signals = False, killed = False, usage = 0, clone_flags = 0, task_id = 0,
     parent_process_pid = 0, process_id = 0, allocated_cpu = 0, current_cpu = 0, stick_to_cpu = 0, counter = 0,
     sleep_ticks = 0, last_jiffie = 0, locks_sleepable = 0, locks_nonsleepable = 0, exit_code = 0,
     total_contexts = 0, ticks_consumed = 0, magic = False\<rparr>"

definition init_task_struct :: "nat \<times> int \<times> int \<Rightarrow> nat \<Rightarrow> nat \<Rightarrow> sched \<Rightarrow> sched option" where
  "init_task_struct cfg p my_cpuid s = (case cfg of (maxcpus, netbh, stick) \<Rightarrow> do {
     let s = upd_task p (\<lambda>t. zero_task\<lparr>magic := True, usage := 1\<rparr>) s;
     (k, s) \<leftarrow> get_free_cpu maxcpus netbh stick s;
     let me = tasks s (cur s my_cpuid);
     let pid = (if free_pid_no s + 1 = 0 then 1 else free_pid_no s + 1);
     let s = s\<lparr>free_pid_no := pid\<rparr>;
     Some (upd_task p (\<lambda>t. t\<lparr>allocated_cpu := k, current_cpu := NO_CPU, stick_to_cpu := NO_CPU,
       process_id := process_id me, parent_process_pid := task_id me, task_id := pid\<rparr>) s) })"

text \<open>
  The cpu loop of \<open>init_tasking\<close>, run by the boot cpu: the idle tasks lie one \<open>TASK_SIZE\<close> apart from
  the stack of the boot task on.
\<close>

definition zero_cpu :: cpu_state where
  "zero_cpu = \<lparr>idle_task = 0, run_queue = [], run_queue_length = 0, active = False, intr_disabled = False,
     idle_state = False, task_on_wait = False, cpu_contexts = 0, nonidle_contexts = 0\<rparr>"

fun init_cpus :: "nat \<times> int \<times> int \<Rightarrow> nat \<Rightarrow> nat \<Rightarrow> nat \<Rightarrow> sched \<Rightarrow> sched option" where
  "init_cpus cfg task_addr i 0 s = Some s"
| "init_cpus cfg task_addr i (Suc n) s = do {
     let p = task_addr + i * TASK_SIZE;
     let s = upd_cpu i (\<lambda>_. zero_cpu\<lparr>idle_task := p\<rparr>) s;
     s \<leftarrow> init_task_struct cfg p 0 s;
     let s = (if i = 0 then upd_task (cur s 0) (\<lambda>t. t\<lparr>task_id := 1, process_id := 1, parent_process_pid := 1\<rparr>) s
              else s);
     let s = upd_task p (\<lambda>t. t\<lparr>allocated_cpu := i, state := TASK_RUNNING, current_cpu := i\<rparr>) s;
     let s = upd_cpu i (\<lambda>c. c\<lparr>active := True\<rparr>) s;
     init_cpus cfg task_addr (i + 1) n s }"

definition init_tasking :: "nat \<times> int \<times> int \<Rightarrow> sched \<Rightarrow> sched option" where
  "init_tasking cfg s = do {
     let s = s\<lparr>g_task_queue := [], free_pid_no := 1\<rparr>;
     s \<leftarrow> init_cpus cfg (cur s 0) 0 MAX_CPUS s;
     Some (upd_task (cur s 0) (\<lambda>t. t\<lparr>current_cpu := 0\<rparr>) s) }"

section \<open>Time accounting\<close>

text \<open>
  \<open>ar_update_jiffie\<close>: with a hardware clock the jiffies follow its nanoseconds, at most one per call.
\<close>

definition ar_update_jiffie :: "u64 option \<Rightarrow> sched \<Rightarrow> sched" where
  "ar_update_jiffie hw_clock_ns s = (case hw_clock_ns of
     Some ns \<Rightarrow> if ns div 10000000 > g_jiffies s then s\<lparr>g_jiffies := g_jiffies s + 1\<rparr> else s
   | None \<Rightarrow> s\<lparr>g_jiffies := g_jiffies s + 1\<rparr>)"

text \<open>
  \<open>timer_callback\<close>: the part that charges the running task; the subtraction of the unsigned jiffies
  is truncated to the 32-bit \<open>counter\<close>.
\<close>

definition timer_callback :: "u64 option \<Rightarrow> nat \<Rightarrow> sched \<Rightarrow> sched" where
  "timer_callback hw_clock_ns my_cpuid s =
     (let s = (if my_cpuid = 0 then ar_update_jiffie hw_clock_ns s else s); p = cur s my_cpuid in
      if g_jiffies s > last_jiffie (tasks s p)
      then upd_task p (\<lambda>t. t\<lparr>counter := sint (word_of_int (counter t) - ucast (g_jiffies s - last_jiffie t) :: u32),
             ticks_consumed := ticks_consumed t + 1, last_jiffie := g_jiffies s\<rparr>) s
      else s)"

section \<open>Boot establishes the invariant\<close>

lemma get_free_cpu_ok:
  assumes "0 < maxcpus" "cpu_rr s + 2 < 2 ^ 31" "0 \<le> cpu_rr s" "0 \<le> stick"
  shows "\<exists>k n. get_free_cpu maxcpus netbh stick s = Some (k, s\<lparr>cpu_rr := n\<rparr>) \<and> cpu_rr s < n \<and> n \<le> cpu_rr s + 2
    \<and> k < maxcpus \<and> (stick \<noteq> 99 \<and> k = nat stick \<or> active (g_cpu_state s k) \<or> k = 0)"
proof -
  define k1 where "k1 = nat (cpu_rr s + 1) mod maxcpus"
  define n where "n = (if int k1 = netbh \<and> maxcpus > 1 then cpu_rr s + 1 + 1 else cpu_rr s + 1)"
  define k where "k = (if int k1 = netbh \<and> maxcpus > 1 then nat n mod maxcpus else k1)"
  have k1: "k1 < maxcpus" using assms(1) by (simp add: k1_def)
  then have k1': "(if k1 \<ge> maxcpus then 0 else k1) = k1" by simp
  have "get_free_cpu maxcpus netbh stick s =
      (if stick \<noteq> 99 \<and> stick < int maxcpus then Some (nat stick, s\<lparr>cpu_rr := n\<rparr>)
       else if active (g_cpu_state s k) then Some (k, s\<lparr>cpu_rr := n\<rparr>) else Some (0, s\<lparr>cpu_rr := n\<rparr>))"
  proof (cases "int k1 = netbh \<and> maxcpus > 1")
    case True
    then have "n = cpu_rr s + 1 + 1" "k = nat (cpu_rr s + 1 + 1) mod maxcpus" by (simp_all add: n_def k_def)
    then show ?thesis
      using assms k1 True unfolding get_free_cpu_def Let_def k1_def [symmetric] by simp
  next
    case False
    then have "n = cpu_rr s + 1" "k = k1" by (auto simp: n_def k_def)
    then show ?thesis
      using assms k1 False unfolding get_free_cpu_def Let_def k1_def [symmetric] k1' if_not_P [OF False] by simp
  qed
  moreover have "cpu_rr s < n" "n \<le> cpu_rr s + 2" "k < maxcpus"
    using k1 assms(1) by (simp_all add: n_def k_def)
  ultimately show ?thesis using assms(1,4) by auto
qed

definition cfg_ok :: "nat \<times> int \<times> int \<Rightarrow> bool" where
  "cfg_ok cfg \<longleftrightarrow> (case cfg of (maxcpus, netbh, stick) \<Rightarrow> 0 < maxcpus \<and> maxcpus \<le> MAX_CPUS \<and> 0 \<le> stick)"

lemma init_task_struct_ok:
  assumes c: "cfg_ok cfg" and r: "0 \<le> cpu_rr s" "cpu_rr s + 2 < 2 ^ 31"
  shows "\<exists>s' t. init_task_struct cfg p c s = Some s' \<and> tasks s' = (tasks s)(p := t) \<and> magic t \<and> stick_to_cpu t = NO_CPU
    \<and> current_cpu t = NO_CPU \<and> g_cpu_state s' = g_cpu_state s \<and> cur s' = cur s
    \<and> 0 \<le> cpu_rr s' \<and> cpu_rr s' \<le> cpu_rr s + 2"
proof -
  obtain maxcpus netbh stick where cfg: "cfg = (maxcpus, netbh, stick)" by (cases cfg)
  let ?s = "upd_task p (\<lambda>t. zero_task\<lparr>magic := True, usage := 1\<rparr>) s"
  have rr: "cpu_rr ?s = cpu_rr s" by (simp add: upd_task_def)
  obtain k n where k: "get_free_cpu maxcpus netbh stick ?s = Some (k, ?s\<lparr>cpu_rr := n\<rparr>)" "0 \<le> n" "n \<le> cpu_rr s + 2"
  proof -
    have "0 < maxcpus" "0 \<le> stick" using c by (simp_all add: cfg cfg_ok_def)
    from get_free_cpu_ok [OF this(1) _ _ this(2), of ?s netbh] r that show thesis unfolding rr by fastforce
  qed
  define pid where "pid = (if free_pid_no (?s\<lparr>cpu_rr := n\<rparr>) + 1 = 0 then 1 else free_pid_no (?s\<lparr>cpu_rr := n\<rparr>) + 1)"
  define me where "me = tasks (?s\<lparr>cpu_rr := n\<rparr>) (cur (?s\<lparr>cpu_rr := n\<rparr>) c)"
  define t where "t = (zero_task\<lparr>magic := True, usage := 1\<rparr>)\<lparr>allocated_cpu := k, current_cpu := NO_CPU,
    stick_to_cpu := NO_CPU, process_id := process_id me, parent_process_pid := task_id me, task_id := pid\<rparr>"
  let ?r = "?s\<lparr>cpu_rr := n, free_pid_no := pid, tasks := (tasks s)(p := t)\<rparr>"
  have "init_task_struct cfg p c s = Some ?r"
    unfolding init_task_struct_def cfg Let_def prod.case k(1) bind.bind_lunit pid_def [symmetric] me_def [symmetric]
    by (simp add: upd_task_def t_def)
  moreover have "tasks ?r = (tasks s)(p := t)" "g_cpu_state ?r = g_cpu_state s" "cur ?r = cur s" "cpu_rr ?r = n" by simp_all
  moreover have "magic t" "stick_to_cpu t = NO_CPU" "current_cpu t = NO_CPU" by (simp_all add: t_def)
  ultimately show ?thesis using k(2,3) by metis
qed

text \<open>What the cpu loop has done after \<open>i\<close> rounds.\<close>

definition idle_addr :: "nat \<Rightarrow> nat \<Rightarrow> nat" where "idle_addr a c = a + c * TASK_SIZE"

lemma idle_addr_eq [simp]: "idle_addr a c = idle_addr a d \<longleftrightarrow> c = d"
  by (simp add: idle_addr_def TASK_SIZE_def)

definition booted :: "nat \<Rightarrow> nat \<Rightarrow> sched \<Rightarrow> sched \<Rightarrow> bool" where
  "booted a i s s' \<longleftrightarrow> cur s' = cur s \<and> 0 \<le> cpu_rr s' \<and> cpu_rr s' \<le> cpu_rr s + 2 * int i
     \<and> (\<forall>c < i. g_cpu_state s' c = zero_cpu\<lparr>idle_task := idle_addr a c, active := True\<rparr>)
     \<and> (\<forall>c < i. let t = tasks s' (idle_addr a c) in
          state t = TASK_RUNNING \<and> current_cpu t = c \<and> allocated_cpu t = c \<and> stick_to_cpu t = NO_CPU \<and> magic t)
     \<and> (\<forall>p. (\<forall>c < i. p \<noteq> idle_addr a c) \<longrightarrow> tasks s' p = tasks s p)"

lemma init_cpus_ok:
  "cfg_ok cfg \<Longrightarrow> cur s 0 = a \<Longrightarrow> booted a i s s1 \<Longrightarrow> cpu_rr s + 2 * int (i + n) < 2 ^ 31 \<Longrightarrow>
   \<exists>s'. init_cpus cfg a i n s1 = Some s' \<and> booted a (i + n) s s'"
proof (induction n arbitrary: i s1)
  case 0
  then show ?case by simp
next
  case (Suc n)
  let ?p = "idle_addr a i"
  let ?s2 = "upd_cpu i (\<lambda>_. zero_cpu\<lparr>idle_task := ?p\<rparr>) s1"
  have rr2: "cpu_rr ?s2 = cpu_rr s1" by (simp add: upd_cpu_def)
  have rr1: "0 \<le> cpu_rr s1" "cpu_rr s1 \<le> cpu_rr s + 2 * int i" "cur s1 = cur s"
    using Suc.prems(3) by (auto simp: booted_def)
  obtain s3 t where s3: "init_task_struct cfg ?p 0 ?s2 = Some s3" "tasks s3 = (tasks s1)(?p := t)" "magic t"
    "stick_to_cpu t = NO_CPU" "g_cpu_state s3 = g_cpu_state ?s2" "cur s3 = cur s1" "0 \<le> cpu_rr s3"
    "cpu_rr s3 \<le> cpu_rr s1 + 2"
    using init_task_struct_ok [OF Suc.prems(1), of ?s2 ?p 0] rr1 rr2 Suc.prems(4) by auto
  define s4 where "s4 = (if i = 0 then upd_task (cur s3 0) (\<lambda>t. t\<lparr>task_id := 1, process_id := 1, parent_process_pid := 1\<rparr>) s3
    else s3)"
  define s5 where "s5 = upd_cpu i (\<lambda>c. c\<lparr>active := True\<rparr>)
    (upd_task ?p (\<lambda>t. t\<lparr>allocated_cpu := i, state := TASK_RUNNING, current_cpu := i\<rparr>) s4)"
  have run: "init_cpus cfg a i (Suc n) s1 = init_cpus cfg a (i + 1) n s5"
    using s3(1) by (simp add: s4_def s5_def idle_addr_def Let_def)
  have a0: "cur s3 0 = idle_addr a 0" using s3(6) rr1(3) Suc.prems(2) by (simp add: idle_addr_def)
  have t4: "tasks s4 q = (if q = ?p then tasks s4 ?p else tasks s1 q)" "magic (tasks s4 ?p)" "stick_to_cpu (tasks s4 ?p) = NO_CPU" for q
    using s3(2-4) a0 by (auto simp: s4_def)
  have g4: "g_cpu_state s4 = g_cpu_state ?s2" "cur s4 = cur s" "cpu_rr s4 = cpu_rr s3"
    using s3(5,6) rr1(3) by (auto simp: s4_def upd_task_def)
  have "booted a (i + 1) s s5"
    unfolding booted_def
  proof (intro conjI allI impI)
    show "cur s5 = cur s" "0 \<le> cpu_rr s5" "cpu_rr s5 \<le> cpu_rr s + 2 * int (i + 1)"
      using g4 s3(7,8) rr1 by (simp_all add: s5_def upd_cpu_def upd_task_def)
  next
    fix c assume c: "c < i + 1"
    show "g_cpu_state s5 c = zero_cpu\<lparr>idle_task := idle_addr a c, active := True\<rparr>"
      using c Suc.prems(3) g4(1) by (auto simp: s5_def booted_def)
    show "let t = tasks s5 (idle_addr a c) in
        state t = TASK_RUNNING \<and> current_cpu t = c \<and> allocated_cpu t = c \<and> stick_to_cpu t = NO_CPU \<and> magic t"
      using c Suc.prems(3) t4(1) [of "idle_addr a c"] t4(2,3) by (auto simp: s5_def booted_def Let_def less_Suc_eq)
  next
    fix p assume p: "\<forall>c < i + 1. p \<noteq> idle_addr a c"
    then show "tasks s5 p = tasks s p"
      using Suc.prems(3) t4(1) [of p] by (auto simp: s5_def booted_def)
  qed
  then show ?case using Suc.IH [OF Suc.prems(1,2), of "i + 1" s5] Suc.prems(4) run by (simp add: algebra_simps)
qed

text \<open>Before boot: every cpu runs on the stack of its idle task, and nothing claims a cpu.\<close>

definition pristine :: "sched \<Rightarrow> bool" where
  "pristine s \<longleftrightarrow> cur s 0 \<noteq> 0 \<and> (\<forall>c < MAX_CPUS. idle_addr (cur s 0) c = cur s c) \<and> 0 \<le> cpu_rr s \<and> cpu_rr s + 22 < 2 ^ 31
     \<and> (\<forall>p. current_cpu (tasks s p) = NO_CPU \<and> stick_to_cpu (tasks s p) = NO_CPU \<and> allocated_cpu (tasks s p) < MAX_CPUS)"

lemma booted_inv:
  assumes P: "pristine s" and B: "booted (cur s 0) MAX_CPUS s s'"
  shows "sched_inv s'"
proof -
  let ?a = "cur s 0"
  have g: "g_cpu_state s' c = zero_cpu\<lparr>idle_task := idle_addr ?a c, active := True\<rparr>"
    and t: "state (tasks s' (idle_addr ?a c)) = TASK_RUNNING" "current_cpu (tasks s' (idle_addr ?a c)) = c"
      "allocated_cpu (tasks s' (idle_addr ?a c)) = c" "stick_to_cpu (tasks s' (idle_addr ?a c)) = NO_CPU"
      "magic (tasks s' (idle_addr ?a c))"
    and cu: "cur s' c = idle_addr ?a c" if "c < MAX_CPUS" for c
  proof -
    have "cur s' = cur s" "idle_addr ?a c = cur s c" using that P B unfolding booted_def pristine_def by blast+
    then show "cur s' c = idle_addr ?a c" by simp
    show "g_cpu_state s' c = zero_cpu\<lparr>idle_task := idle_addr ?a c, active := True\<rparr>"
      using that B unfolding booted_def by blast
    show "state (tasks s' (idle_addr ?a c)) = TASK_RUNNING" "current_cpu (tasks s' (idle_addr ?a c)) = c"
      "allocated_cpu (tasks s' (idle_addr ?a c)) = c" "stick_to_cpu (tasks s' (idle_addr ?a c)) = NO_CPU"
      "magic (tasks s' (idle_addr ?a c))"
      using that B unfolding booted_def Let_def by blast+
  qed
  have oth: "tasks s' p = tasks s p" if "\<forall>c < MAX_CPUS. p \<noteq> idle_addr ?a c" for p
    using that B by (simp add: booted_def)
  have pr: "current_cpu (tasks s p) = NO_CPU" "stick_to_cpu (tasks s p) = NO_CPU" "allocated_cpu (tasks s p) < MAX_CPUS" for p
    using P unfolding pristine_def by blast+
  have nz: "idle_addr ?a c \<noteq> 0" for c using conjunct1 [OF P [unfolded pristine_def]] by (simp add: idle_addr_def)
  have noq: "\<not> on_runqueue p s'" for p by (auto simp: on_runqueue_iff g zero_cpu_def)
  have "queues_ok s'" by (simp add: queues_ok_def g zero_cpu_def)
  moreover have "queued_ok s'" using noq by (simp add: queued_ok_def)
  moreover have "current_ok s'"
    unfolding current_ok_def
  proof (intro conjI allI impI)
    fix c p assume c: "c < MAX_CPUS" and cc: "current_cpu (tasks s' p) = c"
    show "p = cur s' c"
    proof (rule ccontr)
      assume n: "p \<noteq> cur s' c"
      have "\<forall>d < MAX_CPUS. p \<noteq> idle_addr ?a d" using n cc t(2) cu c by force
      then show False using oth pr(1) cc c NO_CPU_range by auto
    qed
  qed (use cu t nz in simp_all)
  moreover have "idle_ok s'" using g t nz cu unfolding idle_ok_def by (simp add: zero_cpu_def)
  moreover have "allocated_cpu (tasks s' p) < MAX_CPUS \<and> stick_to_cpu (tasks s' p) = NO_CPU" for p
  proof (cases "\<forall>c < MAX_CPUS. p \<noteq> idle_addr ?a c")
    case True
    then show ?thesis using oth pr by auto
  next
    case False
    then show ?thesis using t(3,4) by auto
  qed
  then have "cpus_valid s'" by (auto simp: cpus_valid_def)
  ultimately show ?thesis by (simp add: sched_inv_def)
qed

section \<open>What a call of \<open>_schedule\<close> does to the queues\<close>

definition usable :: "nat \<Rightarrow> sched \<Rightarrow> bool" where
  "usable c s \<longleftrightarrow> c = 0 \<or> active (g_cpu_state s c)"

definition unbound :: "nat \<Rightarrow> nat \<Rightarrow> sched \<Rightarrow> bool" where
  "unbound p c s \<longleftrightarrow> stick_to_cpu (tasks s p) = NO_CPU \<or> stick_to_cpu (tasks s p) = c"

text \<open>The queue of the cpu after the choice of the next task, with the choice itself.\<close>

definition chosen :: "nat \<Rightarrow> sched \<Rightarrow> nat \<times> nat list" where
  "chosen c s =
     (if \<not> usable c s then (idle_task (g_cpu_state s c), rq s c)
      else case rq s c of [] \<Rightarrow> (0, []) | p # ps \<Rightarrow> if unbound p c s then (p, ps) else (0, ps @ [p]))"

definition kept :: "sched \<Rightarrow> sched \<Rightarrow> bool" where
  "kept s s' \<longleftrightarrow> (\<forall>d. active (g_cpu_state s' d) = active (g_cpu_state s d)
       \<and> idle_task (g_cpu_state s' d) = idle_task (g_cpu_state s d))
     \<and> (\<forall>p. stick_to_cpu (tasks s' p) = stick_to_cpu (tasks s p))"

lemma kept_trans: "kept s s1 \<Longrightarrow> kept s1 s2 \<Longrightarrow> kept s s2"
  by (simp add: kept_def)

lemma pick_next_queues:
  assumes I: "sched_inv s" and c: "c < MAX_CPUS" and r: "pick_next c s = Some (n, s')"
  shows "(n, rq s' c) = chosen c s \<and> (\<forall>d. d \<noteq> c \<longrightarrow> rq s' d = rq s d) \<and> kept s s'"
proof (cases "usable c s")
  case False
  then show ?thesis using r by (auto simp: pick_next_def usable_def chosen_def kept_def split: if_splits)
next
  case act: True
  define fin where "fin t = (if intr_disabled (g_cpu_state t c) \<and> c \<noteq> 0 \<and> active (g_cpu_state t c)
      then upd_cpu c (\<lambda>c. c\<lparr>intr_disabled := False\<rparr>) t else t)" for t
  have sel: "rq (fin t) d = rq t d" "active (g_cpu_state (fin t) d) = active (g_cpu_state t d)"
    "idle_task (g_cpu_state (fin t) d) = idle_task (g_cpu_state t d)" "tasks (fin t) = tasks t" for t d
    by (simp_all add: fin_def)
  have na: "\<not> (c \<noteq> 0 \<and> \<not> active (g_cpu_state s c))" using act by (simp add: usable_def)
  have len: "run_queue_length (g_cpu_state s c) = int (length (rq s c))" by (rule sched_invD [OF I c])
  show ?thesis
  proof (cases "rq s c")
    case Nil
    then have "pick_next c s = Some (0, fin s)"
      unfolding pick_next_def if_not_P [OF na] fin_def using len by (simp add: del_from_runqueue_def)
    then show ?thesis using r act Nil by (auto simp: sel chosen_def kept_def)
  next
    case (Cons p ps)
    have p0: "p \<noteq> 0" and pk: "parked p (dequeue c s)"
      using dequeue_inv(2) [OF I c Cons] by (auto simp: parked_def)
    have del: "del_from_runqueue (- 99) c s = Some (p, dequeue c s)"
      using Cons len p0 by (simp add: del_from_runqueue_def dequeue_def upd_cpu_def)
    show ?thesis
    proof (cases "unbound p c s")
      case True
      then have "pick_next c s = Some (p, fin (dequeue c s))"
        unfolding pick_next_def if_not_P [OF na] del fin_def unbound_def using p0 by auto
      then show ?thesis using r act Cons True by (auto simp: sel chosen_def kept_def)
    next
      case False
      let ?t = "upd_task p (\<lambda>t. t\<lparr>allocated_cpu := stick_to_cpu t\<rparr>) (dequeue c s)"
      have "parked p ?t" using pk by (simp add: parked_def)
      then obtain m where "add_to_runqueue p (- 99) c ?t = Some (m, enqueue p c ?t)"
        using add_to_runqueue_here by blast
      then have "pick_next c s = Some (0, fin (enqueue p c ?t))"
        unfolding pick_next_def if_not_P [OF na] del fin_def using p0 False by (simp add: unbound_def)
      then show ?thesis using r act Cons False by (auto simp: sel chosen_def kept_def)
    qed
  qed
qed

text \<open>The task that gets the cpu, after the two fallbacks of \<open>_schedule\<close>.\<close>

definition next_task :: "nat \<Rightarrow> sched \<Rightarrow> nat" where
  "next_task c s = (let n = fst (chosen c s) in
     if n \<noteq> 0 then n else if state (tasks s (cur s c)) = TASK_RUNNING then cur s c else idle_task (g_cpu_state s c))"

lemma schedule_queues:
  assumes I: "sched_inv s" and c: "c < MAX_CPUS" and p: "state (tasks s (cur s c)) AND TASK_NONPREEMPTIVE = 0"
  shows "\<exists>s'. schedule c s = Some s' \<and> cur s' = (cur s)(c := next_task c s) \<and> kept s s'
    \<and> rq s' c = snd (chosen c s) @ (if next_task c s \<noteq> cur s c \<and> requeued (cur s c) c s then [cur s c] else [])
    \<and> (\<forall>d. d \<noteq> c \<longrightarrow> rq s' d = rq s d)"
proof -
  obtain n s1 where pk: "pick_next c s = Some (n, s1)" "sched_inv s1" "same_tasks s s1"
    "n = 0 \<or> n = idle_task (g_cpu_state s1 c) \<or> parked n s1 \<and> state (tasks s1 n) = TASK_RUNNING"
    using pick_next_ok [OF I c] by blast
  have q: "(n, rq s1 c) = chosen c s" "\<forall>d. d \<noteq> c \<longrightarrow> rq s1 d = rq s d" "kept s s1"
    using pick_next_queues [OF I c pk(1)] by auto
  have st: "cur s1 = cur s" "state (tasks s1 p) = state (tasks s p)" "idle_task (g_cpu_state s1 d) = idle_task (g_cpu_state s d)" for p d
    using pk(3) by (simp_all add: same_tasks_def)
  have nx: "next_task c s = (if n \<noteq> 0 then n else if state (tasks s (cur s c)) = TASK_RUNNING then cur s c else idle_task (g_cpu_state s c))"
    by (simp add: next_task_def flip: q(1))
  have "\<exists>s'. schedule c s = Some s'" using schedule_ok [OF I c] by blast
  then obtain s' where s': "schedule c s = Some s'" by blast
  have run: "schedule c s = (if cur s c = next_task c s then do { kassert (state (tasks s1 (cur s c)) = TASK_RUNNING); Some s1 }
      else switch_task (cur s c) (next_task c s) c s1)"
    using p pk(1) sched_invD(4,7) [OF I c] by (cases "n = 0") (simp_all add: schedule_def nx st Let_def)
  show ?thesis
  proof (cases "cur s c = next_task c s")
    case True
    then have e: "s' = s1" using run s' by (simp split: if_splits)
    show ?thesis
    proof (intro exI conjI)
      show "schedule c s = Some s1" using s' e by simp
      show "cur s1 = (cur s)(c := next_task c s)" by (simp add: st(1) flip: True)
      show "rq s1 c = snd (chosen c s) @ (if next_task c s \<noteq> cur s c \<and> requeued (cur s c) c s then [cur s c] else [])"
        by (simp flip: True q(1))
    qed (use q in simp_all)
  next
    case False
    obtain s2 where s2: "switch_task (cur s c) (next_task c s) c s1 = Some s2" "switched (cur s c) (next_task c s) c s1 s2"
      using switch_task_ok [OF pk(2) c] st(1) False by metis
    have rqd: "requeued (cur s c) c s1 = requeued (cur s c) c s" by (simp add: requeued_def st)
    have k: "kept s1 s2" using s2(2) by (simp add: switched_def kept_def)
    have "rq s2 c = snd (chosen c s) @ (if requeued (cur s c) c s then [cur s c] else [])"
      using s2(2) rqd by (simp add: switched_def flip: q(1))
    then show ?thesis
      using run s2 False q(2) st(1) kept_trans [OF q(3) k] by (auto simp: switched_def)
  qed
qed

section \<open>Round robin\<close>

definition ready :: "nat \<Rightarrow> sched \<Rightarrow> bool" where
  "ready c s \<longleftrightarrow> usable c s \<and> cur s c \<noteq> idle_task (g_cpu_state s c) \<and> state (tasks s (cur s c)) = TASK_RUNNING
     \<and> (\<forall>q \<in> set (cur s c # rq s c). unbound q c s)"

lemma schedule_rotates:
  assumes I: "sched_inv s" and c: "c < MAX_CPUS" and r: "ready c s"
  shows "\<exists>s'. schedule c s = Some s' \<and> sched_inv s' \<and> ready c s' \<and> cur s' c # rq s' c = rotate1 (cur s c # rq s c)
    \<and> (\<forall>d. d \<noteq> c \<longrightarrow> cur s' d = cur s d \<and> rq s' d = rq s d)"
proof -
  have np: "state (tasks s (cur s c)) AND TASK_NONPREEMPTIVE = 0" using r by (simp add: ready_def TASK_RUNNING_def)
  obtain s' where s': "schedule c s = Some s'" "cur s' = (cur s)(c := next_task c s)" "kept s s'"
    "rq s' c = snd (chosen c s) @ (if next_task c s \<noteq> cur s c \<and> requeued (cur s c) c s then [cur s c] else [])"
    "\<forall>d. d \<noteq> c \<longrightarrow> rq s' d = rq s d"
    using schedule_queues [OF I c np] by blast
  have i': "sched_inv s'" "sched_post c s s'" using schedule_ok [OF I c] s'(1) by auto
  have rot: "cur s' c # rq s' c = rotate1 (cur s c # rq s c)"
  proof (cases "rq s c")
    case Nil
    then show ?thesis using s'(2,4) r by (simp add: next_task_def chosen_def ready_def)
  next
    case (Cons p ps)
    have "p \<noteq> 0" "p \<noteq> cur s c"
      using sched_invD(2) [OF I c] cur_not_queued [OF I c] Cons c by (auto simp: on_runqueue_iff)
    then show ?thesis using s'(2,4) r Cons by (simp add: next_task_def chosen_def ready_def requeued_def)
  qed
  have mem: "set (cur s' c # rq s' c) = set (cur s c # rq s c)" unfolding rot by simp
  have "ready c s'"
    unfolding ready_def
  proof (intro conjI ballI)
    show "usable c s'" using r s'(3) by (simp add: ready_def usable_def kept_def)
    have "cur s' c \<in> set (cur s c # rq s c)" using mem by auto
    then have "cur s' c = cur s c \<or> on_runqueue (cur s' c) s" using c by (auto simp: on_runqueue_iff)
    then have x: "state (tasks s (cur s' c)) = TASK_RUNNING" "cur s' c \<noteq> idle_task (g_cpu_state s c)"
      using r queuedD [OF I, of "cur s' c"] c by (auto simp: ready_def is_idle_def)
    show "cur s' c \<noteq> idle_task (g_cpu_state s' c)" using x(2) s'(3) by (simp add: kept_def)
    show "state (tasks s' (cur s' c)) = TASK_RUNNING" using x(1) i'(2) by (simp add: sched_post_def)
    show "unbound q c s'" if "q \<in> set (cur s' c # rq s' c)" for q
    proof -
      have "unbound q c s" using that mem r unfolding ready_def by blast
      then show ?thesis using s'(3) by (simp add: unbound_def kept_def)
    qed
  qed
  then show ?thesis using s'(1,2,5) i'(1) rot by auto
qed

text \<open>A task that is bound to another cpu stays on the queue it is on.\<close>

lemma bound_stays:
  assumes I: "sched_inv s" and c: "c < MAX_CPUS" and q: "q \<in> set (rq s c)" "\<not> unbound q c s" and d: "d < MAX_CPUS"
  shows "\<exists>s'. schedule d s = Some s' \<and> sched_inv s' \<and> q \<in> set (rq s' c) \<and> \<not> unbound q c s'"
proof (cases "state (tasks s (cur s d)) AND TASK_NONPREEMPTIVE = 0")
  case False
  then show ?thesis using I q by (simp add: schedule_def)
next
  case True
  obtain s' where s': "schedule d s = Some s'" "kept s s'"
    "rq s' d = snd (chosen d s) @ (if next_task d s \<noteq> cur s d \<and> requeued (cur s d) d s then [cur s d] else [])"
    "\<forall>e. e \<noteq> d \<longrightarrow> rq s' e = rq s e"
    using schedule_queues [OF I d True] by blast
  have "sched_inv s'" using schedule_ok [OF I d] s'(1) by auto
  moreover have "q \<in> set (rq s' c)"
  proof (cases "c = d")
    case True
    then have "q \<in> set (snd (chosen d s))" using q by (auto simp: chosen_def split: list.splits)
    then show ?thesis using s'(3) True by simp
  qed (use s'(4) q(1) in simp)
  moreover have "\<not> unbound q c s'" using q(2) s'(2) by (simp add: unbound_def kept_def)
  ultimately show ?thesis using s'(1) by blast
qed

section \<open>Runs\<close>

datatype sched_op = Schedule nat | Yield nat | Start nat nat | Stick u64 nat | Kill u64 u64
  | Nonpreemptive nat | Preemptive nat | Continue_parent u64 nat | Timer "u64 option" nat

fun sched_exec :: "sched_op \<Rightarrow> sched \<Rightarrow> sched option" where
  "sched_exec (Schedule c) s = schedule c s"
| "sched_exec (Yield c) s = sc_schedule c s"
| "sched_exec (Start p c) s = start_task p c s"
| "sched_exec (Stick pid cpu) s = Some (snd (sc_task_stick_to_cpu pid cpu s))"
| "sched_exec (Kill pid sig) s = Some (snd (SYS_sc_kill pid sig s))"
| "sched_exec (Nonpreemptive c) s = sc_enable_nonpreemptive c s"
| "sched_exec (Preemptive c) s = Some (sc_disable_nonpreemptive c s)"
| "sched_exec (Continue_parent pid c) s = continue_parent_task pid c s"
| "sched_exec (Timer hw c) s = Some (timer_callback hw c s)"

text \<open>
  When a call is legal: on an existing cpu, a new task neither queued nor running, a task bound to an
  existing cpu, only real tasks made non-preemptive, and a stopped parent really off its cpu.
\<close>

fun sched_legal :: "sched_op \<Rightarrow> sched \<Rightarrow> bool" where
  "sched_legal (Schedule c) s \<longleftrightarrow> c < MAX_CPUS"
| "sched_legal (Yield c) s \<longleftrightarrow> c < MAX_CPUS"
| "sched_legal (Start p c) s \<longleftrightarrow> parked p s"
| "sched_legal (Stick pid cpu) s \<longleftrightarrow> cpu < MAX_CPUS \<or> cpu = NO_CPU"
| "sched_legal (Kill pid sig) s \<longleftrightarrow> True"
| "sched_legal (Nonpreemptive c) s \<longleftrightarrow> c < MAX_CPUS \<and> \<not> is_idle (cur s c) s"
| "sched_legal (Preemptive c) s \<longleftrightarrow> c < MAX_CPUS"
| "sched_legal (Continue_parent pid c) s \<longleftrightarrow>
     (case find_task pid s of None \<Rightarrow> True | Some p \<Rightarrow> state (tasks s p) = TASK_STOPPED \<longrightarrow> parked p s)"
| "sched_legal (Timer hw c) s \<longleftrightarrow> True"

text \<open>The invariant reads only these fields of a task.\<close>

lemma sched_frame_tasks:
  assumes "\<And>p. state (tasks s' p) = state (tasks s p) \<and> current_cpu (tasks s' p) = current_cpu (tasks s p)
      \<and> magic (tasks s' p) = magic (tasks s p) \<and> allocated_cpu (tasks s' p) = allocated_cpu (tasks s p)"
    "\<And>p. stick_to_cpu (tasks s' p) = stick_to_cpu (tasks s p) \<or> stick_to_cpu (tasks s' p) < MAX_CPUS \<or> stick_to_cpu (tasks s' p) = NO_CPU"
    "g_cpu_state s' = g_cpu_state s" "cur s' = cur s" "sched_inv s"
  shows "sched_inv s'"
proof -
  have der: "on_runqueue q s' = on_runqueue q s" "is_idle q s' = is_idle q s" for q
    unfolding on_runqueue_def is_idle_def assms by simp_all
  have "cpus_valid s'" using assms(1,2,5) unfolding sched_inv_def cpus_valid_def by metis
  then show ?thesis
    using assms(1,5) unfolding sched_inv_def queues_ok_def queued_ok_def current_ok_def idle_ok_def der assms(3,4) by simp
qed

lemma set_state_inv:
  assumes I: "sched_inv s" and c: "c < MAX_CPUS" and x: "is_idle (cur s c) s \<Longrightarrow> f (state (tasks s (cur s c))) = TASK_RUNNING"
  shows "sched_inv (upd_task (cur s c) (\<lambda>t. t\<lparr>state := f (state t)\<rparr>) s)"
proof -
  let ?u = "upd_task (cur s c) (\<lambda>t. t\<lparr>state := f (state t)\<rparr>) s"
  have t: "current_cpu (tasks ?u r) = current_cpu (tasks s r)" "magic (tasks ?u r) = magic (tasks s r)"
    "allocated_cpu (tasks ?u r) = allocated_cpu (tasks s r)" "stick_to_cpu (tasks ?u r) = stick_to_cpu (tasks s r)" for r
    by simp_all
  have "queued_ok ?u" using I cur_not_queued [OF I c] unfolding sched_inv_def queued_ok_def by auto
  moreover have "idle_ok ?u" using I x unfolding sched_inv_def idle_ok_def is_idle_def by auto
  ultimately show ?thesis
    using I unfolding sched_inv_def queues_ok_def current_ok_def cpus_valid_def t by simp
qed

lemma start_task_ok:
  assumes I: "sched_inv s" and p: "parked p s"
  shows "\<exists>s'. start_task p c s = Some s' \<and> sched_inv s' \<and> on_runqueue p s'"
proof -
  let ?s = "(upd_task p (\<lambda>t. t\<lparr>state := TASK_RUNNING\<rparr>) s)\<lparr>g_task_queue := g_task_queue s @ [p]\<rparr>"
  have t: "current_cpu (tasks ?s r) = current_cpu (tasks s r)" "magic (tasks ?s r) = magic (tasks s r)"
    "allocated_cpu (tasks ?s r) = allocated_cpu (tasks s r)" "stick_to_cpu (tasks ?s r) = stick_to_cpu (tasks s r)" for r
    by simp_all
  have der: "on_runqueue q ?s = on_runqueue q s" "is_idle q ?s = is_idle q s" for q
    by (simp_all add: on_runqueue_def is_idle_def)
  have "queued_ok ?s" using I p unfolding sched_inv_def queued_ok_def der parked_def by auto
  moreover have "idle_ok ?s" using I p unfolding sched_inv_def idle_ok_def parked_def is_idle_def by auto
  moreover have "queues_ok ?s" "current_ok ?s" "cpus_valid ?s"
    using I unfolding sched_inv_def queues_ok_def current_ok_def cpus_valid_def t by simp_all
  ultimately have "sched_inv ?s" by (simp add: sched_inv_def)
  moreover have "parked p ?s" using p unfolding parked_def der by simp
  ultimately obtain n s' where "add_to_runqueue p (- 1) c ?s = Some (n, s')" "sched_inv s'" "on_runqueue p s'"
    using add_to_runqueue_inv [of ?s p c] by blast
  then show ?thesis by (auto simp: start_task_def)
qed

lemma timer_callback_ok:
  assumes I: "sched_inv s"
  shows "sched_inv (timer_callback hw c s)"
proof -
  define s1 where "s1 = (if c = 0 then ar_update_jiffie hw s else s)"
  have same: "tasks s1 = tasks s" "g_cpu_state s1 = g_cpu_state s" "cur s1 = cur s"
    by (simp_all add: s1_def ar_update_jiffie_def split: option.splits)
  have I1: "sched_inv s1" by (rule sched_frame_tasks [OF _ _ _ _ I]) (simp_all add: same)
  define f where "f t = t\<lparr>counter := sint (word_of_int (counter t) - ucast (g_jiffies s1 - last_jiffie t) :: u32),
    ticks_consumed := ticks_consumed t + 1, last_jiffie := g_jiffies s1\<rparr>" for t :: task
  have "sched_inv (upd_task (cur s1 c) f s1)"
    by (rule sched_frame_tasks [OF _ _ _ _ I1]) (simp_all add: f_def)
  then show ?thesis using I1 unfolding timer_callback_def Let_def s1_def [symmetric] f_def [symmetric] by simp
qed

lemma sched_exec_ok:
  assumes I: "sched_inv s" and l: "sched_legal e s"
  shows "\<exists>s'. sched_exec e s = Some s' \<and> sched_inv s'"
proof (cases e)
  case (Start p c)
  then show ?thesis using start_task_ok [OF I] l by auto
next
  case (Stick pid cpu)
  have "sched_inv (snd (sc_task_stick_to_cpu pid cpu s))"
    using Stick l I by (auto simp: sc_task_stick_to_cpu_def split: option.splits if_splits intro!: sched_frame_tasks [OF _ _ _ _ I])
  then show ?thesis using Stick by simp
next
  case (Kill pid sig)
  have "sched_inv (snd (SYS_sc_kill pid sig s))"
    using I by (auto simp: SYS_sc_kill_def split: option.splits if_splits intro!: sched_frame_tasks [OF _ _ _ _ I])
  then show ?thesis using Kill by simp
next
  case (Nonpreemptive c)
  then show ?thesis
    using set_state_inv [OF I, of c "\<lambda>x. x OR TASK_NONPREEMPTIVE"] l
    by (simp add: sc_enable_nonpreemptive_def TASK_RUNNING_def)
next
  case (Preemptive c)
  have "state (tasks s (cur s c)) AND NOT TASK_NONPREEMPTIVE = TASK_RUNNING" if i: "is_idle (cur s c) s"
  proof -
    obtain d where "d < MAX_CPUS" "idle_task (g_cpu_state s d) = cur s c" using i by (auto simp: is_idle_def)
    then have "state (tasks s (cur s c)) = TASK_RUNNING" using sched_invD(8) [OF I, of d] by simp
    then show ?thesis by (simp add: TASK_RUNNING_def)
  qed
  then show ?thesis
    using set_state_inv [OF I, of c "\<lambda>x. x AND NOT TASK_NONPREEMPTIVE"] l Preemptive
    by (simp add: sc_disable_nonpreemptive_def)
next
  case (Continue_parent pid c)
  show ?thesis
  proof (cases "find_task pid s")
    case (Some p)
    show ?thesis
    proof (cases "state (tasks s p) = TASK_STOPPED")
      case True
      then have "parked p s" using l Some Continue_parent by simp
      then obtain n s' where "add_to_runqueue p (- 1) c s = Some (n, s')" "sched_inv s'"
        using add_to_runqueue_inv [OF I] by blast
      then show ?thesis using True Some Continue_parent by (simp add: continue_parent_task_def)
    qed (use I Some Continue_parent in \<open>simp add: continue_parent_task_def\<close>)
  qed (use I Continue_parent in \<open>simp add: continue_parent_task_def\<close>)
next
  case (Timer hw c)
  then show ?thesis using timer_callback_ok [OF I] by simp
qed (use schedule_ok [OF I] sc_schedule_ok [OF I] l in \<open>auto\<close>)

interpretation scheduler: machine sched_exec sched_legal sched_inv
  by unfold_locales (rule sched_exec_ok)

section \<open>A concrete machine\<close>

text \<open>
  Ten cpus with their idle tasks at 101 to 110; cpu 0 runs task 1 and has 2 and 3 queued, cpu 1
  runs task 4 and has 5 queued, which is bound to cpu 0.
\<close>

definition demo_task :: "nat \<Rightarrow> task" where
  "demo_task p = zero_task\<lparr>task_id := of_nat p, magic := True,
     current_cpu := (if p = 1 then 0 else if p = 4 then 1 else if 103 \<le> p \<and> p \<le> 110 then p - 101 else NO_CPU),
     stick_to_cpu := (if p = 5 then 0 else NO_CPU), allocated_cpu := (if p = 4 \<or> p = 5 then 1 else 0)\<rparr>"

definition demo_cpu :: "nat \<Rightarrow> cpu_state" where
  "demo_cpu c = zero_cpu\<lparr>idle_task := 101 + c, active := True,
     run_queue := (if c = 0 then [2, 3] else if c = 1 then [5] else []),
     run_queue_length := (if c = 0 then 2 else if c = 1 then 1 else 0)\<rparr>"

definition demo_sched :: sched where
  "demo_sched = \<lparr>tasks = demo_task, g_cpu_state = demo_cpu, cur = (\<lambda>c. if c = 0 then 1 else if c = 1 then 4 else 101 + c),
     g_task_queue = [1, 2, 3, 4, 5], free_pid_no = 6, g_jiffies = 0, g_conf_cpu_sched_ticks = 5, g_stat_idle_errs = 0,
     cpu_rr = 0, deadtask_list = []\<rparr>"

lemma demo_on_runqueue: "on_runqueue p demo_sched \<longleftrightarrow> p = 2 \<or> p = 3 \<or> p = 5"
proof -
  have q: "rq demo_sched c = (if c = 0 then [2, 3] else if c = 1 then [5] else [])" for c
    by (simp add: demo_sched_def demo_cpu_def)
  have "on_runqueue p demo_sched \<longleftrightarrow> p \<in> set (rq demo_sched 0) \<or> p \<in> set (rq demo_sched 1)"
    unfolding on_runqueue_iff q MAX_CPUS_def by force
  then show ?thesis by (auto simp: q)
qed

lemma demo_is_idle: "is_idle p demo_sched \<longleftrightarrow> 101 \<le> p \<and> p \<le> 110"
proof
  assume "101 \<le> p \<and> p \<le> 110"
  then have "p - 101 < MAX_CPUS" "101 + (p - 101) = p" by (auto simp: MAX_CPUS_def)
  then show "is_idle p demo_sched" unfolding is_idle_def by (intro exI [of _ "p - 101"]) (simp add: demo_sched_def demo_cpu_def)
qed (auto simp: is_idle_def demo_sched_def demo_cpu_def MAX_CPUS_def)

lemma demo_sched_inv: "sched_inv demo_sched"
proof -
  have "queues_ok demo_sched"
    by (auto simp: queues_ok_def demo_sched_def demo_cpu_def)
  moreover have "queued_ok demo_sched"
    unfolding queued_ok_def demo_on_runqueue demo_is_idle
    by (auto simp: demo_sched_def demo_task_def zero_task_def TASK_RUNNING_def)
  moreover have "current_ok demo_sched"
    by (auto simp: current_ok_def demo_sched_def demo_task_def zero_task_def MAX_CPUS_def NO_CPU_def split: if_splits)
  moreover have "idle_ok demo_sched"
    by (auto simp: idle_ok_def demo_sched_def demo_task_def demo_cpu_def zero_cpu_def zero_task_def TASK_RUNNING_def split: if_splits)
  moreover have "cpus_valid demo_sched"
    by (auto simp: cpus_valid_def demo_sched_def demo_task_def MAX_CPUS_def)
  ultimately show ?thesis by (simp add: sched_inv_def)
qed

definition demo_pristine :: sched where
  "demo_pristine = demo_sched\<lparr>tasks := (\<lambda>p. zero_task\<lparr>current_cpu := NO_CPU, stick_to_cpu := NO_CPU\<rparr>),
     cur := (\<lambda>c. 0x100000 + c * TASK_SIZE)\<rparr>"

lemma demo_pristine_ok: "pristine demo_pristine"
  by (simp add: pristine_def demo_pristine_def demo_sched_def zero_task_def idle_addr_def MAX_CPUS_def)

section \<open>Properties\<close>



text \<open>
  C10: Safety of scheduler runs. From a state that satisfies the scheduler invariant, no legal sequence
  of context switches, task starts, cpu bindings, signals, preemption changes, timer interrupts and
  continuations of stopped parents reaches \<open>BUG()\<close>, and the invariant holds at the end: no task is on two run
  queues, no task is queued while it runs, no two cpus run the same task.
\<close>

theorem sched_runs_safe:
  assumes "sched_inv s" "legal_run sched_exec sched_legal es s"
  shows "\<exists>s'. run_ops sched_exec es s = Some s' \<and> sched_inv s'
    \<and> (\<forall>c < MAX_CPUS. \<forall>d < MAX_CPUS. c \<noteq> d \<longrightarrow> set (rq s' c) \<inter> set (rq s' d) = {} \<and> cur s' c \<noteq> cur s' d)
    \<and> (\<forall>c < MAX_CPUS. \<not> on_runqueue (cur s' c) s')"
proof -
  obtain s' where s': "run_ops sched_exec es s = Some s'" "sched_inv s'"
    using scheduler.run_keeps_inv [OF assms] by blast
  have "cur s' c \<noteq> cur s' d" if "c < MAX_CPUS" "d < MAX_CPUS" "c \<noteq> d" for c d
    using that sched_invD(5) [OF s'(2)] by metis
  then show ?thesis using s' sched_invD(13) [OF s'(2)] cur_not_queued [OF s'(2)] by auto
qed

theorem sched_runs_safe_witness:
  "legal_run sched_exec sched_legal [Kill 3 9, Stick 2 1, Schedule 0] demo_sched
    \<and> (\<exists>s'. run_ops sched_exec [Kill 3 9, Stick 2 1, Schedule 0] demo_sched = Some s' \<and> sched_inv s')"
proof -
  have "legal_run sched_exec sched_legal [Kill 3 9, Stick 2 1, Schedule 0] demo_sched"
    by (simp add: MAX_CPUS_def split: option.splits)
  then show ?thesis using sched_runs_safe [OF demo_sched_inv, of "[Kill 3 9, Stick 2 1, Schedule 0]"] by blast
qed

text \<open>
  C11: Round robin. On a cpu whose running task and queued tasks are runnable and not bound elsewhere,
  \<open>n\<close> calls of \<open>_schedule\<close> rotate the running task and the run queue by \<open>n\<close>: the task at position
  \<open>n\<close> of the queue runs after exactly \<open>n\<close> calls, and nobody is skipped.
\<close>

theorem schedule_round_robin:
  assumes "sched_inv s" "c < MAX_CPUS" "ready c s"
  shows "\<exists>s'. run_ops sched_exec (replicate n (Schedule c)) s = Some s'
    \<and> cur s' c # rq s' c = rotate n (cur s c # rq s c)
    \<and> cur s' c = (cur s c # rq s c) ! (n mod (length (rq s c) + 1))"
proof -
  have rot: "sched_inv s \<Longrightarrow> ready c s \<Longrightarrow> \<exists>s'. run_ops sched_exec (replicate n (Schedule c)) s = Some s'
      \<and> cur s' c # rq s' c = rotate n (cur s c # rq s c)" for s
  proof (induction n arbitrary: s)
    case (Suc n)
    obtain s1 where s1: "schedule c s = Some s1" "sched_inv s1" "ready c s1" "cur s1 c # rq s1 c = rotate1 (cur s c # rq s c)"
      using schedule_rotates [OF Suc.prems(1) assms(2) Suc.prems(2)] by blast
    have "rotate n (cur s1 c # rq s1 c) = rotate (Suc n) (cur s c # rq s c)"
      unfolding s1(4) by (simp add: rotate_def funpow_swap1)
    then show ?case using Suc.IH [OF s1(2,3)] s1(1) by auto
  qed simp
  obtain s' where s': "run_ops sched_exec (replicate n (Schedule c)) s = Some s'"
    "cur s' c # rq s' c = rotate n (cur s c # rq s c)"
    using rot [OF assms(1,3)] by blast
  have "cur s' c = hd (rotate n (cur s c # rq s c))" unfolding s'(2) [symmetric] by simp
  also have "\<dots> = (cur s c # rq s c) ! (n mod (length (rq s c) + 1))"
    by (simp add: hd_rotate_conv_nth)
  finally show ?thesis using s' by blast
qed

theorem schedule_round_robin_witness:
  "\<exists>s'. run_ops sched_exec (replicate 2 (Schedule 0)) demo_sched = Some s' \<and> cur s' 0 = 3 \<and> rq s' 0 = [1, 2]"
proof -
  have "ready 0 demo_sched"
    by (auto simp: ready_def usable_def unbound_def demo_sched_def demo_task_def demo_cpu_def zero_task_def TASK_RUNNING_def)
  then obtain s' where "run_ops sched_exec (replicate 2 (Schedule 0)) demo_sched = Some s'"
    "cur s' 0 # rq s' 0 = rotate 2 (cur demo_sched 0 # rq demo_sched 0)"
    using schedule_round_robin [OF demo_sched_inv, of 0 2] by (auto simp: MAX_CPUS_def)
  moreover have "rotate 2 (cur demo_sched 0 # rq demo_sched 0) = [3, 1, 2]"
    by (simp add: demo_sched_def demo_cpu_def numeral_2_eq_2)
  ultimately show ?thesis by auto
qed

text \<open>
  C12: A task bound to another cpu starves. \<open>_schedule\<close> puts a task whose \<open>stick_to_cpu\<close> names another
  cpu back on the queue of its own cpu (\<open>add_to_runqueue(next, -99)\<close>), although it has just set
  \<open>allocated_cpu\<close>: whatever context switches follow, on any cpus, the task stays on that queue and never runs.
\<close>

theorem bound_task_starves:
  assumes "sched_inv s" "c < MAX_CPUS" "q \<in> set (rq s c)" "stick_to_cpu (tasks s q) \<noteq> NO_CPU" "stick_to_cpu (tasks s q) \<noteq> c"
    and "list_all (\<lambda>d. d < MAX_CPUS) ds"
  shows "\<exists>s'. run_ops sched_exec (map Schedule ds) s = Some s' \<and> q \<in> set (rq s' c) \<and> (\<forall>d < MAX_CPUS. cur s' d \<noteq> q)"
proof -
  have ub: "\<not> unbound q c s" using assms(4,5) by (simp add: unbound_def)
  have "\<exists>s'. run_ops sched_exec (map Schedule ds) s = Some s' \<and> sched_inv s' \<and> q \<in> set (rq s' c)"
    using assms(1,3,6) ub
  proof (induction ds arbitrary: s)
    case (Cons d ds)
    obtain s1 where "schedule d s = Some s1" "sched_inv s1" "q \<in> set (rq s1 c)" "\<not> unbound q c s1"
      using bound_stays [OF Cons.prems(1) assms(2) Cons.prems(2,4)] Cons.prems(3) by auto
    then show ?case using Cons.IH [of s1] Cons.prems(3) by simp
  qed simp
  then obtain s' where s': "run_ops sched_exec (map Schedule ds) s = Some s'" "sched_inv s'" "q \<in> set (rq s' c)" by blast
  have "cur s' d \<noteq> q" if "d < MAX_CPUS" for d
    using cur_not_queued [OF s'(2) that] s'(3) assms(2) by (auto simp: on_runqueue_iff)
  then show ?thesis using s' by blast
qed

theorem bound_task_starves_witness:
  "\<exists>s'. run_ops sched_exec (map Schedule [1, 0, 1, 1]) demo_sched = Some s' \<and> 5 \<in> set (rq s' 1)"
  using bound_task_starves [OF demo_sched_inv, of 1 5 "[1, 0, 1, 1]"]
  by (auto simp: MAX_CPUS_def NO_CPU_def demo_sched_def demo_task_def demo_cpu_def)

text \<open>
  C14: \<open>get_free_cpu\<close> never names a cpu outside the configured range: it returns a cpu below
  \<open>getmaxcpus()\<close> that is active, the configured one, or cpu 0, and its counter only grows.
\<close>

theorem get_free_cpu_in_range:
  assumes "0 < maxcpus" "0 \<le> cpu_rr s" "cpu_rr s + 2 < 2 ^ 31" "0 \<le> stick"
  shows "\<exists>k s'. get_free_cpu maxcpus netbh stick s = Some (k, s') \<and> k < maxcpus
    \<and> (stick \<noteq> 99 \<and> k = nat stick \<or> active (g_cpu_state s k) \<or> k = 0) \<and> cpu_rr s < cpu_rr s' \<and> tasks s' = tasks s"
  using get_free_cpu_ok [OF assms(1,3,2,4), of netbh] by fastforce

theorem get_free_cpu_in_range_witness:
  "\<exists>k s'. get_free_cpu 4 0 99 demo_sched = Some (k, s') \<and> k < 4"
proof -
  have "cpu_rr demo_sched = 0" by (simp add: demo_sched_def)
  then show ?thesis using get_free_cpu_in_range [of 4 demo_sched 99 0] by auto
qed

end
