(* ===== verification/Blocking.thy ===== *)
theory Blocking
  imports Wait_Queue Sched_Runs
begin

text \<open>
  Blocking and waking on top of the wait queues: a task that waits is asleep with the deadline it
  asked for, the timer wakes it neither early nor more than its position late, and no sequence of
  waits, wakeups, ticks and context switches stops the kernel.
\<close>

section \<open>Waiting\<close>

lemma wait_internal_ok:
  assumes I: "kern_inv k" and c: "c < MAX_CPUS" and w: "wait_queues k i = Some w"
    and n: "\<not> is_idle (cur (sch k) c) (sch k)" and np: "state (tasks (sch k) (cur (sch k) c)) \<noteq> TASK_NONPREEMPTIVE"
  defines "p \<equiv> cur (sch k) c"
  shows "\<exists>k'. wait_internal i ticks c k = Some k' \<and> kern_inv k' \<and> asleep p (sch k')
    \<and> (\<forall>j. j \<noteq> i \<longrightarrow> queue_deadlines k' j = queue_deadlines k j)
    \<and> queue_deadlines k' i = takeWhile (\<lambda>(t, d). d \<le> ticks) (queue_deadlines k i) @ (p, ticks) #
        dropWhile (\<lambda>(t, d). d \<le> ticks) (queue_deadlines k i)"
proof -
  have S: "sched_inv (sch k)" and W: "queues_wf (wait_queues k)"
    and A: "\<And>q. waiting q k \<Longrightarrow> asleep q (sch k)" and T: "\<And>j. sorted (map snd (queue_deadlines k j))"
    using I by (auto simp: kern_inv_def)
  have notw: "\<not> waiting p k"
    using A [of p] sched_invD(5) [OF S c] c NO_CPU_range by (auto simp: asleep_def parked_def p_def)
  define s1 where "s1 = upd_task p (\<lambda>t. t\<lparr>state := TASK_INTERRUPTIBLE\<rparr>) (sch k)"
  have S1: "sched_inv s1" unfolding s1_def p_def by (rule upd_state_inv [OF S c n])
  have s1: "cur s1 = cur (sch k)" "sleep_of s1 = sleep_of (sch k)" "g_cpu_state s1 = g_cpu_state (sch k)"
    by (auto simp: s1_def)
  define u where "u = w\<lparr>stat_wait_count := stat_wait_count w + 1\<rparr>"
  define k1 where "k1 = set_wq i u (k\<lparr>sch := s1\<rparr>)"
  have k1: "sch k1 = s1" "wait_queues k1 = (wait_queues k)(i \<mapsto> u)" by (simp_all add: k1_def)
  have ut: "wq_tasks u = wq_tasks w" by (simp add: u_def)
  have qd: "queue_deadlines k1 j = queue_deadlines k j" for j
    unfolding queue_deadlines_def k1 s1(2) using w ut by simp
  have wait1: "waiting q k1 = waiting q k" for q
  proof -
    have "waiting q k1 = waiting q (set_wq i u k)" by (rule wait_queues_frame) (simp add: k1_def)
    also have "\<dots> = waiting q k" unfolding waiting_upd(2) waiting_split [OF w] ut by (rule refl)
    finally show ?thesis .
  qed
  have W1: "queues_wf (wait_queues k1)"
    unfolding k1 using queues_wf_shrink [OF W w, of u] queues_wfD(1) [OF W w] by (simp add: ut)
  have w1: "wait_queues k1 i = Some u" by (simp add: k1)
  have ni: "p \<noteq> idle_task (g_cpu_state (sch k1) c)"
    using n c by (auto simp: k1 s1(3) is_idle_def p_def)
  obtain k2 sl where k2: "add_to_me i p ticks c k1 = Some k2" "sch k2 = set_sleep sl s1" "queues_wf (wait_queues k2)"
    "\<And>j. sorted (map snd (queue_deadlines k2 j))" "\<And>q. waiting q k2 \<longleftrightarrow> q = p \<or> waiting q k"
    "\<And>j. j \<noteq> i \<Longrightarrow> queue_deadlines k2 j = queue_deadlines k j"
    "queue_deadlines k2 i = takeWhile (\<lambda>(t, d). d \<le> ticks) (queue_deadlines k i) @ (p, ticks) #
        dropWhile (\<lambda>(t, d). d \<le> ticks) (queue_deadlines k i)"
    using add_to_me_ok [OF W1 _ w1, of p c ticks] T notw ni by (auto simp: qd wait1 k1(1))
  have S2: "sched_inv (sch k2)" using S1 by (simp add: k2(2))
  obtain s3 where s3: "sc_schedule c (sch k2) = Some s3" "sched_inv s3" "sched_post c (sch k2) s3"
    using sc_schedule_ok [OF S2 c] by blast
  define k3 where "k3 = k2\<lparr>sch := s3\<rparr>"
  have run: "wait_internal i ticks c k = Some k3"
    using np w k2(1) s3(1)
    by (simp add: wait_internal_def k3_def k1_def u_def s1_def p_def Let_def)
  have st: "state (tasks (sch k2) p) = TASK_INTERRUPTIBLE" "cur (sch k2) c = p"
    by (simp_all add: k2(2) s1(1)) (simp_all add: s1_def p_def)
  have slp: "sleep_of s3 = sleep_of (sch k2)" "state (tasks s3 q) = state (tasks (sch k2) q)" for q
    using s3(3) by (auto simp: sched_post_def)
  have ne: "TASK_INTERRUPTIBLE \<noteq> TASK_RUNNING" "TASK_INTERRUPTIBLE AND TASK_NONPREEMPTIVE = 0"
    by (simp_all add: task_states)
  have ap: "asleep p s3"
    using s3(3) st ne slp(2) by (simp add: asleep_def sched_post_def)
  have aq: "asleep q s3" if "waiting q k" for q
  proof -
    have "q \<noteq> p" using that notw by auto
    then have "asleep q s1" using A [OF that] by (simp add: asleep_def parked_def s1_def)
    then have "asleep q (sch k2)" by (simp add: k2(2))
    then show ?thesis using s3(3) slp(2) ne(1) by (auto simp: asleep_def sched_post_def)
  qed
  have qd3: "queue_deadlines k3 j = queue_deadlines k2 j" for j
    unfolding queue_deadlines_def by (simp add: k3_def slp(1))
  have "waiting q k3 = waiting q k2" for q by (simp add: k3_def waiting_upd(1))
  then have "kern_inv k3"
    unfolding kern_inv_def using s3(2) k2(3,4,5) ap aq qd3 by (auto simp: k3_def)
  then show ?thesis using run ap k2(6,7) qd3 by (auto simp: k3_def)
qed

section \<open>Leaving a queue\<close>

text \<open>What \<open>_ipc_delete_from_waitqueues\<close> does to one queue.\<close>

lemma del_from_me_ok:
  assumes I: "kern_inv k" and w: "wait_queues k i = Some w" and p: "p \<in> set (wq_tasks w)"
  shows "\<exists>k'. del_from_me i p k = Some (JSUCCESS, k') \<and> kern_inv k' \<and> \<not> waiting p k' \<and> asleep p (sch k')
    \<and> (\<forall>j. queue_deadlines k' j = filter (\<lambda>(t, d). t \<noteq> p) (queue_deadlines k j))"
proof -
  have W: "queues_wf (wait_queues k)" and A: "\<And>q. waiting q k \<Longrightarrow> asleep q (sch k)"
    and T: "\<And>j. sorted (map snd (queue_deadlines k j))" and S: "sched_inv (sch k)"
    using I by (auto simp: kern_inv_def)
  have wp: "waiting p k" by (rule waitingI [OF w p])
  have p0: "p \<noteq> 0" using A [OF wp] by (simp add: asleep_def parked_def)
  have d: "distinct (wq_tasks w)" by (rule queues_wfD [OF W w])
  obtain ts sl where del: "delete_ticks (sleep_of (sch k)) p (wq_tasks w) = Some (ts, sl)"
    using delete_ticks_Some [OF p] by blast
  have D: "deadlines sl 0 ts = filter (\<lambda>(t, d). t \<noteq> p) (deadlines (sleep_of (sch k)) 0 (wq_tasks w))"
    "ts = remove1 p (wq_tasks w)" "\<And>q. q \<notin> set (wq_tasks w) \<Longrightarrow> sl q = sleep_of (sch k) q"
    using delete_ticks_deadlines [OF d del, of 0] by blast+
  let ?u = "w\<lparr>wq_tasks := ts\<rparr>"
  let ?k = "(set_wq i ?u k)\<lparr>sch := set_sleep sl (sch k)\<rparr>"
  have wt: "waiting q ?k \<longleftrightarrow> q \<noteq> p \<and> waiting q k" for q
    using waiting_remove [OF W w p, of ?u q] D(2) by (simp add: waiting_upd(1))
  have mine: "queue_deadlines ?k i = filter (\<lambda>(t, d). t \<noteq> p) (queue_deadlines k i)"
    using D(1) w by (simp add: queue_deadlines_def)
  have other: "queue_deadlines ?k j = queue_deadlines k j" if "j \<noteq> i" for j
    using that D(3) by (intro queue_deadlines_other [OF W w]) auto
  have none: "filter (\<lambda>(t, d). t \<noteq> p) (queue_deadlines k j) = queue_deadlines k j" if "j \<noteq> i" for j
  proof -
    have "p \<notin> set (wq_tasks v)" if "wait_queues k j = Some v" for v
      using queues_wfD(2) [OF W w that] \<open>j \<noteq> i\<close> p by blast
    then show ?thesis unfolding queue_deadlines_def by (intro filter_deadlines) (auto split: option.splits)
  qed
  have all: "queue_deadlines ?k j = filter (\<lambda>(t, d). t \<noteq> p) (queue_deadlines k j)" for j
    using mine other none by (cases "j = i") simp_all
  have "sorted (map snd (queue_deadlines ?k j))" for j
    unfolding all using T [of j] by (rule sorted_filter)
  moreover have "queues_wf (wait_queues ?k)"
    using queues_wf_shrink [OF W w, of ?u] D(2) d by (simp add: set_remove1_eq distinct_remove1 Diff_subset)
  ultimately have "kern_inv ?k" using S A wt by (simp add: kern_inv_def)
  moreover have "del_from_me i p k = Some (JSUCCESS, ?k)" using w p0 del by (simp add: del_from_me_def)
  ultimately show ?thesis using all wt A [OF wp] by auto
qed

lemma del_from_me_absent:
  "wait_queues k i = Some w \<Longrightarrow> p \<notin> set (wq_tasks w) \<Longrightarrow> del_from_me i p k = Some (JFAIL, k)"
  by (simp add: del_from_me_def delete_ticks_None)

lemma delete_from_ok:
  "kern_inv k \<Longrightarrow> i \<le> j \<Longrightarrow> j < i + n \<Longrightarrow> wait_queues k j = Some w \<Longrightarrow> p \<in> set (wq_tasks w) \<Longrightarrow>
   \<exists>k'. delete_from n i p k = Some k' \<and> del_from_me j p k = Some (JSUCCESS, k')"
proof (induction n arbitrary: i)
  case (Suc n)
  have W: "queues_wf (wait_queues k)" using Suc.prems(1) by (simp add: kern_inv_def)
  show ?case
  proof (cases "i = j")
    case True
    then show ?thesis using del_from_me_ok [OF Suc.prems(1,4,5)] Suc.prems(4) by auto
  next
    case False
    have "p \<notin> set (wq_tasks v)" if "wait_queues k i = Some v" for v
      using queues_wfD(2) [OF W Suc.prems(4) that] False Suc.prems(5) by blast
    then have "delete_from (Suc n) i p k = delete_from n (i + 1) p k"
      using del_from_me_absent [of k i _ p] by (cases "wait_queues k i") auto
    then show ?thesis using Suc.IH [of "i + 1"] Suc.prems False by simp
  qed
qed simp

section \<open>Runs\<close>

text \<open>
  \<open>do_softirq\<close>, the bottom half of the timer interrupt, without its profiling and network parts: the
  boot cpu advances the wait queues, and a task whose time slice is used up gives way.
\<close>

definition do_softirq :: "nat \<Rightarrow> kern \<Rightarrow> kern option" where
  "do_softirq my_cpuid k = do {
     k \<leftarrow> (if my_cpuid = 0 then ipc_check_waitqueues my_cpuid k else Some k);
     if counter (tasks (sch k) (cur (sch k) my_cpuid)) \<le> 0 then do {
       s \<leftarrow> sc_schedule my_cpuid (sch k);
       Some (k\<lparr>sch := s\<rparr>) }
     else Some k }"

datatype kern_op = New_queue u64 | Wait nat int nat | Wakeup nat nat | Softirq nat | Switch nat
  | Start_task nat nat | Forget nat

fun kern_exec :: "kern_op \<Rightarrow> kern \<Rightarrow> kern option" where
  "kern_exec (New_queue fl) k = Some (snd (wait_queue_new fl k))"
| "kern_exec (Wait i ticks c) k = wait_internal i ticks c k"
| "kern_exec (Wakeup i c) k = map_option snd (wakeup i c k)"
| "kern_exec (Softirq c) k = do_softirq c k"
| "kern_exec (Switch c) k = map_option (\<lambda>s. k\<lparr>sch := s\<rparr>) (sc_schedule c (sch k))"
| "kern_exec (Start_task p c) k = map_option (\<lambda>s. k\<lparr>sch := s\<rparr>) (start_task p c (sch k))"
| "kern_exec (Forget p) k = ipc_delete_from_waitqueues p k"

fun kern_legal :: "kern_op \<Rightarrow> kern \<Rightarrow> bool" where
  "kern_legal (New_queue fl) k \<longleftrightarrow> True"
| "kern_legal (Wait i ticks c) k \<longleftrightarrow> c < MAX_CPUS \<and> wait_queues k i \<noteq> None \<and> \<not> is_idle (cur (sch k) c) (sch k)
     \<and> state (tasks (sch k) (cur (sch k) c)) \<noteq> TASK_NONPREEMPTIVE"
| "kern_legal (Wakeup i c) k \<longleftrightarrow> wait_queues k i \<noteq> None"
| "kern_legal (Softirq c) k \<longleftrightarrow> c < MAX_CPUS"
| "kern_legal (Switch c) k \<longleftrightarrow> c < MAX_CPUS"
| "kern_legal (Start_task p c) k \<longleftrightarrow> parked p (sch k) \<and> \<not> waiting p k"
| "kern_legal (Forget p) k \<longleftrightarrow> True"

lemma kern_inv_sch:
  assumes "kern_inv k" "sched_inv s" "\<And>p. waiting p k \<Longrightarrow> asleep p s \<and> sleep_of s p = sleep_of (sch k) p"
  shows "kern_inv (k\<lparr>sch := s\<rparr>)"
proof -
  have same: "deadlines (sleep_of s) 0 ts = deadlines (sleep_of (sch k)) 0 ts" if "\<And>t. t \<in> set ts \<Longrightarrow> waiting t k" for ts
    using assms(3) that by (intro deadlines_cong) blast
  have "queue_deadlines (k\<lparr>sch := s\<rparr>) i = queue_deadlines k i" for i
  proof (cases "wait_queues k i")
    case (Some w)
    then show ?thesis using same [of "wq_tasks w"] waitingI [OF Some] by (simp add: queue_deadlines_def)
  qed (simp add: queue_deadlines_def)
  then show ?thesis using assms by (simp add: kern_inv_def waiting_upd(1))
qed

lemma switch_kern_ok:
  assumes "kern_inv k" "c < MAX_CPUS"
  shows "\<exists>s. sc_schedule c (sch k) = Some s \<and> kern_inv (k\<lparr>sch := s\<rparr>)"
proof -
  obtain s where s: "sc_schedule c (sch k) = Some s" "sched_inv s" "sched_post c (sch k) s"
    using sc_schedule_ok [of "sch k" c] assms by (auto simp: kern_inv_def)
  have "kern_inv (k\<lparr>sch := s\<rparr>)"
  proof (rule kern_inv_sch [OF assms(1) s(2)])
    fix p assume "waiting p k"
    then have "asleep p (sch k)" using assms(1) by (simp add: kern_inv_def)
    moreover have "TASK_INTERRUPTIBLE \<noteq> TASK_RUNNING" by (simp add: task_states)
    ultimately show "asleep p s \<and> sleep_of s p = sleep_of (sch k) p"
      using s(3) by (auto simp: asleep_def sched_post_def)
  qed
  then show ?thesis using s(1) by blast
qed

lemma start_task_frame:
  assumes I: "sched_inv s" and p: "parked p s"
  shows "\<exists>s'. start_task p c s = Some s' \<and> sched_inv s' \<and> (\<forall>q. q \<noteq> p \<longrightarrow> asleep q s' = asleep q s \<and> sleep_of s' q = sleep_of s q)"
proof -
  let ?s = "(upd_task p (\<lambda>t. t\<lparr>state := TASK_RUNNING\<rparr>) s)\<lparr>g_task_queue := g_task_queue s @ [p]\<rparr>"
  have der: "on_runqueue q ?s = on_runqueue q s" "is_idle q ?s = is_idle q s" for q
    by (simp_all add: on_runqueue_def is_idle_def)
  have pk: "parked p ?s" using p unfolding parked_def der by simp
  have al: "allocated_cpu (tasks ?s p) < MAX_CPUS" using I by (simp add: sched_inv_def cpus_valid_def)
  obtain n d s1 where r: "add_to_runqueue p (- 1) c ?s = Some (n, enqueue p d s1)" "d < MAX_CPUS"
    "s1 = upd_task p (\<lambda>t. t\<lparr>allocated_cpu := d\<rparr>) ?s"
    using add_to_runqueue_allocated [OF pk al] by blast
  have st: "start_task p c s = Some (enqueue p d s1)" using r(1) by (simp add: start_task_def)
  moreover have "sched_inv (enqueue p d s1)" using start_task_ok [OF I p, of c] st by simp
  moreover have "asleep q (enqueue p d s1) = asleep q s \<and> sleep_of (enqueue p d s1) q = sleep_of s q" if "q \<noteq> p" for q
    using that r(2) unfolding asleep_def parked_def r(3) by (simp add: der)
  ultimately show ?thesis by blast
qed

lemma first_free_Some: "first_free n j m = Some i \<Longrightarrow> m i = None \<and> i < j + n"
  by (induction n arbitrary: j) (fastforce split: if_splits)+

lemma wait_queue_new_ok:
  assumes I: "kern_inv k" shows "kern_inv (snd (wait_queue_new fl k))"
proof (cases "first_free MAX_WAIT_QUEUES 0 (wait_queues k)")
  case None
  then show ?thesis using I by (simp add: wait_queue_new_def)
next
  case (Some i)
  have free: "wait_queues k i = None" and bound: "i < MAX_WAIT_QUEUES" using first_free_Some [OF Some] by auto
  define w where "w = \<lparr>wq_tasks = [], wq_flags = fl, used_for = 0, stat_wait_count = 0, stat_wait_ticks = 0, stat_wakeon_samecpu = 0\<rparr>"
  have "waiting p (set_wq i w k) \<longleftrightarrow> waiting p k" for p
  proof -
    have "waiting p k \<longleftrightarrow> (\<exists>j v. j \<noteq> i \<and> wait_queues k j = Some v \<and> p \<in> set (wq_tasks v))"
      unfolding waiting_def using free by (metis option.distinct(1))
    then show ?thesis unfolding waiting_upd(2) by (simp add: w_def)
  qed
  moreover have "queues_wf ((wait_queues k)(i \<mapsto> w))"
    using I bound by (intro queues_wf_upd) (simp_all add: kern_inv_def w_def)
  moreover have "queue_deadlines (set_wq i w k) j = queue_deadlines k j" for j
    by (simp add: queue_deadlines_def w_def free)
  ultimately have "kern_inv (set_wq i w k)" using I by (simp add: kern_inv_def)
  then show ?thesis using Some by (simp add: wait_queue_new_def w_def)
qed

lemma wakeup_ok:
  assumes I: "kern_inv k" and w: "wait_queues k i = Some w"
  defines "n \<equiv> (if wq_flags w AND WAIT_QUEUE_WAKEUP_ONE = 0 then length (wq_tasks w) else min 1 (length (wq_tasks w)))"
  shows "\<exists>k'. wakeup i c k = Some (int n, k') \<and> kern_inv k' \<and> cur (sch k') = cur (sch k)
    \<and> wait_queues k' = (wait_queues k)(i \<mapsto> w\<lparr>wq_tasks := drop n (wq_tasks w)\<rparr>)
    \<and> (\<forall>q \<in> set (take n (wq_tasks w)). on_runqueue q (sch k'))"
proof (cases "wq_flags w AND WAIT_QUEUE_WAKEUP_ONE = 0")
  case True
  then show ?thesis
    using wakeup_loop_all [OF I w True, of c 0] unfolding wakeup_def n_def by auto
next
  case one: False
  show ?thesis
  proof (cases "wq_tasks w")
    case Nil
    then have "w\<lparr>wq_tasks := []\<rparr> = w" by simp
    then show ?thesis
      using I w Nil one unfolding wakeup_def n_def by (subst wakeup_loop.simps) (simp add: fun_upd_idem)
  next
    case (Cons p ps)
    obtain here wc k1 where f: "wake_first i c k = Some (here, wc, k1)" "woken i p w k k1"
      using wake_first_ok [OF I w Cons] by blast
    define k2 where "k2 = (if here then k1
      else snd (wakeup_cpus (int wc) c (k1\<lparr>g_stat_async_wakeups := g_stat_async_wakeups k1 + 1\<rparr>)))"
    have k2: "kern_inv k2" "wait_queues k2 = wait_queues k1" "sch k2 = sch k1"
      using f(2) by (auto simp: k2_def kern_inv_simps woken_def)
    have "wakeup i c k = Some (1, k2)"
      unfolding wakeup_def using w one Cons f(1) by (subst wakeup_loop.simps) (simp add: Let_def k2_def)
    then show ?thesis using k2 f(2) Cons one by (auto simp: n_def woken_def)
  qed
qed

lemma forget_ok:
  assumes I: "kern_inv k"
  shows "\<exists>k'. ipc_delete_from_waitqueues p k = Some k' \<and> kern_inv k' \<and> \<not> waiting p k'
    \<and> (\<forall>j. queue_deadlines k' j = filter (\<lambda>(t, d). t \<noteq> p) (queue_deadlines k j))"
proof (cases "waiting p k")
  case True
  then obtain i w where w: "wait_queues k i = Some w" "p \<in> set (wq_tasks w)" by (auto simp: waiting_def)
  have "p \<noteq> 0" using I True by (auto simp: kern_inv_def asleep_def parked_def)
  moreover have "i < 0 + MAX_WAIT_QUEUES" using queues_wfD(3) [of "wait_queues k" i w] w(1) I by (simp add: kern_inv_def)
  then obtain k' where "delete_from MAX_WAIT_QUEUES 0 p k = Some k'" "del_from_me i p k = Some (JSUCCESS, k')"
    using delete_from_ok [OF I _ _ w, of 0] by auto
  ultimately show ?thesis
    using del_from_me_ok [OF I w] by (auto simp: ipc_delete_from_waitqueues_def)
next
  case False
  have "delete_from n i p k = Some k" for n i
  proof (induction n arbitrary: i)
    case (Suc n)
    show ?case
    proof (cases "wait_queues k i")
      case (Some w)
      then have "p \<notin> set (wq_tasks w)" using False waitingI [OF Some] by blast
      then show ?thesis using Suc del_from_me_absent [OF Some] Some by simp
    qed (simp add: Suc)
  qed simp
  moreover have "filter (\<lambda>(t, d). t \<noteq> p) (queue_deadlines k j) = queue_deadlines k j" for j
    unfolding queue_deadlines_def using False waitingI [of k j]
    by (intro filter_deadlines) (cases "wait_queues k j"; auto)
  ultimately show ?thesis using I False by (cases "p = 0") (auto simp: ipc_delete_from_waitqueues_def)
qed

lemma tick_ok:
  "kern_inv k \<Longrightarrow> \<exists>k'. ipc_check_waitqueues c k = Some k' \<and> ticked {0 ..< MAX_WAIT_QUEUES} k k'"
  using check_from_ok [of k MAX_WAIT_QUEUES 0 c] by (simp add: ipc_check_waitqueues_def)

lemma kern_exec_ok:
  assumes I: "kern_inv k" and l: "kern_legal e k"
  shows "\<exists>k'. kern_exec e k = Some k' \<and> kern_inv k'"
proof (cases e)
  case (New_queue fl)
  then show ?thesis using wait_queue_new_ok [OF I] by simp
next
  case (Wait i ticks c)
  then obtain w where w: "wait_queues k i = Some w" using l by auto
  from Wait l show ?thesis using wait_internal_ok [OF I _ w, of c ticks] by auto
next
  case (Wakeup i c)
  then obtain w where w: "wait_queues k i = Some w" using l by auto
  from Wakeup show ?thesis using wakeup_ok [OF I w, of c] by auto
next
  case (Softirq c)
  have "\<exists>k1. (if c = 0 then ipc_check_waitqueues c k else Some k) = Some k1 \<and> kern_inv k1"
    using tick_ok [OF I, of c] I by (cases "c = 0") (auto simp: ticked_def)
  then obtain k1 where k1: "(if c = 0 then ipc_check_waitqueues c k else Some k) = Some k1" "kern_inv k1" by blast
  have "c < MAX_CPUS" using Softirq l by simp
  then obtain s where "sc_schedule c (sch k1) = Some s" "kern_inv (k1\<lparr>sch := s\<rparr>)"
    using switch_kern_ok [OF k1(2)] by blast
  then show ?thesis using Softirq k1 by (simp add: do_softirq_def)
next
  case (Switch c)
  then show ?thesis using switch_kern_ok [OF I] l by fastforce
next
  case (Start_task p c)
  then have p: "parked p (sch k)" "\<not> waiting p k" using l by auto
  obtain s where s: "start_task p c (sch k) = Some s" "sched_inv s"
    "\<And>q. q \<noteq> p \<Longrightarrow> asleep q s = asleep q (sch k) \<and> sleep_of s q = sleep_of (sch k) q"
    using start_task_frame [OF _ p(1), of c] I unfolding kern_inv_def by blast
  have "asleep q s \<and> sleep_of s q = sleep_of (sch k) q" if "waiting q k" for q
    using that p(2) s(3) [of q] I by (auto simp: kern_inv_def)
  then have "kern_inv (k\<lparr>sch := s\<rparr>)" by (rule kern_inv_sch [OF I s(2)])
  then show ?thesis using Start_task s(1) by simp
next
  case (Forget p)
  then show ?thesis using forget_ok [OF I] by auto
qed

interpretation blocking: machine kern_exec kern_legal kern_inv
  by unfold_locales (rule kern_exec_ok)

section \<open>Ticks\<close>

abbreviation after_ticks :: "nat \<Rightarrow> nat \<Rightarrow> kern \<Rightarrow> kern option" where
  "after_ticks c n k \<equiv> run_ops (\<lambda>c. ipc_check_waitqueues c) (replicate n c) k"

lemma ticks_mono:
  "kern_inv k \<Longrightarrow> \<exists>k'. after_ticks c n k = Some k' \<and> kern_inv k' \<and> (\<forall>q. on_runqueue q (sch k) \<longrightarrow> on_runqueue q (sch k'))"
proof (induction n arbitrary: k)
  case (Suc n)
  obtain k1 where "ipc_check_waitqueues c k = Some k1" "ticked {0 ..< MAX_WAIT_QUEUES} k k1"
    using tick_ok [OF Suc.prems] by blast
  then show ?case using Suc.IH [of k1] by (auto simp: ticked_def)
qed simp

lemma tick_keeps_later:
  "(p, d) \<in> set D \<Longrightarrow> 1 < d \<Longrightarrow> (p, d - 1) \<in> set (tick_deadlines D)"
  by (cases D rule: tick_deadlines.cases) (auto intro: rev_image_eqI)

lemma not_early:
  "kern_inv k \<Longrightarrow> i < MAX_WAIT_QUEUES \<Longrightarrow> (p, d) \<in> set (queue_deadlines k i) \<Longrightarrow> int n < d \<Longrightarrow>
   \<exists>k'. after_ticks c n k = Some k' \<and> (p, d - int n) \<in> set (queue_deadlines k' i)"
proof (induction n arbitrary: k d)
  case (Suc n)
  obtain k1 where k1: "ipc_check_waitqueues c k = Some k1" "ticked {0 ..< MAX_WAIT_QUEUES} k k1"
    using tick_ok [OF Suc.prems(1)] by blast
  then have "(p, d - 1) \<in> set (queue_deadlines k1 i)"
    using tick_keeps_later [OF Suc.prems(3)] Suc.prems(2,4) by (simp add: ticked_def)
  then show ?case using Suc.IH [of k1 "d - 1"] Suc.prems(2,4) k1 by (simp add: ticked_def algebra_simps)
qed simp

lemma not_late:
  "kern_inv k \<Longrightarrow> i < MAX_WAIT_QUEUES \<Longrightarrow> j < length (queue_deadlines k i) \<Longrightarrow> queue_deadlines k i ! j = (p, d) \<Longrightarrow>
   max d 1 + int j \<le> int n \<Longrightarrow> \<exists>k'. after_ticks c n k = Some k' \<and> on_runqueue p (sch k')"
proof (induction n arbitrary: k d j)
  case (Suc n)
  obtain k1 where k1: "ipc_check_waitqueues c k = Some k1" "ticked {0 ..< MAX_WAIT_QUEUES} k k1"
    using tick_ok [OF Suc.prems(1)] by blast
  have I1: "kern_inv k1" and D1: "queue_deadlines k1 i = tick_deadlines (queue_deadlines k i)"
    using k1(2) Suc.prems(2) by (simp_all add: ticked_def)
  obtain h dh ds where D: "queue_deadlines k i = (h, dh) # ds"
    using Suc.prems(3) by (cases "queue_deadlines k i") auto
  show ?case
  proof (cases "dh \<le> 1")
    case True
    show ?thesis
    proof (cases j)
      case 0
      then have "on_runqueue p (sch k1)"
        using k1(2) D True Suc.prems(2,4) unfolding ticked_def by auto
      then show ?thesis using ticks_mono [OF I1, where c = c and n = n] k1(1) by auto
    next
      case (Suc m)
      then have "queue_deadlines k1 i ! m = (p, d - 1)" "m < length (queue_deadlines k1 i)"
        using D D1 True Suc.prems(3,4) by simp_all
      then show ?thesis using Suc.IH [OF I1 Suc.prems(2), of m "d - 1"] Suc.prems(5) k1(1) Suc by auto
    qed
  next
    case False
    have "sorted (map snd (queue_deadlines k i))" using Suc.prems(1) by (simp add: kern_inv_def)
    moreover have "map snd (queue_deadlines k i) ! 0 = dh" by (simp add: D)
    moreover have "map snd (queue_deadlines k i) ! j = d" using Suc.prems(3,4) by simp
    ultimately have "dh \<le> d"
      using Suc.prems(3) sorted_nth_mono [of "map snd (queue_deadlines k i)" 0 j] by simp
    moreover have "queue_deadlines k1 i ! j = (p, d - 1)" "j < length (queue_deadlines k1 i)"
      using D D1 False Suc.prems(3,4) nth_map [of j "(h, dh) # ds" "\<lambda>(q, e). (q, e - 1)"] by simp_all
    ultimately show ?thesis using Suc.IH [OF I1 Suc.prems(2), of j "d - 1"] Suc.prems(5) False k1(1) by simp
  qed
qed simp

section \<open>A concrete kernel\<close>

lemma upd_parked_inv:
  assumes I: "sched_inv s" and p: "parked p s"
  shows "sched_inv (upd_task p (\<lambda>t. t\<lparr>state := x, sleep_ticks := y\<rparr>) s)"
proof -
  let ?u = "upd_task p (\<lambda>t. t\<lparr>state := x, sleep_ticks := y\<rparr>) s"
  have t: "current_cpu (tasks ?u r) = current_cpu (tasks s r)" "magic (tasks ?u r) = magic (tasks s r)"
    "allocated_cpu (tasks ?u r) = allocated_cpu (tasks s r)" "stick_to_cpu (tasks ?u r) = stick_to_cpu (tasks s r)" for r
    by simp_all
  have "queued_ok ?u" using I p unfolding sched_inv_def queued_ok_def parked_def by auto
  moreover have "idle_ok ?u" using I p unfolding sched_inv_def idle_ok_def parked_def is_idle_def by auto
  ultimately show ?thesis
    using I unfolding sched_inv_def queues_ok_def current_ok_def cpus_valid_def t by simp
qed

text \<open>The machine of the scheduler with tasks 6 and 7 asleep on queue 0 for 3 and 5 ticks.\<close>

definition demo_kern :: kern where
  "demo_kern = \<lparr>sch = upd_task 7 (\<lambda>t. t\<lparr>state := TASK_INTERRUPTIBLE, sleep_ticks := 2\<rparr>)
       (upd_task 6 (\<lambda>t. t\<lparr>state := TASK_INTERRUPTIBLE, sleep_ticks := 3\<rparr>) demo_sched),
     wait_queues = [0 \<mapsto> \<lparr>wq_tasks = [6, 7], wq_flags = 0, used_for = 0, stat_wait_count = 2, stat_wait_ticks = 0,
       stat_wakeon_samecpu = 0\<rparr>],
     maxcpus = 4, ipis = [], g_stat_timeout_wakeups = 0, g_stat_async_wakeups = 0, g_stat_idle_busy = 0\<rparr>"

lemma demo_parked: "parked 6 demo_sched" "parked 7 demo_sched"
  unfolding parked_def demo_on_runqueue demo_is_idle
  by (simp_all add: demo_sched_def demo_task_def)

lemma demo_queue: "queue_deadlines demo_kern i = (if i = 0 then [(6, 3), (7, 5)] else [])"
  by (simp add: queue_deadlines_def demo_kern_def)

lemma demo_waiting: "waiting p demo_kern \<longleftrightarrow> p = 6 \<or> p = 7"
  by (auto simp: waiting_def demo_kern_def)

lemma demo_kern_inv: "kern_inv demo_kern"
proof -
  have "parked 7 (upd_task 6 (\<lambda>t. t\<lparr>state := TASK_INTERRUPTIBLE, sleep_ticks := 3\<rparr>) demo_sched)"
    using demo_parked(2) by (simp add: parked_def)
  then have "sched_inv (sch demo_kern)"
    using upd_parked_inv [OF upd_parked_inv [OF demo_sched_inv demo_parked(1)]] by (simp add: demo_kern_def)
  moreover have "asleep 6 (sch demo_kern)" "asleep 7 (sch demo_kern)"
    using demo_parked by (simp_all add: asleep_def parked_def demo_kern_def)
  moreover have "queues_wf (wait_queues demo_kern)"
    by (auto simp: queues_wf_def demo_kern_def MAX_WAIT_QUEUES_def split: if_splits)
  ultimately show ?thesis by (auto simp: kern_inv_def demo_waiting demo_queue)
qed

section \<open>Properties\<close>



text \<open>
  C18: Waking. \<open>wakeup\<close> on a registered queue returns: it puts the first task of a wake-one queue, or all
  tasks of any other queue, on a run queue, leaves the rest waiting, and returns how many it woke.
\<close>

theorem wakeup_correct:
  assumes "kern_inv k" "wait_queues k i = Some w"
    and "n = (if wq_flags w AND WAIT_QUEUE_WAKEUP_ONE = 0 then length (wq_tasks w) else min 1 (length (wq_tasks w)))"
  shows "\<exists>k'. wakeup i c k = Some (int n, k') \<and> kern_inv k'
    \<and> wait_queues k' = (wait_queues k)(i \<mapsto> w\<lparr>wq_tasks := drop n (wq_tasks w)\<rparr>)
    \<and> list_all (\<lambda>q. on_runqueue q (sch k')) (take n (wq_tasks w))"
  using wakeup_ok [OF assms(1,2), of c] unfolding assms(3) list_all_iff by blast

theorem wakeup_correct_witness:
  "\<exists>k'. wakeup 0 0 demo_kern = Some (2, k') \<and> on_runqueue 6 (sch k') \<and> on_runqueue 7 (sch k')"
proof -
  let ?w = "\<lparr>wq_tasks = [6, 7], wq_flags = 0, used_for = 0, stat_wait_count = 2, stat_wait_ticks = 0, stat_wakeon_samecpu = 0\<rparr>"
  have "wait_queues demo_kern 0 = Some ?w" by (simp add: demo_kern_def)
  from wakeup_correct [OF demo_kern_inv this refl, of 0] show ?thesis by auto
qed

text \<open>
  C15: Timed wakeup. A task that is at position \<open>j\<close> of its queue with \<open>d\<close> ticks to go is still on the queue
  after fewer than \<open>d\<close> timer ticks, with exactly the remaining ticks as deadline, and is on a run queue
  after at most \<open>max d 1 + j\<close> ticks: the timer wakes one task of a queue per tick, so tasks
  with the same deadline are late by at most their position.
\<close>

theorem timed_wakeup:
  assumes "kern_inv k" "i < MAX_WAIT_QUEUES" "j < length (queue_deadlines k i)" "queue_deadlines k i ! j = (p, d)"
  shows "(int n < d \<longrightarrow> (\<exists>k'. after_ticks c n k = Some k' \<and> (p, d - int n) \<in> set (queue_deadlines k' i)))
    \<and> (max d 1 + int j \<le> int n \<longrightarrow> (\<exists>k'. after_ticks c n k = Some k' \<and> on_runqueue p (sch k')))"
proof -
  have "(p, d) \<in> set (queue_deadlines k i)" using assms(3,4) nth_mem by force
  then show ?thesis using not_early [OF assms(1,2)] not_late [OF assms] by blast
qed

theorem timed_wakeup_witness:
  "(\<exists>k'. after_ticks 0 4 demo_kern = Some k' \<and> (7, 1) \<in> set (queue_deadlines k' 0))
   \<and> (\<exists>k'. after_ticks 0 6 demo_kern = Some k' \<and> on_runqueue 7 (sch k'))"
  using timed_wakeup [OF demo_kern_inv, of 0 1 7 5 4 0] timed_wakeup [OF demo_kern_inv, of 0 1 7 5 6 0]
  by (simp add: demo_queue MAX_WAIT_QUEUES_def)

text \<open>
  C19: One timer tick over all wait queues. \<open>ipc_check_waitqueues\<close> returns, keeps the invariant, and
  brings every deadline of every queue one tick closer; the first task of a queue whose time is over leaves it
  and is on a run queue.
\<close>

theorem tick_correct:
  assumes "kern_inv k"
  shows "\<exists>k'. ipc_check_waitqueues c k = Some k' \<and> kern_inv k'
    \<and> (\<forall>i. queue_deadlines k' i = tick_deadlines (queue_deadlines k i))
    \<and> (\<forall>i p d ds. queue_deadlines k i = (p, d) # ds \<longrightarrow> d \<le> 1 \<longrightarrow> on_runqueue p (sch k'))"
proof -
  obtain k' where k': "ipc_check_waitqueues c k = Some k'" "ticked {0 ..< MAX_WAIT_QUEUES} k k'"
    using tick_ok [OF assms] by blast
  have out: "queue_deadlines k i = []" if "i \<notin> {0 ..< MAX_WAIT_QUEUES}" for i
  proof -
    have "wait_queues k i = None"
      using that queues_wfD(3) [of "wait_queues k" i] assms by (cases "wait_queues k i") (auto simp: kern_inv_def)
    then show ?thesis by (simp add: queue_deadlines_def)
  qed
  have "queue_deadlines k' i = tick_deadlines (queue_deadlines k i)" for i
    using k'(2) out [of i] unfolding ticked_def by (cases "i \<in> {0 ..< MAX_WAIT_QUEUES}") auto
  moreover have "on_runqueue p (sch k')" if "queue_deadlines k i = (p, d) # ds" "d \<le> 1" for i p d ds
    using that k'(2) out [of i] unfolding ticked_def by (cases "i \<in> {0 ..< MAX_WAIT_QUEUES}") auto
  ultimately show ?thesis using k' by (auto simp: ticked_def)
qed

theorem tick_correct_witness:
  "\<exists>k'. ipc_check_waitqueues 0 demo_kern = Some k' \<and> queue_deadlines k' 0 = [(6, 2), (7, 4)]"
  using tick_correct [OF demo_kern_inv, of 0] by (auto simp: demo_queue)



text \<open>
  C20: Removal from the wait queues. \<open>_ipc_delete_from_waitqueues\<close> takes a task off whichever queue it
  waits on; the deadlines of all other tasks are unchanged.
\<close>

theorem delete_from_waitqueues_correct:
  assumes "kern_inv k"
  shows "\<exists>k'. ipc_delete_from_waitqueues p k = Some k' \<and> kern_inv k' \<and> \<not> waiting p k'
    \<and> (\<forall>j. queue_deadlines k' j = filter (\<lambda>(t, d). t \<noteq> p) (queue_deadlines k j))"
  by (rule forget_ok [OF assms])

theorem delete_from_waitqueues_correct_witness:
  "\<exists>k'. ipc_delete_from_waitqueues 6 demo_kern = Some k' \<and> queue_deadlines k' 0 = [(7, 5)]"
  using delete_from_waitqueues_correct [OF demo_kern_inv, of 6] by (auto simp: demo_queue)

end
