(* ===== verification/Strutil.thy ===== *)
theory Strutil
  imports Kernel_Prelude
begin

text \<open>
  The memory and string routines of kernel/util.c. A pointer into a buffer is the rest of the
  buffer from there on, so that \<open>*p\<close> on an empty rest is a read outside the buffer and the result is
  \<^term>\<open>None\<close>; a null pointer is \<^term>\<open>None\<close> in an \<open>option\<close>. A C string is
  a buffer with a zero byte. \<open>ut_memcpy\<close>, whose arguments may overlap, works on a store instead.
\<close>

section \<open>Buffers\<close>

fun deref :: "u8 list \<Rightarrow> u8 option" where
  "deref [] = None"
| "deref (c # cs) = Some c"

definition cstr :: "u8 list \<Rightarrow> u8 list \<Rightarrow> bool" where
  "cstr buf s \<longleftrightarrow> 0 \<notin> set s \<and> (\<exists>rest. buf = s @ 0 # rest)"

lemma cstr_Nil [simp]: "\<not> cstr [] s" "cstr (0 # buf) s \<longleftrightarrow> s = []"
  by (auto simp: cstr_def Cons_eq_append_conv)

lemma cstr_Cons: "c \<noteq> 0 \<Longrightarrow> cstr (c # buf) s \<longleftrightarrow> (\<exists>s'. s = c # s' \<and> cstr buf s')"
  by (auto simp: cstr_def Cons_eq_append_conv)

lemma cstr_cases:
  assumes "cstr buf s"
  obtains (end_of) rest where "buf = 0 # rest" "s = []"
    | (char) c b s' where "buf = c # b" "c \<noteq> 0" "s = c # s'" "cstr b s'"
proof (cases buf)
  case Nil
  then show ?thesis using assms by simp
next
  case (Cons c b)
  then show ?thesis using assms that by (cases "c = 0") (auto simp: cstr_Cons)
qed

section \<open>Numbers in strings\<close>

definition FORMAT_DECIMAL :: int where "FORMAT_DECIMAL = 2"

definition multiplier :: "int \<Rightarrow> int" where
  "multiplier fmt = (if fmt = FORMAT_DECIMAL then 10 else 0x10)"

text \<open>\<open>m\<close> counts the characters after the leading zeros.\<close>

fun atol_loop :: "int \<Rightarrow> nat \<Rightarrow> u64 \<Rightarrow> u8 list \<Rightarrow> u64 option" where
  "atol_loop mult m a [] = None"
| "atol_loop mult m a (c # p) =
     (if c = 0 then Some a
      else if c = 0x30 \<and> m = 0 then atol_loop mult m a p
      else let k = (if c \<le> 0x39 \<and> 0x30 \<le> c then uint c - 0x30 else uint c - 0x61 + 0xa);
               a = (if m + 1 > 1 then a * of_int mult else a)
           in atol_loop mult (m + 1) (a + of_int k) p)"

definition ut_atol :: "u8 list \<Rightarrow> int \<Rightarrow> u64 option" where
  "ut_atol p fmt = atol_loop (multiplier fmt) 0 0 p"

fun atoi_loop :: "int \<Rightarrow> nat \<Rightarrow> u32 \<Rightarrow> u8 list \<Rightarrow> u32 option" where
  "atoi_loop mult m a [] = None"
| "atoi_loop mult m a (c # p) =
     (if c = 0 then Some a
      else if c = 0x30 \<and> m = 0 then atoi_loop mult m a p
      else if c \<le> 0x39 \<and> 0x30 \<le> c then
        let k = uint c - 0x30; a = (if m + 1 > 1 then a * of_int mult else a)
        in atoi_loop mult (m + 1) (a + of_int k) p
      else Some 0)"

definition ut_atoi :: "u8 list \<Rightarrow> int \<Rightarrow> u32 option" where
  "ut_atoi p fmt = atoi_loop (multiplier fmt) 0 0 p"

definition ut_min :: "int \<Rightarrow> int \<Rightarrow> int" where
  "ut_min a b = (if a < b then a else b)"

section \<open>Memory\<close>

type_synonym store = "nat \<Rightarrow> u8"

text \<open>
  \<open>ar_check_valid_address\<close> answers 1 without looking at its arguments (its first statement after
  the boot test returns).
\<close>

definition ar_check_valid_address :: "nat \<Rightarrow> int \<Rightarrow> int" where
  "ar_check_valid_address addr len = 1"

text \<open>One 8-byte assignment \<open>*dst_p = *src_p\<close>: all bytes are read before any is written.\<close>

definition copy8 :: "nat \<Rightarrow> nat \<Rightarrow> store \<Rightarrow> store" where
  "copy8 dp sp mem = (\<lambda>a. if dp \<le> a \<and> a < dp + 8 then mem (sp + (a - dp)) else mem a)"

fun copy_bytes :: "nat \<Rightarrow> nat \<Rightarrow> nat \<Rightarrow> store \<Rightarrow> store" where
  "copy_bytes dp sp 0 mem = mem"
| "copy_bytes dp sp (Suc n) mem = copy_bytes (dp + 1) (sp + 1) n (mem(dp := mem sp))"

fun copy_words :: "nat \<Rightarrow> nat \<Rightarrow> nat \<Rightarrow> store \<Rightarrow> store" where
  "copy_words dp sp len mem =
     (if len > 8 then copy_words (dp + 8) (sp + 8) (len - 8) (copy8 dp sp mem) else copy_bytes dp sp len mem)"

declare copy_words.simps [simp del]

definition ut_memcpy :: "nat \<Rightarrow> nat \<Rightarrow> int \<Rightarrow> store \<Rightarrow> store option" where
  "ut_memcpy dest src len mem =
     (if ar_check_valid_address dest len = JFAIL \<or> ar_check_valid_address src len = JFAIL then None
      else Some (copy_words dest src (nat len) mem))"

text \<open>\<open>ut_memset\<close> counts \<open>len\<close> down to 0: a negative length runs off the buffer.\<close>

fun memset_loop :: "u8 \<Rightarrow> nat \<Rightarrow> u8 list \<Rightarrow> u8 list option" where
  "memset_loop val 0 dest = Some dest"
| "memset_loop val (Suc n) [] = None"
| "memset_loop val (Suc n) (c # dest) = map_option (Cons val) (memset_loop val n dest)"

definition ut_memset :: "u8 list \<Rightarrow> u8 \<Rightarrow> int \<Rightarrow> u8 list option" where
  "ut_memset dest val len = (if len < 0 then None else memset_loop val (nat len) dest)"

fun memcmp_loop :: "nat \<Rightarrow> u8 list \<Rightarrow> u8 list \<Rightarrow> int option" where
  "memcmp_loop 0 m1 m2 = Some 0"
| "memcmp_loop (Suc n) m1 m2 = do {
     a \<leftarrow> deref m1; b \<leftarrow> deref m2;
     if a = b then memcmp_loop n (tl m1) (tl m2) else Some 1 }"

definition ut_memcmp :: "u8 list \<Rightarrow> u8 list \<Rightarrow> int \<Rightarrow> int option" where
  "ut_memcmp m1 m2 len = (if len < 0 then Some 1 else memcmp_loop (nat len) m1 m2)"

section \<open>Strings\<close>

text \<open>The comparison loop: it yields \<open>failed\<close> and the two positions where it stopped.\<close>

fun strcmp_loop :: "u8 list \<Rightarrow> u8 list \<Rightarrow> (int \<times> u8 list \<times> u8 list) option" where
  "strcmp_loop [] q = None"
| "strcmp_loop (a # p) q =
     (if a = 0 then Some (0, a # p, q)
      else case q of [] \<Rightarrow> None
        | b # q' \<Rightarrow> if b = 0 then Some (0, a # p, q)
                  else if a \<noteq> b then Some (1, a # p, q) else strcmp_loop p q')"

fun strncmp_loop :: "nat \<Rightarrow> u8 list \<Rightarrow> u8 list \<Rightarrow> (int \<times> u8 list \<times> u8 list) option" where
  "strncmp_loop n [] q = None"
| "strncmp_loop n (a # p) q =
     (if a = 0 then Some (0, a # p, q)
      else case q of [] \<Rightarrow> None
        | b # q' \<Rightarrow> if b = 0 \<or> n = 0 then Some (0, a # p, q)
                  else if a \<noteq> b then Some (1, a # p, q) else strncmp_loop (n - 1) p q')"

text \<open>``Why did the loop exit?''\<close>

definition strcmp_exit :: "int \<times> u8 list \<times> u8 list \<Rightarrow> int option" where
  "strcmp_exit = (\<lambda>(failed, p, q). do {
     a \<leftarrow> deref p; b \<leftarrow> deref q;
     let failed = (if a = 0 \<and> b \<noteq> 0 \<or> a \<noteq> 0 \<and> b = 0 then 1 else failed);
     Some (if failed = 1 \<and> a = 0 then 2 else failed) })"

definition ut_strcmp :: "u8 list option \<Rightarrow> u8 list option \<Rightarrow> int option" where
  "ut_strcmp str1 str2 = (case (str1, str2) of
     (Some p, Some q) \<Rightarrow> strcmp_loop p q \<bind> strcmp_exit | _ \<Rightarrow> Some (- 1))"

definition ut_strncmp :: "u8 list option \<Rightarrow> u8 list option \<Rightarrow> int \<Rightarrow> int option" where
  "ut_strncmp str1 str2 n = (case (str1, str2) of
     (Some p, Some q) \<Rightarrow> strncmp_loop (nat n) p q \<bind> strcmp_exit | _ \<Rightarrow> Some (- 1))"

text \<open>The body of the \<open>do ... while\<close> loops runs once before the first test.\<close>

fun strcpy_loop :: "u8 list \<Rightarrow> u8 list \<Rightarrow> u8 list option" where
  "strcpy_loop dest [] = None"
| "strcpy_loop [] src = None"
| "strcpy_loop (d # dest) (c # src) = do {
     n \<leftarrow> deref src;
     if n \<noteq> 0 then map_option (Cons c) (strcpy_loop dest src)
     else case dest of [] \<Rightarrow> None | d' # dest' \<Rightarrow> Some (c # 0 # dest') }"

definition ut_strcpy :: "u8 list \<Rightarrow> u8 list option \<Rightarrow> u8 list option" where
  "ut_strcpy dest src = (case src of None \<Rightarrow> Some dest | Some p \<Rightarrow> strcpy_loop dest p)"

fun strncpy_loop :: "int \<Rightarrow> u8 list \<Rightarrow> u8 list \<Rightarrow> u8 list option" where
  "strncpy_loop n dest [] = None"
| "strncpy_loop n [] src = None"
| "strncpy_loop n (d # dest) (c # src) = do {
     x \<leftarrow> deref src;
     if x \<noteq> 0 \<and> 1 < n then map_option (Cons c) (strncpy_loop (n - 1) dest src)
     else case dest of [] \<Rightarrow> None | d' # dest' \<Rightarrow> Some (c # 0 # dest') }"

definition ut_strncpy :: "u8 list \<Rightarrow> u8 list option \<Rightarrow> int \<Rightarrow> u8 list option" where
  "ut_strncpy dest src n = (case src of None \<Rightarrow> Some dest | Some p \<Rightarrow> strncpy_loop n dest p)"

fun ut_strcat :: "u8 list \<Rightarrow> u8 list \<Rightarrow> u8 list option" where
  "ut_strcat [] src = None"
| "ut_strcat (d # dest) src =
     (if d \<noteq> 0 then map_option (Cons d) (ut_strcat dest src) else strcpy_loop (d # dest) src)"

fun strlen_loop :: "nat \<Rightarrow> u8 list \<Rightarrow> nat option" where
  "strlen_loop n [] = None"
| "strlen_loop n (c # sc) = (if c = 0 then Some n else strlen_loop (n + 1) sc)"

definition ut_strlen :: "u8 list \<Rightarrow> nat option" where
  "ut_strlen s = strlen_loop 0 s"

text \<open>
  \<open>ut_strstr\<close>: the inner loop stops at the character \<open>'0'\<close> of the pattern, not at its end.
  It returns where it stopped in the pattern; the result of the search is an offset into \<open>s1\<close>.
\<close>

fun strstr_match :: "u8 list \<Rightarrow> u8 list \<Rightarrow> u8 list option" where
  "strstr_match p [] = None"
| "strstr_match p (b # q) =
     (if b = 0x30 then Some (b # q)
      else case p of [] \<Rightarrow> None
        | a # p' \<Rightarrow> if a = 0 \<or> a \<noteq> b then Some (b # q) else strstr_match p' q)"

fun strstr_loop :: "nat \<Rightarrow> u8 list \<Rightarrow> u8 list \<Rightarrow> nat option option" where
  "strstr_loop i [] s2 = None"
| "strstr_loop i (a # p) s2 =
     (if a = 0 then Some None
      else do {
        b \<leftarrow> deref s2;
        if a = b then do {
          q \<leftarrow> strstr_match (a # p) s2;
          x \<leftarrow> deref q;
          if x = 0 then Some (Some i) else strstr_loop (i + 1) p s2 }
        else strstr_loop (i + 1) p s2 })"

definition ut_strstr :: "u8 list option \<Rightarrow> u8 list option \<Rightarrow> nat option option" where
  "ut_strstr s1 s2 = (case (s1, s2) of (Some p, Some q) \<Rightarrow> strstr_loop 0 p q | _ \<Rightarrow> Some None)"

section \<open>Comparison\<close>

lemma ut_strcmp_cstr:
  "cstr b1 s1 \<Longrightarrow> cstr b2 s2 \<Longrightarrow>
   (strcmp_loop b1 b2 \<bind> strcmp_exit) =
     Some (if s1 = s2 then 0 else if take (length s1) s2 = s1 then 2 else 1)"
proof (induction b1 arbitrary: b2 s1 s2)
  case Nil
  then show ?case by simp
next
  case (Cons a p)
  from Cons.prems(2) show ?case
  proof (cases rule: cstr_cases)
    case (end_of rest)
    with Cons.prems(1) show ?thesis by (cases rule: cstr_cases) (auto simp: strcmp_exit_def)
  next
    case two: (char b q t)
    from Cons.prems(1) show ?thesis
    proof (cases rule: cstr_cases)
      case (end_of rest)
      then show ?thesis using two by (auto simp: strcmp_exit_def)
    next
      case (char a' p' t')
      then show ?thesis using two Cons.IH [of t' q t] by (auto simp: strcmp_exit_def)
    qed
  qed
qed

lemma strncmp_cstr:
  "cstr b1 s1 \<Longrightarrow> cstr b2 s2 \<Longrightarrow>
   \<exists>r. (strncmp_loop n b1 b2 \<bind> strcmp_exit) = Some r
     \<and> (r = 0 \<longleftrightarrow> s1 = s2 \<or> n < length s1 \<and> n < length s2 \<and> take n s1 = take n s2)"
proof (induction b1 arbitrary: b2 s1 s2 n)
  case Nil
  then show ?case by simp
next
  case (Cons a p)
  from Cons.prems(2) show ?case
  proof (cases rule: cstr_cases)
    case (end_of rest)
    with Cons.prems(1) show ?thesis by (cases rule: cstr_cases) (auto simp: strcmp_exit_def)
  next
    case two: (char b q t)
    from Cons.prems(1) show ?thesis
    proof (cases rule: cstr_cases)
      case (end_of rest)
      then show ?thesis using two by (auto simp: strcmp_exit_def)
    next
      case (char a' p' t')
      then show ?thesis using two Cons.IH [of t' q t "n - 1"] by (cases n) (auto simp: strcmp_exit_def)
    qed
  qed
qed

section \<open>Copying\<close>

lemma copy_bytes_correct:
  "dp \<le> sp \<or> sp + n \<le> dp \<Longrightarrow>
   copy_bytes dp sp n mem a = (if dp \<le> a \<and> a < dp + n then mem (sp + (a - dp)) else mem a)"
proof (induction n arbitrary: dp sp mem)
  case (Suc n)
  have "copy_bytes (dp + 1) (sp + 1) n (mem(dp := mem sp)) a =
      (if dp + 1 \<le> a \<and> a < dp + 1 + n then (mem(dp := mem sp)) (sp + 1 + (a - (dp + 1))) else (mem(dp := mem sp)) a)"
    using Suc.prems by (intro Suc.IH) auto
  also have "\<dots> = (if dp + 1 \<le> a \<and> a < dp + 1 + n then (mem(dp := mem sp)) (sp + (a - dp)) else (mem(dp := mem sp)) a)"
  proof -
    have "sp + 1 + (a - (dp + 1)) = sp + (a - dp)" if "dp + 1 \<le> a" using that by linarith
    then show ?thesis by presburger
  qed
  finally show ?case using Suc.prems by auto
qed auto

lemma copy_words_correct:
  "dp \<le> sp \<or> sp + n \<le> dp \<Longrightarrow>
   copy_words dp sp n mem a = (if dp \<le> a \<and> a < dp + n then mem (sp + (a - dp)) else mem a)"
proof (induction dp sp n mem rule: copy_words.induct)
  case (1 dp sp n mem)
  show ?case
  proof (cases "n > 8")
    case False
    then show ?thesis using copy_bytes_correct [OF 1(2)] by (simp add: copy_words.simps [of dp])
  next
    case True
    have "copy_words (dp + 8) (sp + 8) (n - 8) (copy8 dp sp mem) a =
      (if dp + 8 \<le> a \<and> a < dp + 8 + (n - 8) then copy8 dp sp mem (sp + 8 + (a - (dp + 8))) else copy8 dp sp mem a)"
      using 1(2) True by (intro 1(1)) auto
    moreover have "copy8 dp sp mem (sp + 8 + (a - (dp + 8))) = mem (sp + (a - dp))" if "dp + 8 \<le> a" "a < dp + n"
      using that 1(2) by (auto simp: copy8_def)
    ultimately show ?thesis using True 1(2) by (auto simp: copy_words.simps [of dp] copy8_def)
  qed
qed

lemma memset_loop_eq:
  "memset_loop v n dest = (if n \<le> length dest then Some (replicate n v @ drop n dest) else None)"
  by (induction v n dest rule: memset_loop.induct) auto

lemma strcpy_loop_cstr:
  "cstr src s \<Longrightarrow> s \<noteq> [] \<Longrightarrow> length s < length dest \<Longrightarrow>
   strcpy_loop dest src = Some (s @ 0 # drop (length s + 1) dest)"
proof (induction dest src arbitrary: s rule: strcpy_loop.induct)
  case (3 d dest c src)
  have "c \<noteq> 0" using 3(2,3) by auto
  then obtain s' where s': "c \<noteq> 0" "s = c # s'" "cstr src s'"
    using cstr_Cons [of c src s] 3(2) by blast
  from s'(3) show ?case
  proof (cases rule: cstr_cases)
    case (end_of rest)
    then show ?thesis using s' 3(4) by (cases dest) auto
  next
    case (char x b t)
    have "strcpy_loop dest src = Some (s' @ 0 # drop (length s' + 1) dest)"
      by (rule 3(1) [of x]) (use char s' 3(4) in simp_all)
    then show ?thesis using s' char by simp
  qed
qed auto

lemma strlen_loop_cstr: "cstr b s \<Longrightarrow> strlen_loop n b = Some (n + length s)"
proof (induction b arbitrary: s n)
  case (Cons c b)
  then show ?case by (cases "c = 0") (auto simp: cstr_Cons)
qed simp

section \<open>Searching\<close>

definition occurs_at :: "u8 list \<Rightarrow> u8 list \<Rightarrow> nat \<Rightarrow> bool" where
  "occurs_at pat s i \<longleftrightarrow> i + length pat \<le> length s \<and> take (length pat) (drop i s) = pat"

lemma strstr_match_cstr:
  "cstr p s \<Longrightarrow> cstr q pat \<Longrightarrow> 0x30 \<notin> set pat \<Longrightarrow>
   \<exists>q' x. strstr_match p q = Some q' \<and> deref q' = Some x \<and> (x = 0 \<longleftrightarrow> occurs_at pat s 0)"
proof (induction p q arbitrary: s pat rule: strstr_match.induct)
  case (1 p)
  then show ?case by simp
next
  case (2 p b q)
  from 2(3) show ?case
  proof (cases rule: cstr_cases)
    case (end_of rest)
    with 2(2) show ?thesis by (cases rule: cstr_cases) (auto simp: occurs_at_def)
  next
    case two: (char b' q' t)
    from 2(2) show ?thesis
    proof (cases rule: cstr_cases)
      case (end_of rest)
      then show ?thesis using two 2(4) by (auto simp: occurs_at_def)
    next
      case (char a p' s')
      show ?thesis
      proof (cases "a = b")
        case True
        have "\<exists>q' x. strstr_match p' q = Some q' \<and> deref q' = Some x \<and> (x = 0 \<longleftrightarrow> occurs_at t s' 0)"
          using two char 2(4) True by (intro 2(1)) auto
        then show ?thesis using two char True 2(4) by (auto simp: occurs_at_def)
      next
        case False
        then show ?thesis using two char 2(4) by (auto simp: occurs_at_def)
      qed
    qed
  qed
qed

lemma occurs_at_Suc: "occurs_at pat (a # s) (Suc i) = occurs_at pat s i"
  by (simp add: occurs_at_def)

lemma strstr_loop_cstr:
  "cstr p s \<Longrightarrow> cstr q pat \<Longrightarrow> 0x30 \<notin> set pat \<Longrightarrow> pat \<noteq> [] \<Longrightarrow>
   \<exists>r. strstr_loop n p q = Some r \<and> (case r of
       None \<Rightarrow> \<forall>i. \<not> occurs_at pat s i
     | Some k \<Rightarrow> n \<le> k \<and> occurs_at pat s (k - n) \<and> (\<forall>i < k - n. \<not> occurs_at pat s i))"
proof (induction p arbitrary: s n)
  case Nil
  then show ?case by simp
next
  case (Cons a p)
  obtain b q' where q: "q = b # q'" "b \<noteq> 0" "b = hd pat"
    using Cons.prems(2,4) by (cases q) (auto simp: cstr_def append_eq_Cons_conv Cons_eq_append_conv)
  from Cons.prems(1) show ?case
  proof (cases rule: cstr_cases)
    case (end_of rest)
    then show ?thesis using Cons.prems(4) by (auto simp: occurs_at_def)
  next
    case (char a' p' s')
    then have p: "p = p'" "a = a'" "a \<noteq> 0" "s = a # s'" "cstr p s'" by auto
    obtain r where r: "strstr_loop (n + 1) p q = Some r" "case r of
       None \<Rightarrow> \<forall>i. \<not> occurs_at pat s' i
     | Some k \<Rightarrow> n + 1 \<le> k \<and> occurs_at pat s' (k - (n + 1)) \<and> (\<forall>i < k - (n + 1). \<not> occurs_at pat s' i)"
      using Cons.IH [OF p(5) Cons.prems(2-4), of "n + 1"] by blast
    show ?thesis
    proof (cases "occurs_at pat s 0")
      case True
      then have "hd pat = a" using p(4) Cons.prems(4) by (cases pat) (auto simp: occurs_at_def)
      then have ab: "a = b" using q by simp
      obtain q'' x where m: "strstr_match (a # p) q = Some q''" "deref q'' = Some x" "x = 0"
        using strstr_match_cstr [OF Cons.prems(1-3)] True by blast
      have "strstr_loop n (a # p) q = Some (Some n)"
        using ab p(3) m q(1) by simp
      then show ?thesis using True by auto
    next
      case False
      have run: "strstr_loop n (a # p) q = strstr_loop (n + 1) p q"
      proof (cases "a = b")
        case True
        obtain q'' x where m: "strstr_match (a # p) q = Some q''" "deref q'' = Some x" "x \<noteq> 0"
          using strstr_match_cstr [OF Cons.prems(1-3)] False by blast
        show ?thesis using True p(3) m q(1) by simp
      qed (use p(3) q(1) in simp)
      have shift: "occurs_at pat s i \<longleftrightarrow> 0 < i \<and> occurs_at pat s' (i - 1)" for i
        using False p(4) by (cases i) (auto simp: occurs_at_Suc)
      show ?thesis
      proof (cases r)
        case None
        then show ?thesis using run r by (auto simp: shift)
      next
        case (Some k)
        have "\<not> occurs_at pat s i" if "i < k - n" for i
          using that r(2) Some unfolding shift by auto
        then show ?thesis using run r Some by (auto simp: shift)
      qed
    qed
  qed
qed

lemma strstr_match_zero:
  "cstr p s \<Longrightarrow> cstr q pat \<Longrightarrow> 0x30 \<in> set pat \<Longrightarrow>
   \<exists>q' x. strstr_match p q = Some q' \<and> deref q' = Some x \<and> x \<noteq> 0"
proof (induction p q arbitrary: s pat rule: strstr_match.induct)
  case (1 p)
  then show ?case by simp
next
  case (2 p b q)
  from 2(3) show ?case
  proof (cases rule: cstr_cases)
    case (end_of rest)
    then show ?thesis using 2(4) by simp
  next
    case two: (char b' q' t)
    from 2(2) show ?thesis
    proof (cases rule: cstr_cases)
      case (end_of rest)
      then show ?thesis using two by auto
    next
      case (char a p' s')
      show ?thesis
      proof (cases "b = 0x30 \<or> a \<noteq> b")
        case True
        then show ?thesis using two char by auto
      next
        case False
        have "\<exists>q' x. strstr_match p' q = Some q' \<and> deref q' = Some x \<and> x \<noteq> 0"
          using two char 2(4) False by (intro 2(1)) auto
        then show ?thesis using two char False by auto
      qed
    qed
  qed
qed

lemma strstr_loop_zero:
  "cstr p s \<Longrightarrow> cstr q pat \<Longrightarrow> 0x30 \<in> set pat \<Longrightarrow> strstr_loop n p q = Some None"
proof (induction p arbitrary: s n)
  case Nil
  then show ?case by simp
next
  case (Cons a p)
  obtain b q' where q: "q = b # q'"
    using Cons.prems(2) by (cases q) auto
  show ?case
  proof (cases "a = 0")
    case False
    then obtain s' where "cstr p s'" using Cons.prems(1) cstr_Cons by blast
    then have "strstr_loop (n + 1) p q = Some None" using Cons.IH Cons.prems(2,3) by blast
    then show ?thesis using strstr_match_zero [OF Cons.prems] False q by auto
  qed simp
qed

section \<open>Properties\<close>

text \<open>
  C23: \<open>ut_memcpy\<close> copies exactly \<open>len\<close> bytes and touches nothing else, whenever the destination
  does not start inside the source: 8 bytes at a time and then byte by byte gives the same memory
  as copying all bytes at once, even when the destination overlaps the source from below.
\<close>

theorem memcpy_correct:
  assumes "0 \<le> len" "dest \<le> src \<or> src + nat len \<le> dest"
  shows "\<exists>mem'. ut_memcpy dest src len mem = Some mem'
    \<and> (\<forall>i < nat len. mem' (dest + i) = mem (src + i))
    \<and> (\<forall>a. a < dest \<or> dest + nat len \<le> a \<longrightarrow> mem' a = mem a)"
  using copy_words_correct [OF assms(2)] by (auto simp: ut_memcpy_def ar_check_valid_address_def)

theorem memcpy_correct_witness:
  "\<exists>mem'. ut_memcpy 100 103 20 (\<lambda>a. of_nat a) = Some mem' \<and> mem' 119 = 122 \<and> mem' 120 = 120"
proof -
  obtain mem' where m: "ut_memcpy 100 103 20 (\<lambda>a. of_nat a) = Some mem'"
    "\<forall>i < nat 20. mem' (100 + i) = of_nat (103 + i)"
    "\<forall>a. a < 100 \<or> 100 + nat 20 \<le> a \<longrightarrow> mem' a = of_nat a"
    using memcpy_correct [of 20 100 103 "\<lambda>a. of_nat a"] by auto
  have "mem' (100 + 19) = of_nat (103 + 19)" by (rule m(2) [rule_format]) simp
  moreover have "mem' 120 = of_nat 120" by (rule m(3) [rule_format]) simp
  ultimately show ?thesis using m(1) by simp
qed



text \<open>
  C27: Substring search. For a non-empty pattern without the character \<open>'0'\<close>, \<open>ut_strstr\<close> stays inside the
  buffers and returns the first position where the pattern occurs, or null when there is none. A pattern
  that contains the character \<open>'0'\<close> is never found, wherever it occurs: the inner
  loop ends at \<open>'0'\<close> where the end of the string, \<open>'\0'\<close>, is meant.
\<close>

theorem strstr_correct:
  assumes "cstr p s" "cstr q pat" "pat \<noteq> []"
  shows "if 0x30 \<in> set pat then ut_strstr (Some p) (Some q) = Some None
    else \<exists>r. ut_strstr (Some p) (Some q) = Some r \<and> (case r of
        None \<Rightarrow> \<forall>i. \<not> occurs_at pat s i
      | Some k \<Rightarrow> occurs_at pat s k \<and> (\<forall>i < k. \<not> occurs_at pat s i))"
  using strstr_loop_zero [OF assms(1,2)] strstr_loop_cstr [OF assms(1,2) _ assms(3), of 0]
  by (simp add: ut_strstr_def cong: option.case_cong)

theorem strstr_correct_witness:
  "ut_strstr (Some [97, 48, 98, 0]) (Some [48, 98, 0]) = Some None
   \<and> (\<exists>r. ut_strstr (Some [97, 48, 98, 0]) (Some [98, 0]) = Some r)"
proof -
  have s: "cstr [97, 48, 98, 0] [97, 48, 98]" "cstr [48, 98, 0] [48, 98]" "cstr [98, 0] [98]" by (simp_all add: cstr_def)
  show ?thesis using strstr_correct [OF s(1,2)] strstr_correct [OF s(1,3)] by auto
qed



end
