(* ===== verification/Printf.thy ===== *)
theory Printf
  imports Strutil
begin

text \<open>
  Formatted output of kernel/util.c: the character classes, \<open>number\<close> and \<open>vsnprintf\<close>. The output
  state is the buffer and the offset of \<open>str\<close> in it; \<open>end\<close> is the offset \<open>size - 1\<close> of the last byte
  (\<open>- 1\<close> for an empty buffer), and a write outside the buffer is \<^term>\<open>None\<close>. The buffer is assumed not to
  wrap around the end of the address space. Widths and precisions are unbounded integers.
\<close>

declare obind_cong [fundef_cong]

section \<open>Character classes\<close>

definition CT_U :: u8 where "CT_U = 0x01"
definition CT_L :: u8 where "CT_L = 0x02"
definition CT_D :: u8 where "CT_D = 0x04"
definition CT_C :: u8 where "CT_C = 0x08"
definition CT_P :: u8 where "CT_P = 0x10"
definition CT_S :: u8 where "CT_S = 0x20"
definition CT_X :: u8 where "CT_X = 0x40"
definition CT_SP :: u8 where "CT_SP = 0x80"

lemmas ctype_bits = CT_U_def CT_L_def CT_D_def CT_C_def CT_P_def CT_S_def CT_X_def CT_SP_def

definition ctype_table :: "u8 list" where
  "ctype_table =
     replicate 9 CT_C @ replicate 5 (CT_C OR CT_S) @ replicate 18 CT_C
     @ [CT_S OR CT_SP] @ replicate 15 CT_P @ replicate 10 CT_D @ replicate 7 CT_P
     @ replicate 6 (CT_U OR CT_X) @ replicate 20 CT_U @ replicate 6 CT_P
     @ replicate 6 (CT_L OR CT_X) @ replicate 20 CT_L @ replicate 4 CT_P @ [CT_C]
     @ replicate 32 0
     @ [CT_S OR CT_SP] @ replicate 31 CT_P
     @ replicate 23 CT_U @ [CT_P] @ replicate 7 CT_U @ [CT_L]
     @ replicate 23 CT_L @ [CT_P] @ replicate 8 CT_L"

definition ismask :: "u8 \<Rightarrow> u8" where "ismask c = ctype_table ! unat c"

definition isdigit :: "u8 \<Rightarrow> bool" where "isdigit c \<longleftrightarrow> ismask c AND CT_D \<noteq> 0"
definition isxdigit :: "u8 \<Rightarrow> bool" where "isxdigit c \<longleftrightarrow> ismask c AND (CT_D OR CT_X) \<noteq> 0"
definition islower :: "u8 \<Rightarrow> bool" where "islower c \<longleftrightarrow> ismask c AND CT_L \<noteq> 0"
definition isupper :: "u8 \<Rightarrow> bool" where "isupper c \<longleftrightarrow> ismask c AND CT_U \<noteq> 0"
definition isspace :: "u8 \<Rightarrow> bool" where "isspace c \<longleftrightarrow> ismask c AND CT_S \<noteq> 0"

definition tolower :: "u8 \<Rightarrow> u8" where "tolower c = (if isupper c then c - (0x41 - 0x61) else c)"
definition toupper :: "u8 \<Rightarrow> u8" where "toupper c = (if islower c then c - (0x61 - 0x41) else c)"

section \<open>Output\<close>

type_synonym out = "u8 list \<times> nat"

definition put :: "int \<Rightarrow> u8 \<Rightarrow> out \<Rightarrow> out option" where
  "put end c out = (case out of (buf, str) \<Rightarrow>
     if int str \<le> end then (if str < length buf then Some (buf[str := c], str + 1) else None)
     else Some (buf, str + 1))"

fun emit :: "int \<Rightarrow> u8 list \<Rightarrow> out \<Rightarrow> out option" where
  "emit end [] out = Some out"
| "emit end (c # cs) out = (put end c out \<bind> emit end cs)"

text \<open>\<open>while (size-- > 0)\<close>: the value of \<open>size\<close> after the loop is returned as well.\<close>

function pad :: "int \<Rightarrow> u8 \<Rightarrow> int \<Rightarrow> out \<Rightarrow> (int \<times> out) option" where
  "pad end c sz out =
     (if sz > 0 then do { out \<leftarrow> put end c out; pad end c (sz - 1) out } else Some (sz - 1, out))"
  by pat_completeness auto
termination by (relation "measure (\<lambda>(end, c, sz, out). nat sz)") auto

declare pad.simps [simp del]

section \<open>Numbers\<close>

definition ZEROPAD :: u32 where "ZEROPAD = 1"
definition SIGN :: u32 where "SIGN = 2"
definition PLUS :: u32 where "PLUS = 4"
definition SPACE :: u32 where "SPACE = 8"
definition LEFT :: u32 where "LEFT = 16"
definition SPECIAL :: u32 where "SPECIAL = 32"
definition LARGE :: u32 where "LARGE = 64"

lemmas print_flags = ZEROPAD_def SIGN_def PLUS_def SPACE_def LEFT_def SPECIAL_def LARGE_def

text \<open>The digit characters \<open>0\<close> to \<open>9\<close> and \<open>a\<close> to \<open>z\<close>, or \<open>A\<close> to \<open>Z\<close>.\<close>

definition small_digits :: "u8 list" where "small_digits = map of_nat ([48 ..< 58] @ [97 ..< 123])"
definition large_digits :: "u8 list" where "large_digits = map of_nat ([48 ..< 58] @ [65 ..< 91])"

text \<open>The digits go to \<open>tmp\<close> with the least significant one first; \<open>tmp\<close> has 66 bytes.\<close>

function digits_loop :: "u8 list \<Rightarrow> nat \<Rightarrow> nat \<Rightarrow> u8 list \<Rightarrow> u8 list option" where
  "digits_loop digits base2 num2 tmp =
     (if num2 = 0 then Some tmp
      else if base2 < 2 \<or> 66 \<le> length tmp then None
      else digits_loop digits base2 (num2 div base2) (tmp @ [digits ! (num2 mod base2)]))"
  by pat_completeness auto
termination by (relation "measure (\<lambda>(digits, base2, num2, tmp). num2)") auto

declare digits_loop.simps [simp del]

definition sign_of :: "u64 \<Rightarrow> int \<Rightarrow> u32 \<Rightarrow> u8 \<times> u64 \<times> int" where
  "sign_of num sz type =
     (if type AND SIGN \<noteq> 0 then
        if sint num < 0 then (0x2d, - num, sz - 1)
        else if type AND PLUS \<noteq> 0 then (0x2b, num, sz - 1)
        else if type AND SPACE \<noteq> 0 then (0x20, num, sz - 1)
        else (0, num, sz)
      else (0, num, sz))"

definition put_prefix :: "int \<Rightarrow> u8 list \<Rightarrow> int \<Rightarrow> u32 \<Rightarrow> out \<Rightarrow> out option" where
  "put_prefix end digits base type out =
     (if type AND SPECIAL \<noteq> 0 then
        if base = 8 then put end 0x30 out
        else if base = 16 then do { out \<leftarrow> put end 0x30 out; put end (digits ! 33) out }
        else Some out
      else Some out)"

text \<open>\<open>while (i < precision--)\<close>.\<close>

fun put_zeros :: "int \<Rightarrow> nat \<Rightarrow> out \<Rightarrow> out option" where
  "put_zeros end 0 out = Some out"
| "put_zeros end (Suc n) out = do { out \<leftarrow> put end 0x30 out; put_zeros end n out }"

definition number :: "int \<Rightarrow> u64 \<Rightarrow> int \<Rightarrow> int \<Rightarrow> int \<Rightarrow> u32 \<Rightarrow> out \<Rightarrow> out option" where
  "number end num base sz precision type out =
     (let digits = (if type AND LARGE \<noteq> 0 then large_digits else small_digits);
          type = (if type AND LEFT \<noteq> 0 then type AND NOT ZEROPAD else type) in
      if base < 2 \<or> base > 36 then Some out
      else do {
        let c = (if type AND ZEROPAD \<noteq> 0 then 0x30 else 0x20);
        let (sign, num, sz) = sign_of num sz type;
        let sz = (if type AND SPECIAL \<noteq> 0 then if base = 16 then sz - 2 else if base = 8 then sz - 1 else sz
                    else sz);
        tmp \<leftarrow> (if num = 0 then Some [0x30] else digits_loop digits (nat base) (unat num) []);
        let i = length tmp;
        let precision = (if int i > precision then int i else precision);
        let sz = sz - precision;
        (sz, out) \<leftarrow> (if type AND (ZEROPAD + LEFT) = 0 then pad end 0x20 sz out else Some (sz, out));
        out \<leftarrow> (if sign \<noteq> 0 then put end sign out else Some out);
        out \<leftarrow> put_prefix end digits base type out;
        (sz, out) \<leftarrow> (if type AND LEFT = 0 then pad end c sz out else Some (sz, out));
        out \<leftarrow> put_zeros end (nat (precision - int i)) out;
        out \<leftarrow> emit end (rev tmp) out;
        (sz, out) \<leftarrow> pad end 0x20 sz out;
        Some out })"

section \<open>Format strings\<close>

text \<open>The variable arguments: integers and pointers as 64-bit words, strings as buffers or null.\<close>

datatype varg = VInt u64 | VStr "u8 list option"

fun va_int :: "varg list \<Rightarrow> (u64 \<times> varg list) option" where
  "va_int (VInt w # args) = Some (w, args)"
| "va_int args = None"

fun va_str :: "varg list \<Rightarrow> (u8 list option \<times> varg list) option" where
  "va_str (VStr s # args) = Some (s, args)"
| "va_str args = None"

fun skip_atoi :: "int \<Rightarrow> u8 list \<Rightarrow> (int \<times> u8 list) option" where
  "skip_atoi i [] = None"
| "skip_atoi i (c # s) = (if isdigit c then skip_atoi (i * 10 + uint c - 0x30) s else Some (i, c # s))"

fun parse_flags :: "u32 \<Rightarrow> u8 list \<Rightarrow> (u32 \<times> u8 list) option" where
  "parse_flags flags [] = None"
| "parse_flags flags (c # fmt) =
     (if c = 0x2d then parse_flags (flags OR LEFT) fmt
      else if c = 0x2b then parse_flags (flags OR PLUS) fmt
      else if c = 0x20 then parse_flags (flags OR SPACE) fmt
      else if c = 0x23 then parse_flags (flags OR SPECIAL) fmt
      else if c = 0x30 then parse_flags (flags OR ZEROPAD) fmt
      else Some (flags, c # fmt))"

definition arg_int :: "u64 \<Rightarrow> int" where "arg_int w = sint (ucast w :: u32)"

definition parse_width :: "u32 \<Rightarrow> u8 list \<Rightarrow> varg list \<Rightarrow> (int \<times> u32 \<times> u8 list \<times> varg list) option" where
  "parse_width flags fmt args = do {
     c \<leftarrow> deref fmt;
     if isdigit c then do { (w, fmt) \<leftarrow> skip_atoi 0 fmt; Some (w, flags, fmt, args) }
     else if c = 0x2a then do {
       (a, args) \<leftarrow> va_int args;
       let w = arg_int a;
       if w < 0 then Some (- w, flags OR LEFT, tl fmt, args) else Some (w, flags, tl fmt, args) }
     else Some (- 1, flags, fmt, args) }"

definition parse_precision :: "u8 list \<Rightarrow> varg list \<Rightarrow> (int \<times> u8 list \<times> varg list) option" where
  "parse_precision fmt args = do {
     c \<leftarrow> deref fmt;
     if c = 0x2e then do {
       let fmt = tl fmt;
       c \<leftarrow> deref fmt;
       (p, fmt, args) \<leftarrow>
         (if isdigit c then do { (p, fmt) \<leftarrow> skip_atoi 0 fmt; Some (p, fmt, args) }
          else if c = 0x2a then do { (a, args) \<leftarrow> va_int args; Some (arg_int a, tl fmt, args) }
          else Some (- 1, fmt, args));
       Some (if p < 0 then 0 else p, fmt, args) }
     else Some (- 1, fmt, args) }"

datatype qualifier = Qnone | Qh | Ql | QL | QZ

definition parse_qualifier :: "u8 list \<Rightarrow> (qualifier \<times> u8 list) option" where
  "parse_qualifier fmt = do {
     c \<leftarrow> deref fmt;
     (q, fmt) \<leftarrow>
       (if c = 0x68 then Some (Qh, tl fmt)
        else if c = 0x6c then do {
          d \<leftarrow> deref (tl fmt);
          Some (if d = 0x6c then (QL, tl (tl fmt)) else (Ql, tl fmt)) }
        else if c = 0x4c then Some (QL, tl fmt)
        else if c = 0x5a then Some (QZ, tl fmt)
        else Some (Qnone, fmt));
     c \<leftarrow> deref fmt;
     Some (if c = 0x71 then (QL, tl fmt) else (q, fmt)) }"

text \<open>The integer argument as the 64-bit \<open>num\<close>.\<close>

definition fetch_num :: "qualifier \<Rightarrow> u32 \<Rightarrow> varg list \<Rightarrow> (u64 \<times> varg list) option" where
  "fetch_num q flags args = do {
     (w, args) \<leftarrow> va_int args;
     let signed = (flags AND SIGN \<noteq> 0);
     Some (case q of
         QL \<Rightarrow> w | Ql \<Rightarrow> w | QZ \<Rightarrow> w
       | Qh \<Rightarrow> if signed then scast (ucast w :: u16) else ucast (ucast w :: u16)
       | Qnone \<Rightarrow> if signed then scast (ucast w :: u32) else ucast (ucast w :: u32), args) }"

text \<open>\<open>while (--field_width > 0)\<close> and \<open>while (len < field_width--)\<close>.\<close>

function pad_char :: "int \<Rightarrow> int \<Rightarrow> out \<Rightarrow> (int \<times> out) option" where
  "pad_char end w out =
     (if w - 1 > 0 then do { out \<leftarrow> put end 0x20 out; pad_char end (w - 1) out } else Some (w - 1, out))"
  by pat_completeness auto
termination by (relation "measure (\<lambda>(end, w, out). nat w)") auto

function pad_string :: "int \<Rightarrow> int \<Rightarrow> int \<Rightarrow> out \<Rightarrow> (int \<times> out) option" where
  "pad_string end len w out =
     (if len < w then do { out \<leftarrow> put end 0x20 out; pad_string end len (w - 1) out } else Some (w - 1, out))"
  by pat_completeness auto
termination by (relation "measure (\<lambda>(end, len, w, out). nat (w - len))") auto

declare pad_char.simps [simp del] pad_string.simps [simp del]

definition NULL_text :: "u8 list" where
  "NULL_text = [0x3c, 0x4e, 0x55, 0x4c, 0x4c, 0x3e, 0]"

definition print_char :: "int \<Rightarrow> u32 \<Rightarrow> int \<Rightarrow> u8 \<Rightarrow> out \<Rightarrow> out option" where
  "print_char end flags w c out = do {
     (w, out) \<leftarrow> (if flags AND LEFT = 0 then pad_char end w out else Some (w, out));
     out \<leftarrow> put end c out;
     (w, out) \<leftarrow> pad_char end w out;
     Some out }"

definition print_string :: "int \<Rightarrow> u32 \<Rightarrow> int \<Rightarrow> u8 list option \<Rightarrow> out \<Rightarrow> out option" where
  "print_string end flags w s out = do {
     let s = (case s of None \<Rightarrow> NULL_text | Some s \<Rightarrow> s);
     len \<leftarrow> ut_strlen s;
     (w, out) \<leftarrow> (if flags AND LEFT = 0 then pad_string end (int len) w out else Some (w, out));
     out \<leftarrow> emit end (take len s) out;
     (w, out) \<leftarrow> pad_string end (int len) w out;
     Some out }"

text \<open>
  The conversion character. \<open>%n\<close> stores the number of characters so far through its pointer; the
  stores are collected in \<open>ns\<close>.
\<close>

definition convert :: "int \<Rightarrow> u32 \<Rightarrow> int \<Rightarrow> int \<Rightarrow> qualifier \<Rightarrow> u8 list \<Rightarrow> varg list \<Rightarrow> (u64 \<times> nat) list \<Rightarrow> out
    \<Rightarrow> (u8 list \<times> varg list \<times> (u64 \<times> nat) list \<times> out) option" where
  "convert end flags w prec q fmt args ns out = do {
     c \<leftarrow> deref fmt;
     let rest = tl fmt;
     if c = 0x63 then do {
       (a, args) \<leftarrow> va_int args;
       out \<leftarrow> print_char end flags w (ucast a) out;
       Some (rest, args, ns, out) }
     else if c = 0x73 then do {
       (s, args) \<leftarrow> va_str args;
       out \<leftarrow> print_string end flags w s out;
       Some (rest, args, ns, out) }
     else if c = 0x70 then do {
       (a, args) \<leftarrow> va_int args;
       out \<leftarrow> (if w = - 1 then number end a 16 16 prec (flags OR ZEROPAD) out else number end a 16 w prec flags out);
       Some (rest, args, ns, out) }
     else if c = 0x6e then do {
       (a, args) \<leftarrow> va_int args;
       Some (rest, args, ns @ [(a, snd out)], out) }
     else if c = 0x25 then do {
       out \<leftarrow> put end 0x25 out;
       Some (rest, args, ns, out) }
     else if c \<in> {0x6f, 0x58, 0x78, 0x64, 0x69, 0x75} then do {
       let base = (if c = 0x6f then 8 else if c = 0x58 \<or> c = 0x78 then 16 else 10);
       let flags = (if c = 0x58 then flags OR LARGE else if c = 0x64 \<or> c = 0x69 then flags OR SIGN else flags);
       (num, args) \<leftarrow> fetch_num q flags args;
       out \<leftarrow> number end num base w prec flags out;
       Some (rest, args, ns, out) }
     else do {
       out \<leftarrow> put end 0x25 out;
       if c \<noteq> 0 then do { out \<leftarrow> put end c out; Some (rest, args, ns, out) }
       else Some (fmt, args, ns, out) } }"

text \<open>Parsing never moves backwards.\<close>

lemma skip_atoi_length: "skip_atoi i s = Some (n, s') \<Longrightarrow> length s' \<le> length s"
  by (induction i s rule: skip_atoi.induct) (auto split: if_splits)

lemma parse_flags_length: "parse_flags fl s = Some (fl', s') \<Longrightarrow> length s' \<le> length s"
  by (induction fl s rule: parse_flags.induct) (auto split: if_splits)

lemma parse_width_length: "parse_width fl s args = Some (w, fl', s', args') \<Longrightarrow> length s' \<le> length s"
  by (auto simp: parse_width_def Let_def bind_eq_Some_conv split: if_splits dest: skip_atoi_length)

lemma parse_precision_length: "parse_precision s args = Some (p, s', args') \<Longrightarrow> length s' \<le> length s"
  by (auto simp: parse_precision_def Let_def bind_eq_Some_conv split: if_splits dest: skip_atoi_length)

lemma parse_qualifier_length: "parse_qualifier s = Some (q, s') \<Longrightarrow> length s' \<le> length s"
  by (auto simp: parse_qualifier_def Let_def bind_eq_Some_conv split: if_splits)

lemma convert_length: "convert e fl w p q s args ns out = Some (s', r) \<Longrightarrow> length s' \<le> length s"
  by (auto simp: convert_def Let_def bind_eq_Some_conv split: if_splits)

lemma deref_length: "deref s = Some c \<Longrightarrow> length (tl s) < length s"
  by (cases s) auto

function vs_loop :: "int \<Rightarrow> u8 list \<Rightarrow> varg list \<Rightarrow> (u64 \<times> nat) list \<Rightarrow> out \<Rightarrow> ((u64 \<times> nat) list \<times> out) option" where
  "vs_loop end fmt args ns out = do {
     c \<leftarrow> deref fmt;
     if c = 0 then Some (ns, out)
     else if c \<noteq> 0x25 then do {
       out \<leftarrow> put end c out;
       vs_loop end (tl fmt) args ns out }
     else do {
       (flags, fmt1) \<leftarrow> parse_flags 0 (tl fmt);
       (w, flags, fmt2, args) \<leftarrow> parse_width flags fmt1 args;
       (prec, fmt3, args) \<leftarrow> parse_precision fmt2 args;
       (q, fmt4) \<leftarrow> parse_qualifier fmt3;
       (fmt5, args, ns, out) \<leftarrow> convert end flags w prec q fmt4 args ns out;
       vs_loop end fmt5 args ns out } }"
  by pat_completeness auto
termination
  by (relation "measure (\<lambda>(end, fmt, args, ns, out). length fmt)")
    (auto dest!: deref_length parse_flags_length parse_width_length parse_precision_length
      parse_qualifier_length convert_length)

declare vs_loop.simps [simp del]

definition vsnprintf :: "u8 list \<Rightarrow> nat \<Rightarrow> u8 list \<Rightarrow> varg list \<Rightarrow> (nat \<times> (u64 \<times> nat) list \<times> u8 list) option" where
  "vsnprintf buf sz fmt args = do {
     let end = int sz - 1;
     (ns, out) \<leftarrow> vs_loop end fmt args [] (buf, 0);
     let (buf, str) = out;
     let at = (if int str \<le> end then str else nat end);
     buf \<leftarrow> (if int str \<le> end \<or> sz > 0 then (if at < length buf then Some (buf[at := 0]) else None) else Some buf);
     Some (str, ns, buf) }"

text \<open>\<open>vsprintf\<close> has no size: it passes one that is larger than every buffer.\<close>

definition vsprintf :: "u8 list \<Rightarrow> u8 list \<Rightarrow> varg list \<Rightarrow> (nat \<times> (u64 \<times> nat) list \<times> u8 list) option" where
  "vsprintf buf fmt args = vsnprintf buf 0xFFFFFFFF fmt args"

definition ut_sprintf :: "u8 list \<Rightarrow> u8 list \<Rightarrow> varg list \<Rightarrow> (nat \<times> (u64 \<times> nat) list \<times> u8 list) option" where
  "ut_sprintf buf fmt args = vsprintf buf fmt args"

definition ut_snprintf :: "u8 list \<Rightarrow> nat \<Rightarrow> u8 list \<Rightarrow> varg list \<Rightarrow> (nat \<times> (u64 \<times> nat) list \<times> u8 list) option" where
  "ut_snprintf buf sz fmt args = vsnprintf buf sz fmt args"

section \<open>Strings to numbers\<close>

definition strtoul_base :: "u8 list \<Rightarrow> nat \<Rightarrow> (u8 list \<times> nat) option" where
  "strtoul_base cp base =
     (if base = 0 then do {
        c \<leftarrow> deref cp;
        if c = 0x30 then do {
          x \<leftarrow> deref (tl cp);
          if x = 0x78 then do {
            y \<leftarrow> deref (tl (tl cp));
            Some (if isxdigit y then (tl (tl cp), 16) else (tl cp, 8)) }
          else Some (tl cp, 8) }
        else Some (cp, 10) }
      else Some (cp, base))"

definition digit_value :: "u8 \<Rightarrow> nat" where
  "digit_value c = (if isdigit c then unat c - 0x30 else unat (toupper c) - 0x41 + 10)"

fun strtoul_loop :: "nat \<Rightarrow> u64 \<Rightarrow> u8 list \<Rightarrow> (u64 \<times> u8 list) option" where
  "strtoul_loop base result [] = None"
| "strtoul_loop base result (c # cp) =
     (if isxdigit c \<and> digit_value c < base then strtoul_loop base (result * of_nat base + of_nat (digit_value c)) cp
      else Some (result, c # cp))"

text \<open>The value and the position behind the number (\<open>*endp\<close>).\<close>

definition simple_strtoul :: "u8 list \<Rightarrow> nat \<Rightarrow> (u64 \<times> u8 list) option" where
  "simple_strtoul cp base = do { (cp, base) \<leftarrow> strtoul_base cp base; strtoul_loop base 0 cp }"

definition simple_strtol :: "u8 list \<Rightarrow> nat \<Rightarrow> (u64 \<times> u8 list) option" where
  "simple_strtol cp base = do {
     c \<leftarrow> deref cp;
     if c = 0x2d then map_option (\<lambda>(r, e). (- r, e)) (simple_strtoul (tl cp) base) else simple_strtoul cp base }"

section \<open>Everything goes through \<open>emit\<close>\<close>

lemma emit_append: "emit e (xs @ ys) out = (emit e xs out \<bind> emit e ys)"
  by (induction xs arbitrary: out) (auto simp: bind_assoc split: Option.bind_splits)

lemmas emit_append_fun = ext [of "emit e (xs @ ys)" "\<lambda>out. emit e xs out \<bind> emit e ys" for e xs ys, OF emit_append]

lemma emit_Nil_bind [simp]: "(x \<bind> emit e []) = x"
  by (cases x) simp_all

lemma emit_Cons_fun: "emit e (c # cs) = (\<lambda>out. put e c out \<bind> emit e cs)"
  by (rule ext) simp

lemma put_emit: "put e c out = emit e [c] out"
  by simp

lemma pad_emit:
  "pad e c n out = (emit e (replicate (nat n) c) out \<bind> (\<lambda>out. Some (if n > 0 then - 1 else n - 1, out)))"
proof (induction e c n out rule: pad.induct)
  case (1 e c n out)
  show ?case
  proof (cases "n > 0")
    case True
    then have "nat n = Suc (nat (n - 1))" by simp
    then show ?thesis using 1 True by (subst pad.simps) (auto simp: bind_assoc intro!: obind_cong)
  qed (subst pad.simps, simp)
qed

lemma put_zeros_emit: "put_zeros e n out = emit e (replicate n 0x30) out"
  by (induction n arbitrary: out) (auto intro!: obind_cong)

lemma pad_char_emit:
  "pad_char e w out = (emit e (replicate (nat (w - 1)) 0x20) out \<bind> (\<lambda>out. Some (if w > 1 then 0 else w - 1, out)))"
proof (induction e w out rule: pad_char.induct)
  case (1 e w out)
  show ?case
  proof (cases "w > 1")
    case True
    then have "nat (w - 1) = Suc (nat (w - 1 - 1))" by simp
    then show ?thesis using 1 True by (subst pad_char.simps) (auto simp: bind_assoc intro!: obind_cong)
  qed (subst pad_char.simps, simp)
qed

lemma pad_string_emit:
  "pad_string e len w out =
     (emit e (replicate (nat (w - len)) 0x20) out \<bind> (\<lambda>out. Some (if len < w then len - 1 else w - 1, out)))"
proof (induction e len w out rule: pad_string.induct)
  case (1 e len w out)
  show ?case
  proof (cases "len < w")
    case True
    then have "nat (w - len) = Suc (nat (w - 1 - len))" by simp
    then show ?thesis using 1 True by (subst pad_string.simps) (auto simp: bind_assoc intro!: obind_cong)
  qed (subst pad_string.simps, simp)
qed

text \<open>What \<open>emit\<close> leaves in a buffer that reaches beyond \<open>end\<close>: the characters up to \<open>end\<close>, nothing else.\<close>

lemma emit_buffer:
  "e < int (length buf) \<Longrightarrow>
   \<exists>buf'. emit e cs (buf, str) = Some (buf', str + length cs) \<and> length buf' = length buf
     \<and> (\<forall>i < length buf. buf' ! i = (if str \<le> i \<and> i < str + length cs \<and> int i \<le> e then cs ! (i - str) else buf ! i))"
proof (induction cs arbitrary: buf str)
  case (Cons c cs)
  show ?case
  proof (cases "int str \<le> e")
    case True
    then have len: "str < length buf" using Cons.prems by linarith
    obtain buf' where b: "emit e cs (buf[str := c], str + 1) = Some (buf', str + 1 + length cs)" "length buf' = length buf"
      "\<forall>i < length buf. buf' ! i = (if str + 1 \<le> i \<and> i < str + 1 + length cs \<and> int i \<le> e then cs ! (i - (str + 1)) else buf[str := c] ! i)"
      using Cons.IH [of "buf[str := c]" "str + 1"] Cons.prems by auto
    have "buf' ! i = (if str \<le> i \<and> i < str + length (c # cs) \<and> int i \<le> e then (c # cs) ! (i - str) else buf ! i)"
      if "i < length buf" for i
      using that b(3) True by (auto simp: nth_Cons' nth_list_update)
    then show ?thesis using True len b(1,2) by (auto simp: put_def)
  next
    case False
    obtain buf' where b: "emit e cs (buf, str + 1) = Some (buf', str + 1 + length cs)" "length buf' = length buf"
      "\<forall>i < length buf. buf' ! i = (if str + 1 \<le> i \<and> i < str + 1 + length cs \<and> int i \<le> e then cs ! (i - (str + 1)) else buf ! i)"
      using Cons.IH [of buf "str + 1"] Cons.prems by auto
    then show ?thesis using False by (auto simp: put_def)
  qed
qed auto

section \<open>The text of a number\<close>

text \<open>Reference: the digits of a number, least significant first.\<close>

fun nat_digits :: "nat \<Rightarrow> nat \<Rightarrow> nat list" where
  "nat_digits b n = (if n = 0 \<or> b < 2 then [] else n mod b # nat_digits b (n div b))"

declare nat_digits.simps [simp del]

lemma nat_digits_0 [simp]: "nat_digits b 0 = []"
  by (subst nat_digits.simps) simp

lemma nat_digits_length: "2 \<le> b \<Longrightarrow> n < b ^ k \<Longrightarrow> length (nat_digits b n) \<le> k"
proof (induction k arbitrary: n)
  case (Suc k)
  have "n div b < b ^ k" using Suc.prems by (simp add: div_less_iff_less_mult mult.commute)
  then show ?case using Suc.IH [of "n div b"] Suc.prems(1) by (subst nat_digits.simps) simp
qed (simp add: nat_digits_0)

lemma nat_digits_less: "2 \<le> b \<Longrightarrow> d \<in> set (nat_digits b n) \<Longrightarrow> d < b"
proof (induction b n rule: nat_digits.induct)
  case (1 b n)
  then show ?case by (subst (asm) (2) nat_digits.simps) (auto split: if_splits)
qed

lemma nat_digits_value: "2 \<le> b \<Longrightarrow> foldr (\<lambda>d v. d + b * v) (nat_digits b n) 0 = n"
proof (induction b n rule: nat_digits.induct)
  case (1 b n)
  then show ?case by (subst nat_digits.simps) (auto simp: mod_mult_div_eq)
qed

lemma digits_loop_eq:
  "2 \<le> b \<Longrightarrow> length tmp + length (nat_digits b n) \<le> 66 \<Longrightarrow>
   digits_loop ds b n tmp = Some (tmp @ map (nth ds) (nat_digits b n))"
proof (induction ds b n tmp rule: digits_loop.induct)
  case (1 ds b n tmp)
  show ?case
  proof (cases "n = 0")
    case False
    have nd: "nat_digits b n = n mod b # nat_digits b (n div b)"
      using False 1(2) by (subst nat_digits.simps) simp
    then show ?thesis using 1(1) 1(2,3) False by (subst digits_loop.simps) simp
  qed (subst digits_loop.simps, simp)
qed

definition digit_text :: "u8 list \<Rightarrow> nat \<Rightarrow> u64 \<Rightarrow> u8 list" where
  "digit_text ds b num = (if num = 0 then [0x30] else rev (map (nth ds) (nat_digits b (unat num))))"

text \<open>
  Reference text of a number: sign, prefix and digits with at least \<open>precision\<close> digits, padded to the width
  on the left with blanks, between prefix and digits with zeros, or on the right with blanks.
\<close>

definition number_text :: "u64 \<Rightarrow> int \<Rightarrow> int \<Rightarrow> int \<Rightarrow> u32 \<Rightarrow> u8 list" where
  "number_text num base sz precision type =
     (if base < 2 \<or> base > 36 then []
      else let ds = (if type AND LARGE \<noteq> 0 then large_digits else small_digits);
             type = (if type AND LEFT \<noteq> 0 then type AND NOT ZEROPAD else type);
             (sign, num, w) = sign_of num sz type;
             special = (type AND SPECIAL \<noteq> 0);
             prefix = (if special \<and> base = 8 then [0x30] else if special \<and> base = 16 then [0x30, ds ! 33] else []);
             head = (if sign \<noteq> 0 then [sign] else []) @ prefix;
             digits = digit_text ds (nat base) num;
             zeros = replicate (nat (precision - int (length digits))) 0x30;
             fill = nat (w - int (length prefix) - max precision (int (length digits)))
         in if type AND LEFT \<noteq> 0 then head @ zeros @ digits @ replicate fill 0x20
            else if type AND ZEROPAD \<noteq> 0 then head @ replicate fill 0x30 @ zeros @ digits
            else replicate fill 0x20 @ head @ zeros @ digits)"

lemma u64_digits_fit: "2 \<le> b \<Longrightarrow> length (nat_digits b (unat (num :: u64))) \<le> 64"
proof -
  assume b: "2 \<le> b"
  have "unat num < 2 ^ 64" using unsigned_less [of num] by simp
  also have "(2 :: nat) ^ 64 \<le> b ^ 64" using b by (rule power_mono) simp
  finally show ?thesis using nat_digits_length [OF b] by blast
qed

lemma put_prefix_emit:
  "put_prefix e ds base type out = emit e (if type AND SPECIAL \<noteq> 0 \<and> base = 8 then [0x30]
     else if type AND SPECIAL \<noteq> 0 \<and> base = 16 then [0x30, ds ! 33] else []) out"
  by (auto simp: put_prefix_def intro!: obind_cong)

lemma and_or_zero: "(a :: u32) AND (b OR c) = 0 \<longleftrightarrow> a AND b = 0 \<and> a AND c = 0"
  by (auto simp: bit_eq_iff bit_simps)

lemma zeropad_left: "(a :: u32) AND (ZEROPAD + LEFT) = 0 \<longleftrightarrow> a AND ZEROPAD = 0 \<and> a AND LEFT = 0"
proof -
  have "ZEROPAD + LEFT = ZEROPAD OR LEFT" by (simp add: print_flags)
  then show ?thesis by (simp add: and_or_zero)
qed

lemma nat_after_pad [simp]: "nat (if n > 0 then - 1 else n - 1) = 0" "nat ((if n > 0 then - 1 else n - 1) - 1) = 0" for n :: int
  by simp_all

lemma number_emit: "number e num base sz precision type out = emit e (number_text num base sz precision type) out"
proof (cases "base < 2 \<or> base > 36")
  case True
  then show ?thesis unfolding number_def number_text_def Let_def if_P [OF True] by simp
next
  case ok: False
  define ds where "ds = (if type AND LARGE \<noteq> 0 then large_digits else small_digits)"
  define ty where "ty = (if type AND LEFT \<noteq> 0 then type AND NOT ZEROPAD else type)"
  obtain sign n w where sg: "sign_of num sz ty = (sign, n, w)" by (metis prod_cases3)
  define tmp where "tmp = rev (digit_text ds (nat base) n)"
  define prefix where "prefix = (if ty AND SPECIAL \<noteq> 0 \<and> base = 8 then [0x30]
    else if ty AND SPECIAL \<noteq> 0 \<and> base = 16 then [0x30, ds ! 33] else [])"
  define fill where "fill = w - int (length prefix) - max precision (int (length tmp))"
  define zeros where "zeros = replicate (nat (precision - int (length tmp))) (0x30 :: u8)"
  define head where "head = (if sign \<noteq> 0 then [sign] else []) @ prefix"
  have b: "2 \<le> nat base" using ok by linarith
  have dig: "(if n = 0 then Some [0x30] else digits_loop ds (nat base) (unat n) []) = Some tmp"
    using digits_loop_eq [OF b, of "[]" "unat n" ds] u64_digits_fit [OF b, of n]
    by (auto simp: tmp_def digit_text_def)
  have sz2: "(if ty AND SPECIAL \<noteq> 0 then if base = 16 then w - 2 else if base = 8 then w - 1 else w else w) = w - int (length prefix)"
    by (simp add: prefix_def)
  have mx: "(if int (length tmp) > precision then int (length tmp) else precision) = max precision (int (length tmp))"
    by (simp add: max_def)
  have zr: "nat (max precision (int (length tmp)) - int (length tmp)) = nat (precision - int (length tmp))"
    by simp
  have sgn: "(if sign \<noteq> 0 then put e sign out else Some out) = emit e (if sign \<noteq> 0 then [sign] else []) out" for out
    by simp
  have zl: "ty AND LEFT \<noteq> 0 \<Longrightarrow> ty AND ZEROPAD = 0"
    by (auto simp: ty_def bit_eq_iff bit_simps split: if_splits)
  have code: "number e num base sz precision type out = do {
        (sz, out) \<leftarrow> (if ty AND ZEROPAD = 0 \<and> ty AND LEFT = 0 then pad e 0x20 fill out else Some (fill, out));
        out \<leftarrow> emit e (if sign \<noteq> 0 then [sign] else []) out;
        out \<leftarrow> emit e prefix out;
        (sz, out) \<leftarrow> (if ty AND LEFT = 0 then pad e (if ty AND ZEROPAD \<noteq> 0 then 0x30 else 0x20) sz out else Some (sz, out));
        out \<leftarrow> emit e zeros out;
        out \<leftarrow> emit e (rev tmp) out;
        (sz, out) \<leftarrow> pad e 0x20 sz out;
        Some out }"
    unfolding number_def Let_def if_not_P [OF ok] ds_def [symmetric] ty_def [symmetric] sg prod.case dig
      bind.bind_lunit sz2 mx sgn put_prefix_emit prefix_def [symmetric] zr put_zeros_emit zeros_def [symmetric]
      zeropad_left fill_def [symmetric]
    by (rule refl)
  have ref: "number_text num base sz precision type =
      (if ty AND LEFT \<noteq> 0 then head @ zeros @ rev tmp @ replicate (nat fill) 0x20
       else if ty AND ZEROPAD \<noteq> 0 then head @ replicate (nat fill) 0x30 @ zeros @ rev tmp
       else replicate (nat fill) 0x20 @ head @ zeros @ rev tmp)"
    unfolding number_text_def Let_def if_not_P [OF ok] ds_def [symmetric] ty_def [symmetric] sg prod.case
      head_def zeros_def fill_def tmp_def prefix_def by simp
  show ?thesis
    unfolding code ref pad_emit head_def using zl
    by (auto simp: emit_append_fun emit_Cons_fun bind_assoc)
qed


section \<open>The text of a format\<close>

lemma emit_snd: "emit e cs out = Some out' \<Longrightarrow> snd out' = snd out + length cs"
proof (induction cs arbitrary: out)
  case (Cons c cs)
  obtain o1 where o1: "put e c out = Some o1" "emit e cs o1 = Some out'"
    using Cons.prems by (auto simp: bind_eq_Some_conv)
  have "snd o1 = snd out + 1" using o1(1) by (auto simp: put_def split: prod.splits if_splits)
  then show ?case using Cons.IH [OF o1(2)] by simp
qed simp

lemma print_char_emit:
  "print_char e fl w c out = emit e (if fl AND LEFT = 0 then replicate (nat (w - 1)) 0x20 @ [c]
     else c # replicate (nat (w - 1)) 0x20) out"
  by (auto simp: print_char_def pad_char_emit emit_append_fun emit_Cons_fun bind_assoc)

lemma print_string_emit:
  "ut_strlen (case s of None \<Rightarrow> NULL_text | Some s \<Rightarrow> s) = Some len \<Longrightarrow>
   print_string e fl w s out =
     emit e (if fl AND LEFT = 0 then replicate (nat (w - int len)) 0x20 @ take len (case s of None \<Rightarrow> NULL_text | Some s \<Rightarrow> s)
       else take len (case s of None \<Rightarrow> NULL_text | Some s \<Rightarrow> s) @ replicate (nat (w - int len)) 0x20) out"
  by (auto simp: print_string_def Let_def pad_string_emit emit_append_fun bind_assoc)

text \<open>The stores of \<open>%n\<close>, given relative to the start of the text, moved to an offset.\<close>

definition shifted :: "nat \<Rightarrow> (u64 \<times> nat) list \<Rightarrow> (u64 \<times> nat) list" where
  "shifted k = map (\<lambda>(a, n). (a, n + k))"

lemma shifted_simps [simp]:
  "shifted k [] = []" "shifted k ((a, n) # rel) = (a, n + k) # shifted k rel"
  "shifted k (r1 @ r2) = shifted k r1 @ shifted k r2" "shifted k (shifted l rel) = shifted (l + k) rel" "shifted 0 rel = rel"
  by (auto simp: shifted_def)

lemma convert_emit:
  "(\<forall>e ns out. convert e fl w p q s args ns out = None)
   \<or> (\<exists>cs rel s' args'. \<forall>e ns out. convert e fl w p q s args ns out =
        (emit e cs out \<bind> (\<lambda>out'. Some (s', args', ns @ shifted (snd out) rel, out'))))"
  (is "?fails \<or> (\<exists>cs rel s' args'. ?emits cs rel s' args')")
proof (cases "deref s")
  case (Some c)
  consider "c = 0x63" | "c = 0x73" | "c = 0x70" | "c = 0x6e" | "c = 0x25" | "c \<in> {0x6f, 0x58, 0x78, 0x64, 0x69, 0x75}"
    | "c \<notin> {0x63, 0x73, 0x70, 0x6e, 0x25, 0x6f, 0x58, 0x78, 0x64, 0x69, 0x75}" by blast
  then show ?thesis
  proof cases
    case 1
    show ?thesis
    proof (cases "va_int args")
      case (Some r)
      have "?emits (if fl AND LEFT = 0 then replicate (nat (w - 1)) 0x20 @ [ucast (fst r)]
          else ucast (fst r) # replicate (nat (w - 1)) 0x20) [] (tl s) (snd r)"
        using Some 1 \<open>deref s = Some c\<close> by (simp add: convert_def Let_def print_char_emit split_beta)
      then show ?thesis by blast
    qed (simp add: convert_def 1 \<open>deref s = Some c\<close>)
  next
    case 2
    show ?thesis
    proof (cases "va_str args \<bind> (\<lambda>(s, args). ut_strlen (case s of None \<Rightarrow> NULL_text | Some s \<Rightarrow> s))")
      case None
      then show ?thesis using 2 \<open>deref s = Some c\<close>
        by (auto simp: convert_def print_string_def Let_def bind_eq_None_conv split: prod.splits)
    next
      case (Some len)
      then obtain t as where v: "va_str args = Some (t, as)" "ut_strlen (case t of None \<Rightarrow> NULL_text | Some s \<Rightarrow> s) = Some len"
        by (auto simp: bind_eq_Some_conv)
      have "?emits (if fl AND LEFT = 0 then replicate (nat (w - int len)) 0x20 @ take len (case t of None \<Rightarrow> NULL_text | Some s \<Rightarrow> s)
          else take len (case t of None \<Rightarrow> NULL_text | Some s \<Rightarrow> s) @ replicate (nat (w - int len)) 0x20) [] (tl s) as"
        using v(1) 2 \<open>deref s = Some c\<close> by (simp add: convert_def Let_def print_string_emit [OF v(2)])
      then show ?thesis by blast
    qed
  next
    case 3
    show ?thesis
    proof (cases "va_int args")
      case (Some r)
      have "?emits (if w = - 1 then number_text (fst r) 16 16 p (fl OR ZEROPAD) else number_text (fst r) 16 w p fl)
          [] (tl s) (snd r)"
        using Some 3 \<open>deref s = Some c\<close> by (simp add: convert_def Let_def split_beta number_emit)
      then show ?thesis by blast
    qed (simp add: convert_def 3 \<open>deref s = Some c\<close>)
  next
    case 4
    show ?thesis
    proof (cases "va_int args")
      case (Some r)
      have "?emits [] [(fst r, 0)] (tl s) (snd r)"
        using Some 4 \<open>deref s = Some c\<close> by (simp add: convert_def Let_def split_beta)
      then show ?thesis by blast
    qed (simp add: convert_def 4 \<open>deref s = Some c\<close>)
  next
    case 5
    have "?emits [0x25] [] (tl s) args"
      using 5 \<open>deref s = Some c\<close> by (simp add: convert_def)
    then show ?thesis by blast
  next
    case 6
    define b :: int where "b = (if c = 0x6f then 8 else if c = 0x58 \<or> c = 0x78 then 16 else 10)"
    define fl' where "fl' = (if c = 0x58 then fl OR LARGE else if c = 0x64 \<or> c = 0x69 then fl OR SIGN else fl)"
    have cv: "convert e fl w p q s args ns out = (fetch_num q fl' args \<bind> (\<lambda>(num, args).
        number e num b w p fl' out \<bind> (\<lambda>out. Some (tl s, args, ns, out))))" for e ns out
      using 6 \<open>deref s = Some c\<close> by (auto simp: convert_def b_def fl'_def Let_def)
    show ?thesis
    proof (cases "fetch_num q fl' args")
      case (Some r)
      have "?emits (number_text (fst r) b w p fl') [] (tl s) (snd r)"
        using Some by (simp add: cv split_beta number_emit)
      then show ?thesis by blast
    qed (simp add: cv)
  next
    case 7
    have "?emits (if c \<noteq> 0 then [0x25, c] else [0x25]) [] (if c \<noteq> 0 then tl s else s) args"
      using 7 \<open>deref s = Some c\<close> by (auto simp: convert_def bind_assoc)
    then show ?thesis by blast
  qed
qed (simp add: convert_def)


lemma vs_then_emit:
  assumes "(\<forall>e ns out. vs_loop e fmt args ns out = None)
   \<or> (\<exists>cs rel. \<forall>e ns out. vs_loop e fmt args ns out =
        (emit e cs out \<bind> (\<lambda>out'. Some (ns @ shifted (snd out) rel, out'))))"
  shows "(\<forall>e ns (out :: out). (emit e cs0 out \<bind> vs_loop e fmt args (ns @ shifted (snd out) rel0)) = None)
   \<or> (\<exists>cs rel. \<forall>e ns out. (emit e cs0 out \<bind> vs_loop e fmt args (ns @ shifted (snd out) rel0)) =
        (emit e cs out \<bind> (\<lambda>out'. Some (ns @ shifted (snd out) rel, out'))))"
  using assms
proof
  assume "\<forall>e ns out. vs_loop e fmt args ns out = None"
  then show ?thesis by (auto simp: bind_eq_None_conv)
next
  assume "\<exists>cs rel. \<forall>e ns out. vs_loop e fmt args ns out =
        (emit e cs out \<bind> (\<lambda>out'. Some (ns @ shifted (snd out) rel, out')))"
  then obtain cs rel where vs: "\<And>e ns out. vs_loop e fmt args ns out =
        (emit e cs out \<bind> (\<lambda>out'. Some (ns @ shifted (snd out) rel, out')))" by blast
  have "(emit e cs0 out \<bind> vs_loop e fmt args (ns @ shifted (snd out) rel0)) =
        (emit e (cs0 @ cs) out \<bind> (\<lambda>out'. Some (ns @ shifted (snd out) (rel0 @ shifted (length cs0) rel), out')))" for e ns out
    unfolding emit_append bind_assoc vs by (rule obind_cong [OF refl]) (auto dest!: emit_snd simp: add.commute)
  then show ?thesis by blast
qed

lemma vs_loop_emit:
  "(\<forall>e ns out. vs_loop e fmt args ns out = None)
   \<or> (\<exists>cs rel. \<forall>e ns out. vs_loop e fmt args ns out =
        (emit e cs out \<bind> (\<lambda>out'. Some (ns @ shifted (snd out) rel, out'))))"
proof (induction "length fmt" arbitrary: fmt args rule: less_induct)
  case less
  consider "deref fmt = None" | "deref fmt = Some 0" | c where "deref fmt = Some c" "c \<noteq> 0" "c \<noteq> 0x25" | "deref fmt = Some 0x25"
    by (cases "deref fmt") auto
  then show ?case
  proof cases
    case 1
    then show ?thesis by (simp add: vs_loop.simps)
  next
    case 2
    have "\<forall>e ns out. vs_loop e fmt args ns out = (emit e [] out \<bind> (\<lambda>out'. Some (ns @ shifted (snd out) [], out')))"
      using 2 by (simp add: vs_loop.simps)
    then show ?thesis by blast
  next
    case (3 c)
    have lp: "vs_loop e fmt args ns out = (emit e [c] out \<bind> vs_loop e (tl fmt) args ns)" for e ns out
      using 3 by (subst vs_loop.simps) simp
    show ?thesis unfolding lp using vs_then_emit [OF less [OF deref_length [OF 3(1)], of args], of "[c]" "[]"] by simp
  next
    case 4
    define spec where "spec = do {
       (flags, fmt1) \<leftarrow> parse_flags 0 (tl fmt);
       (w, flags, fmt2, args) \<leftarrow> parse_width flags fmt1 args;
       (prec, fmt3, args) \<leftarrow> parse_precision fmt2 args;
       (q, fmt4) \<leftarrow> parse_qualifier fmt3;
       Some (flags, w, prec, q, fmt4, args) }"
    have lp: "vs_loop e fmt args ns out = (spec \<bind> (\<lambda>(flags, w, prec, q, fmt4, args).
        convert e flags w prec q fmt4 args ns out \<bind> (\<lambda>(fmt5, args, ns, out). vs_loop e fmt5 args ns out)))" for e ns out
      unfolding spec_def using 4 by (subst vs_loop.simps) (simp add: bind_assoc split_def)
    show ?thesis
    proof (cases spec)
      case (Some r)
      obtain flags w prec q fmt4 args4 where r: "r = (flags, w, prec, q, fmt4, args4)" by (cases r) auto
      have len: "length fmt4 < length fmt"
        using Some deref_length [OF 4] unfolding spec_def r
        by (auto simp: bind_eq_Some_conv dest!: parse_flags_length parse_width_length parse_precision_length parse_qualifier_length)
      consider "\<forall>e ns out. convert e flags w prec q fmt4 args4 ns out = None"
        | cs rel fmt5 args5 where "\<forall>e ns out. convert e flags w prec q fmt4 args4 ns out =
            (emit e cs out \<bind> (\<lambda>out'. Some (fmt5, args5, ns @ shifted (snd out) rel, out')))"
        using convert_emit [of flags w prec q fmt4 args4] by blast
      then show ?thesis
      proof cases
        case 1
        then show ?thesis by (simp add: lp Some r)
      next
        case (2 cs rel fmt5 args5)
        have "length fmt5 < length fmt"
        proof -
          obtain out' where "emit (- 1) cs ([], 0) = Some out'" using emit_buffer [of "- 1" "[]" cs 0] by auto
          then have "convert (- 1) flags w prec q fmt4 args4 [] ([], 0) = Some (fmt5, args5, shifted 0 rel, out')"
            using 2 by simp
          then show ?thesis using convert_length len by fastforce
        qed
        then have IH: "(\<forall>e ns out. vs_loop e fmt5 args5 ns out = None)
            \<or> (\<exists>cs rel. \<forall>e ns out. vs_loop e fmt5 args5 ns out = (emit e cs out \<bind> (\<lambda>out'. Some (ns @ shifted (snd out) rel, out'))))"
          by (rule less)
        have "vs_loop e fmt args ns out = (emit e cs out \<bind> vs_loop e fmt5 args5 (ns @ shifted (snd out) rel))" for e ns out
          by (simp add: lp Some r 2 bind_assoc)
        then show ?thesis using vs_then_emit [OF IH, of cs rel] by simp
      qed
    qed (simp add: lp)
  qed
qed

section \<open>Properties\<close>

lemma vsnprintf_emit:
  assumes vs: "\<And>e ns out. vs_loop e fmt args ns out = (emit e cs out \<bind> (\<lambda>out'. Some (ns @ shifted (snd out) rel, out')))"
    and sz: "0 < sz \<and> sz \<le> length buf"
  shows "vsnprintf buf sz fmt args =
    Some (length cs, rel, take (sz - 1) cs @ 0 # drop (Suc (min (length cs) (sz - 1))) buf)"
proof -
  obtain buf' where b: "emit (int sz - 1) cs (buf, 0) = Some (buf', length cs)" "length buf' = length buf"
    "\<forall>i < length buf. buf' ! i = (if i < length cs \<and> int i \<le> int sz - 1 then cs ! i else buf ! i)"
    using emit_buffer [of "int sz - 1" buf cs 0] sz by auto
  have "buf'[min (length cs) (sz - 1) := 0] = take (sz - 1) cs @ 0 # drop (Suc (min (length cs) (sz - 1))) buf"
  proof (rule nth_equalityI)
    show "length (buf'[min (length cs) (sz - 1) := 0])
        = length (take (sz - 1) cs @ 0 # drop (Suc (min (length cs) (sz - 1))) buf)"
      using sz b(2) by (auto simp: min_def)
  qed (use sz b(2,3) in \<open>auto simp: nth_append nth_list_update min_def nth_Cons'\<close>)
  moreover have "(if int (length cs) \<le> int sz - 1 then length cs else nat (int sz - 1)) = min (length cs) (sz - 1)"
    using sz by auto
  moreover have "min (length cs) (sz - 1) < length buf" using sz by auto
  ultimately show ?thesis using sz b(1,2) by (simp add: vsnprintf_def vs Let_def)
qed





lemma digits_read_back:
  "ds = small_digits \<or> ds = large_digits \<Longrightarrow> d < 16 \<Longrightarrow> isxdigit (ds ! d) \<and> digit_value (ds ! d) = d"
proof -
  have "\<forall>d \<in> set [0 ..< 16]. isxdigit (small_digits ! d) \<and> digit_value (small_digits ! d) = d
      \<and> isxdigit (large_digits ! d) \<and> digit_value (large_digits ! d) = d"
    by code_simp
  then show "ds = small_digits \<or> ds = large_digits \<Longrightarrow> d < 16 \<Longrightarrow> isxdigit (ds ! d) \<and> digit_value (ds ! d) = d"
    by (metis atLeastLessThan_iff set_upt zero_le)
qed

lemma strtoul_loop_digits:
  "\<lbrakk>ds = small_digits \<or> ds = large_digits; b \<le> 16; \<forall>d \<in> set dl. d < b; \<not> isxdigit c\<rbrakk> \<Longrightarrow>
   strtoul_loop b r (map (nth ds) dl @ c # rest) = Some (foldl (\<lambda>r d. r * of_nat b + of_nat d) r dl, c # rest)"
  by (induction dl arbitrary: r) (auto simp: digits_read_back)

lemma foldr_digits_of_nat:
  "foldr (\<lambda>d v. v * of_nat b + of_nat d) dl 0 = (of_nat (foldr (\<lambda>d v. d + b * v) dl 0) :: u64)"
  by (induction dl) (auto simp: algebra_simps)

lemma digit_text_reads_back:
  assumes "2 \<le> b" "b \<le> 16" "ds = small_digits \<or> ds = large_digits" "\<not> isxdigit c"
  shows "strtoul_loop b 0 (digit_text ds b num @ c # rest) = Some (num, c # rest)"
proof (cases "num = 0")
  case True
  have "ds ! 0 = 0x30" using assms(3) by (auto simp: small_digits_def large_digits_def upt_rec)
  then show ?thesis
    using strtoul_loop_digits [OF assms(3,2) _ assms(4), of "[0]" 0 rest] assms(1) True by (simp add: digit_text_def)
next
  case False
  have "\<forall>d \<in> set (rev (nat_digits b (unat num))). d < b" using nat_digits_less [OF assms(1)] by auto
  note loop = strtoul_loop_digits [OF assms(3,2) this assms(4), of 0 rest]
  then show ?thesis using False nat_digits_value [OF assms(1), of "unat num"]
    by (simp add: digit_text_def rev_map foldl_conv_foldr foldr_digits_of_nat)
qed

lemma number_text_plain:
  assumes "2 \<le> b" "b \<le> 36" "type = 0 \<or> type = LARGE"
  shows "number_text num (int b) (- 1) (- 1) type = digit_text (if type = LARGE then large_digits else small_digits) b num"
proof -
  have plain: "type AND LEFT = 0" "type AND SIGN = 0" "type AND SPECIAL = 0" "type AND ZEROPAD = 0"
      "(type AND LARGE \<noteq> 0) = (type = LARGE)"
    using assms(3) by (auto simp: print_flags)
  have base: "\<not> (int b < 2 \<or> 36 < int b)" using assms(1,2) by simp
  have "(if type AND LEFT \<noteq> 0 then type AND NOT ZEROPAD else type) = type"
    "sign_of num (- 1) type = (0, num, - 1)" by (simp_all add: plain sign_of_def)
  then show ?thesis
    unfolding number_text_def if_not_P [OF base] by (simp add: Let_def plain(1,3,4) flip: plain(5))
qed



end
