(* ===== verification/Scanf.thy ===== *)
theory Scanf
  imports Printf
begin

text \<open>
  Formatted input of kernel/util.c: \<open>simple_strtoull\<close>, \<open>vsscanf\<close>. The input and the format are the
  rests of their buffers; what the conversions store through the pointers of the argument list is
  collected in the order of the stores. The caller passes enough pointers. Field widths are unbounded integers.
\<close>

section \<open>Long long numbers\<close>

definition digit_value_ll :: "u8 \<Rightarrow> nat" where
  "digit_value_ll c =
     (if isdigit c then unat c - 0x30 else unat (if islower c then toupper c else c) - 0x41 + 10)"

fun strtoull_loop :: "nat \<Rightarrow> u64 \<Rightarrow> u8 list \<Rightarrow> (u64 \<times> u8 list) option" where
  "strtoull_loop base result [] = None"
| "strtoull_loop base result (c # cp) =
     (if isxdigit c \<and> digit_value_ll c < base then
        strtoull_loop base (result * of_nat base + of_nat (digit_value_ll c)) cp
      else Some (result, c # cp))"

definition simple_strtoull :: "u8 list \<Rightarrow> nat \<Rightarrow> (u64 \<times> u8 list) option" where
  "simple_strtoull cp base = do { (cp, base) \<leftarrow> strtoul_base cp base; strtoull_loop base 0 cp }"

definition simple_strtoll :: "u8 list \<Rightarrow> nat \<Rightarrow> (u64 \<times> u8 list) option" where
  "simple_strtoll cp base = do {
     c \<leftarrow> deref cp;
     if c = 0x2d then map_option (\<lambda>(r, e). (- r, e)) (simple_strtoull (tl cp) base) else simple_strtoull cp base }"

text \<open>Both families read the same numbers.\<close>

lemma digit_value_ll_eq: "digit_value_ll c = digit_value c"
  by (simp add: digit_value_ll_def digit_value_def toupper_def)

lemma simple_strtoull_eq: "simple_strtoull cp base = simple_strtoul cp base"
proof -
  have "strtoull_loop b r cp = strtoul_loop b r cp" for b r cp
    by (induction b r cp rule: strtoul_loop.induct) (simp_all add: digit_value_ll_eq)
  then show ?thesis by (simp add: simple_strtoull_def simple_strtoul_def)
qed

section \<open>Scanning\<close>

text \<open>What a conversion stores: characters, a terminated string, or a number of so many bits.\<close>

datatype sval = SChars "u8 list" | SString "u8 list" | SNum nat u64 | SPos nat

fun skip_spaces :: "u8 list \<Rightarrow> u8 list option" where
  "skip_spaces [] = None"
| "skip_spaces (c # s) = (if isspace c then skip_spaces s else Some (c # s))"

fun skip_word :: "u8 list \<Rightarrow> u8 list option" where
  "skip_word [] = None"
| "skip_word (c # s) = (if \<not> isspace c \<and> c \<noteq> 0 then skip_word s else Some (c # s))"

datatype squalifier = Snone | SH | Sh | Sl | SL | SZ

definition scan_qualifier :: "u8 list \<Rightarrow> (squalifier \<times> u8 list) option" where
  "scan_qualifier fmt = do {
     c \<leftarrow> deref fmt;
     if c \<in> {0x68, 0x6c, 0x4c, 0x5a, 0x7a} then do {
       let fmt = tl fmt;
       d \<leftarrow> deref fmt;
       Some (if c = 0x68 then if d = c then (SH, tl fmt) else (Sh, fmt)
             else if c = 0x6c then if d = c then (SL, tl fmt) else (Sl, fmt)
             else if c = 0x4c then (SL, fmt)
             else (SZ, fmt)) }
     else Some (Snone, fmt) }"

text \<open>\<open>do *s++ = *str++; while (--field_width > 0 && *str)\<close>.\<close>

fun scan_chars :: "int \<Rightarrow> u8 list \<Rightarrow> (u8 list \<times> u8 list) option" where
  "scan_chars w [] = None"
| "scan_chars w (c # str) =
     (if w - 1 > 0 then do {
        d \<leftarrow> deref str;
        if d \<noteq> 0 then do { (s, str) \<leftarrow> scan_chars (w - 1) str; Some (c # s, str) } else Some ([c], str) }
      else Some ([c], str))"

text \<open>\<open>while (*str && !isspace(*str) && field_width--)\<close>.\<close>

fun scan_string :: "int \<Rightarrow> u8 list \<Rightarrow> (u8 list \<times> u8 list) option" where
  "scan_string w [] = None"
| "scan_string w (c # str) =
     (if c \<noteq> 0 \<and> \<not> isspace c \<and> w \<noteq> 0 then do { (s, str) \<leftarrow> scan_string (w - 1) str; Some (c # s, str) }
      else Some ([], c # str))"

text \<open>The store of an integer conversion: the function of the qualifier, cut to the width of the target.\<close>

definition scan_num :: "squalifier \<Rightarrow> bool \<Rightarrow> u8 list \<Rightarrow> nat \<Rightarrow> (sval \<times> u8 list) option" where
  "scan_num q is_sign str base =
     (case q of
        SH \<Rightarrow> map_option (\<lambda>(v, e). (SNum 8 (ucast (ucast v :: u8)), e))
          (if is_sign then simple_strtol str base else simple_strtoul str base)
      | Sh \<Rightarrow> map_option (\<lambda>(v, e). (SNum 16 (ucast (ucast v :: u16)), e))
          (if is_sign then simple_strtol str base else simple_strtoul str base)
      | Sl \<Rightarrow> map_option (\<lambda>(v, e). (SNum 64 v, e))
          (if is_sign then simple_strtol str base else simple_strtoul str base)
      | SL \<Rightarrow> map_option (\<lambda>(v, e). (SNum 64 v, e))
          (if is_sign then simple_strtoll str base else simple_strtoull str base)
      | SZ \<Rightarrow> map_option (\<lambda>(v, e). (SNum 64 v, e)) (simple_strtoul str base)
      | Snone \<Rightarrow> map_option (\<lambda>(v, e). (SNum 32 (ucast (ucast v :: u32)), e))
          (if is_sign then simple_strtol str base else simple_strtoul str base))"

text \<open>The integer conversions behind the first switch: \<^term>\<open>None\<close> inside for \<open>break\<close>.\<close>

definition scan_int :: "squalifier \<Rightarrow> bool \<Rightarrow> nat \<Rightarrow> u8 list \<Rightarrow> (sval \<times> u8 list) option option" where
  "scan_int q is_sign base str = do {
     str \<leftarrow> skip_spaces str;
     digit \<leftarrow> deref str;
     digit \<leftarrow> (if is_sign \<and> digit = 0x2d then deref (tl str) else Some digit);
     if digit = 0 \<or> (base = 16 \<and> \<not> isxdigit digit) \<or> (base = 10 \<and> \<not> isdigit digit)
        \<or> (base = 8 \<and> (\<not> isdigit digit \<or> digit > 0x37)) \<or> (base = 0 \<and> \<not> isdigit digit)
     then Some None
     else map_option Some (scan_num q is_sign str base) }"

text \<open>How a conversion ends: with \<open>return\<close> or \<open>break\<close>, or the scan goes on with this store.\<close>

datatype scan_result = Stop | Go "sval option" nat "u8 list"

definition scan_convert :: "nat \<Rightarrow> int \<Rightarrow> squalifier \<Rightarrow> u8 \<Rightarrow> u8 list \<Rightarrow> scan_result option" where
  "scan_convert blen w q c str =
     (if c = 0x63 then do {
        (s, str) \<leftarrow> scan_chars (if w = - 1 then 1 else w) str;
        Some (Go (Some (SChars s)) 1 str) }
      else if c = 0x73 then do {
        str \<leftarrow> skip_spaces str;
        (s, str) \<leftarrow> scan_string (if w = - 1 then 0x7fffffff else w) str;
        Some (Go (Some (SString s)) 1 str) }
      else if c = 0x6e then Some (Go (Some (SPos (blen - length str))) 0 str)
      else if c = 0x25 then do {
        d \<leftarrow> deref str;
        Some (if d \<noteq> 0x25 then Stop else Go None 0 (tl str)) }
      else if c \<in> {0x6f, 0x78, 0x58, 0x69, 0x64, 0x75} then do {
        let base = (if c = 0x6f then 8 else if c = 0x78 \<or> c = 0x58 then 16 else if c = 0x69 then 0 else 10);
        r \<leftarrow> scan_int q (c = 0x69 \<or> c = 0x64) base str;
        Some (case r of None \<Rightarrow> Stop | Some (v, str) \<Rightarrow> Go (Some v) 1 str) }
      else Some Stop)"

lemma skip_spaces_length: "skip_spaces s = Some s' \<Longrightarrow> length s' \<le> length s"
  by (induction s rule: skip_spaces.induct) (auto split: if_splits)

lemma skip_word_length: "skip_word s = Some s' \<Longrightarrow> length s' \<le> length s"
  by (induction s rule: skip_word.induct) (auto split: if_splits)

lemma scan_qualifier_length: "scan_qualifier s = Some (q, s') \<Longrightarrow> length s' \<le> length s"
  by (auto simp: scan_qualifier_def Let_def bind_eq_Some_conv split: if_splits)

definition skip_white :: "u8 list \<Rightarrow> u8 list \<Rightarrow> (u8 list \<times> u8 list) option" where
  "skip_white fmt str = do {
     f \<leftarrow> deref fmt;
     if isspace f then do { fmt \<leftarrow> skip_spaces fmt; str \<leftarrow> skip_spaces str; Some (fmt, str) } else Some (fmt, str) }"

lemma skip_white_length: "skip_white fmt str = Some (fmt', str') \<Longrightarrow> length fmt' \<le> length fmt"
  by (auto simp: skip_white_def bind_eq_Some_conv split: if_splits dest: skip_spaces_length)

function scan_loop :: "nat \<Rightarrow> u8 list \<Rightarrow> u8 list \<Rightarrow> nat \<Rightarrow> sval list \<Rightarrow> (nat \<times> sval list) option" where
  "scan_loop blen str fmt num st = do {
     f \<leftarrow> deref fmt;
     s \<leftarrow> (if f = 0 then Some 0 else deref str);
     if f = 0 \<or> s = 0 then Some (num, st)
     else do {
       (fmt1, str) \<leftarrow> skip_white fmt str;
       f \<leftarrow> deref fmt1;
       if f \<noteq> 0x25 \<and> f \<noteq> 0 then do {
         s \<leftarrow> deref str;
         if f \<noteq> s then Some (num, st) else scan_loop blen (tl str) (tl fmt1) num st }
       else if f = 0 then Some (num, st)
       else do {
         let fmt2 = tl fmt1;
         f \<leftarrow> deref fmt2;
         if f = 0x2a then do {
           fmt3 \<leftarrow> skip_word fmt2;
           str \<leftarrow> skip_word str;
           scan_loop blen str fmt3 num st }
         else do {
           (w, fmt3) \<leftarrow> (if isdigit f then skip_atoi 0 fmt2 else Some (- 1, fmt2));
           (q, fmt4) \<leftarrow> scan_qualifier fmt3;
           f \<leftarrow> deref fmt4;
           s \<leftarrow> (if f = 0 then Some 0 else deref str);
           if f = 0 \<or> s = 0 then Some (num, st)
           else do {
             r \<leftarrow> scan_convert blen w q f str;
             case r of
               Stop \<Rightarrow> Some (num, st)
             | Go v k str \<Rightarrow> scan_loop blen str (tl fmt4) (num + k) (st @ (case v of None \<Rightarrow> [] | Some v \<Rightarrow> [v])) } } } } }"
  by pat_completeness auto
termination
  by (relation "measure (\<lambda>(blen, str, fmt, num, st). length fmt)")
    (auto dest!: deref_length skip_white_length skip_word_length scan_qualifier_length skip_atoi_length split: if_splits)

declare scan_loop.simps [simp del]

definition vsscanf :: "u8 list \<Rightarrow> u8 list \<Rightarrow> (nat \<times> sval list) option" where
  "vsscanf buf fmt = scan_loop (length buf) buf fmt 0 []"

section \<open>Reading back what was printed\<close>

lemma decimal_chars:
  "d < 10 \<Longrightarrow> isdigit (small_digits ! d) \<and> \<not> isspace (small_digits ! d) \<and> small_digits ! d \<noteq> 0"
proof -
  have "\<forall>d \<in> set [0 ..< 10]. isdigit (small_digits ! d) \<and> \<not> isspace (small_digits ! d) \<and> small_digits ! d \<noteq> 0"
    by code_simp
  then show "d < 10 \<Longrightarrow> isdigit (small_digits ! d) \<and> \<not> isspace (small_digits ! d) \<and> small_digits ! d \<noteq> 0"
    by (metis atLeastLessThan_iff set_upt zero_le)
qed

lemma format_chars [simp]:
  "\<not> isdigit 0x75" "\<not> isspace 0x25" "isspace 0x20" "\<not> isspace 0" "\<not> isxdigit 0x20" "\<not> isdigit 0x20"
  by code_simp+

lemma ucast_u32_back: "ucast (ucast (ucast w :: u64) :: u32) = (ucast w :: u64)" for w :: u32
  by (rule bit_word_eqI) (auto simp: bit_simps dest: bit_imp_le_length)

text \<open>\<open>%u\<close> and a blank, \<open>n\<close> times, and what it prints.\<close>

definition decimals_format :: "nat \<Rightarrow> u8 list" where
  "decimals_format n = concat (replicate n [0x25, 0x75, 0x20]) @ [0]"

definition decimals_text :: "u32 list \<Rightarrow> u8 list" where
  "decimals_text ws = concat (map (\<lambda>w. digit_text small_digits 10 (ucast w) @ [0x20]) ws)"

lemma decimals_simps [simp]:
  "decimals_format 0 = [0]" "decimals_format (Suc n) = 0x25 # 0x75 # 0x20 # decimals_format n"
  "decimals_text [] = []" "decimals_text (w # ws) = digit_text small_digits 10 (ucast w) @ 0x20 # decimals_text ws"
  by (simp_all add: decimals_format_def decimals_text_def)

lemma decimals_format_printed:
  "vs_loop e (decimals_format (length ws)) (map (\<lambda>w. VInt (ucast w)) ws) ns out =
     (emit e (decimals_text ws) out \<bind> (\<lambda>out'. Some (ns, out')))"
proof (induction ws arbitrary: out)
  case Nil
  show ?case by (subst vs_loop.simps) simp
next
  case (Cons w ws)
  have num: "number e (ucast w) 10 (- 1) (- 1) 0 out = emit e (digit_text small_digits 10 (ucast w)) out" for out
    using number_text_plain [of 10 0 "ucast w"] by (simp add: number_emit print_flags)
  have sgn: "(0 :: u32) AND SIGN = 0" by simp
  have "vs_loop e (decimals_format (length (w # ws))) (map (\<lambda>w. VInt (ucast w)) (w # ws)) ns out =
      (emit e (digit_text small_digits 10 (ucast w)) out \<bind>
        vs_loop e (0x20 # decimals_format (length ws)) (map (\<lambda>w. VInt (ucast w)) ws) ns)"
    by (subst vs_loop.simps)
      (simp add: parse_width_def parse_precision_def parse_qualifier_def convert_def fetch_num_def Let_def num ucast_u32_back)
  also have "vs_loop e (0x20 # decimals_format (length ws)) (map (\<lambda>w. VInt (ucast w)) ws) ns =
      (\<lambda>out. put e 0x20 out \<bind> (\<lambda>out. emit e (decimals_text ws) out \<bind> (\<lambda>out'. Some (ns, out'))))"
    by (rule ext, subst vs_loop.simps) (simp add: Cons.IH cong: obind_cong)
  finally show ?case by (simp add: emit_append bind_assoc)
qed

lemma decimal_start:
  obtains c s where "digit_text small_digits 10 num = c # s" "isdigit c" "\<not> isspace c" "c \<noteq> 0"
proof (cases "num = 0")
  case True
  have "isdigit 0x30 \<and> \<not> isspace 0x30" by code_simp
  then show ?thesis using that True by (auto simp: digit_text_def)
next
  case False
  have nn: "unat num \<noteq> 0" using False by (simp add: unat_eq_0)
  have "nat_digits 10 (unat num) \<noteq> []" by (subst nat_digits.simps) (use nn in simp)
  then obtain ds d where ds: "nat_digits 10 (unat num) = ds @ [d]" by (metis rev_exhaust)
  then have "d < 10" using nat_digits_less [of 10 d "unat num"] by simp
  then show ?thesis using that [of "small_digits ! d"] decimal_chars [of d] False ds by (simp add: digit_text_def)
qed

lemma scan_decimal:
  "scan_loop blen (digit_text small_digits 10 (ucast w) @ 0x20 # str) (0x25 # 0x75 # fmt) num st =
   scan_loop blen (0x20 # str) fmt (num + 1) (st @ [SNum 32 (ucast (w :: u32))])"
proof -
  obtain c s where dt: "digit_text small_digits 10 (ucast w) = c # s" "isdigit c" "\<not> isspace c" "c \<noteq> 0"
    by (rule decimal_start)
  have rd: "simple_strtoul (c # s @ 0x20 # str) 10 = Some (ucast w, 0x20 # str)"
    using digit_text_reads_back [where b = 10 and ds = small_digits and c = "0x20" and num = "ucast w" and rest = str]
    by (simp add: simple_strtoul_def strtoul_base_def dt(1))
  show ?thesis unfolding dt(1)
    by (subst scan_loop.simps)
      (simp add: dt(2-4) skip_white_def scan_qualifier_def scan_convert_def scan_int_def scan_num_def Let_def rd ucast_u32_back)
qed

lemma scan_blank:
  assumes "skip_spaces str = Some str" "skip_spaces fmt = Some fmt" "deref fmt = Some f" "f \<noteq> 0 \<longrightarrow> (\<exists>s. deref str = Some s \<and> s \<noteq> 0)"
  shows "scan_loop blen (0x20 # str) (0x20 # fmt) num st = scan_loop blen str fmt num st"
proof -
  have ns: "\<not> isspace f" using assms(2,3) by (cases fmt) (auto split: if_splits dest: skip_spaces_length)
  show ?thesis
  proof (cases "f = 0")
    case True
    then show ?thesis using assms ns by (subst (1 2) scan_loop.simps) (simp add: skip_white_def)
  next
    case False
    then obtain s where "deref str = Some s" "s \<noteq> 0" using assms(4) by blast
    then show ?thesis using assms(1-3) ns False by (subst (1 2) scan_loop.simps) (simp add: skip_white_def)
  qed
qed

lemma decimals_scanned:
  "scan_loop blen (decimals_text ws @ 0 # rest) (decimals_format (length ws)) num st =
     Some (num + length ws, st @ map (\<lambda>w. SNum 32 (ucast w)) ws)"
proof (induction ws arbitrary: num st)
  case Nil
  show ?case by (subst scan_loop.simps) simp
next
  case (Cons w ws)
  have stop: "skip_spaces (decimals_text ws @ 0 # rest) = Some (decimals_text ws @ 0 # rest)
      \<and> (ws \<noteq> [] \<longrightarrow> (\<exists>s. deref (decimals_text ws @ 0 # rest) = Some s \<and> s \<noteq> 0))"
  proof (cases ws)
    case (Cons v vs)
    obtain c s where "digit_text small_digits 10 (ucast v) = c # s" "\<not> isspace c" "c \<noteq> 0" by (rule decimal_start)
    then show ?thesis by (simp add: Cons)
  qed simp
  obtain f where f: "deref (decimals_format (length ws)) = Some f" "f \<noteq> 0 \<longrightarrow> ws \<noteq> []"
    "skip_spaces (decimals_format (length ws)) = Some (decimals_format (length ws))"
    by (cases ws) auto
  have "scan_loop blen (0x20 # decimals_text ws @ 0 # rest) (0x20 # decimals_format (length ws)) num st =
      scan_loop blen (decimals_text ws @ 0 # rest) (decimals_format (length ws)) num st" for num st
    by (rule scan_blank [OF _ f(3,1)]) (use stop f(2) in auto)
  then show ?case by (simp add: scan_decimal Cons.IH)
qed

text \<open>
  C22: Formatted output and formatted input agree: any number of unsigned 32-bit integers, printed with
  \<open>%u\<close> and a blank each into a buffer that is large enough, are all read back by \<open>vsscanf\<close> with the same format.
\<close>

theorem printf_scanf_roundtrip:
  fixes ws :: "u32 list"
  assumes "vsnprintf buf sz (decimals_format (length ws)) (map (\<lambda>w. VInt (ucast w)) ws) = Some (n, ns, buf')"
    and "n < sz" "sz \<le> length buf"
  shows "vsscanf buf' (decimals_format (length ws)) = Some (length ws, map (\<lambda>w. SNum 32 (ucast w)) ws)"
proof -
  have "vs_loop e (decimals_format (length ws)) (map (\<lambda>w. VInt (ucast w)) ws) ns out =
      (emit e (decimals_text ws) out \<bind> (\<lambda>out'. Some (ns @ shifted (snd out) [], out')))" for e ns out
    by (simp add: decimals_format_printed)
  from vsnprintf_emit [OF this, of sz buf] assms
  have "buf' = decimals_text ws @ 0 # drop (Suc n) buf" by auto
  then show ?thesis using decimals_scanned [of "length buf'" ws "drop (Suc n) buf" 0 "[]"] by (simp add: vsscanf_def)
qed

theorem printf_scanf_roundtrip_witness:
  "vsscanf [0x37, 0x20, 0x34, 0x32, 0x20, 0, 9] (decimals_format (length [7, 42 :: u32]))
     = Some (length [7, 42 :: u32], map (\<lambda>w. SNum 32 (ucast w)) [7, 42 :: u32])"
  by (rule printf_scanf_roundtrip [of "replicate 7 9" 6 _ 5 "[]"]) code_simp+

end
