(* ===== verification/Vma.thy ===== *)
theory Vma
  imports Kernel_Prelude
begin

text \<open>
  Address spaces, mm/vm.cc: the areas of an address space (\<open>struct vm_area_struct\<close>) as the list that
  \<open>mm->mmap\<close> heads, with the operations that map, unmap, grow and copy them. A pointer to an area is the
  number \<open>vaddr\<close> of the area; 0 is the null pointer. What the allocator returns is an argument: \<open>None\<close> when it
  fails, otherwise the object with whatever is in its memory. The calls of \<open>ar_pageTableCleanup\<close> are recorded.
\<close>

section \<open>State\<close>

definition KADDRSPACE_END :: u64 where "KADDRSPACE_END = 0xffffffffc0000000"
definition USERANONYMOUS_ADDR :: u64 where "USERANONYMOUS_ADDR = 0x7fff00000000"
definition PROT_READ :: u64 where "PROT_READ = 4"
definition PROT_WRITE :: u64 where "PROT_WRITE = 2"
definition PROT_EXEC :: u64 where "PROT_EXEC = 1"
definition MAP_FIXED :: u64 where "MAP_FIXED = 0x10"
definition MAP_ANONYMOUS :: u64 where "MAP_ANONYMOUS = 0x20"
definition MAP_DENYWRITE :: u64 where "MAP_DENYWRITE = 0x800"
definition MAP_STACK :: u64 where "MAP_STACK = 0x20000"
definition INODE_EXECUTING :: u32 where "INODE_EXECUTING = 0x4"
definition MAX_MMAP_LOG_SIZE :: nat where "MAX_MMAP_LOG_SIZE = 10"

record fault_log =
  log_vaddr :: u64
  fault_addr :: u64
  optional :: u64
  rw_flag :: bool

record vma =
  vaddr :: nat
  vm_mm :: nat
  vm_start :: u64
  vm_end :: u64
  name :: string
  vm_prot :: u64
  vm_flags :: u64
  vm_inode :: nat
  vm_private_data :: u64
  hugepages_enabled :: bool
  stat_page_faults :: u32
  stat_page_wrt_faults :: u32
  stat_page_count :: u32
  stat_log_index :: u32
  stat_log :: "fault_log list"

record mm =
  mmap :: "vma list"
  brk_addr :: u64
  brk_len :: u64
  anonymous_addr :: u64

text \<open>Of an inode only what its mappings concern; an element of \<open>vma_list\<close> is an area and its \<open>vm_mm\<close>.\<close>

record inode =
  icount :: int
  iflags :: u32
  nrpages :: nat
  vma_list :: "(nat \<times> nat) list"
  in_inode_list :: bool

record vms =
  mms :: "nat \<Rightarrow> mm"
  inodes :: "nat \<Rightarrow> inode"
  g_kernel_mm :: nat
  cur_mm :: nat
  HP_thread :: bool
  g_conf_userhugepages :: bool
  ksize :: u64
  cleaned :: "(nat \<times> u64 \<times> u64) list"

definition upd_mm :: "nat \<Rightarrow> (mm \<Rightarrow> mm) \<Rightarrow> vms \<Rightarrow> vms" where
  "upd_mm m f s = s\<lparr>mms := (mms s)(m := f (mms s m))\<rparr>"

definition upd_inode :: "nat \<Rightarrow> (inode \<Rightarrow> inode) \<Rightarrow> vms \<Rightarrow> vms" where
  "upd_inode i f s = s\<lparr>inodes := (inodes s)(i := f (inodes s i))\<rparr>"

abbreviation areas :: "nat \<Rightarrow> vms \<Rightarrow> vma list" where "areas m s \<equiv> mmap (mms s m)"

abbreviation set_areas :: "nat \<Rightarrow> vma list \<Rightarrow> vms \<Rightarrow> vms" where
  "set_areas m vs s \<equiv> upd_mm m (\<lambda>x. x\<lparr>mmap := vs\<rparr>) s"

text \<open>A store through a pointer to an area of an address space.\<close>

definition upd_vma :: "nat \<Rightarrow> nat \<Rightarrow> (vma \<Rightarrow> vma) \<Rightarrow> vms \<Rightarrow> vms" where
  "upd_vma m p f s = set_areas m (map (\<lambda>v. if vaddr v = p then f v else v) (areas m s)) s"

definition ar_pageTableCleanup :: "nat \<Rightarrow> u64 \<Rightarrow> u64 \<Rightarrow> vms \<Rightarrow> vms" where
  "ar_pageTableCleanup m addr len s = s\<lparr>cleaned := cleaned s @ [(m, addr, len)]\<rparr>"

section \<open>Inodes\<close>

definition fs_set_inode_used :: "nat \<Rightarrow> vms \<Rightarrow> vms" where
  "fs_set_inode_used i = upd_inode i (\<lambda>n. n\<lparr>icount := icount n + 1\<rparr>)"

definition fs_set_flags :: "nat \<Rightarrow> u32 \<Rightarrow> vms \<Rightarrow> vms" where
  "fs_set_flags i fl = upd_inode i (\<lambda>n. n\<lparr>iflags := iflags n OR fl\<rparr>)"

text \<open>\<open>fs_inode::close\<close> for an inode without asynchronous shared memory.\<close>

definition fs_vinode_close :: "nat \<Rightarrow> vms \<Rightarrow> vms" where
  "fs_vinode_close i = upd_inode i (\<lambda>n.
     let n = n\<lparr>icount := icount n - 1\<rparr> in
     if nrpages n = 0 \<and> icount n \<le> 0 then n\<lparr>in_inode_list := False\<rparr>
     else if icount n = 1 then n\<lparr>iflags := iflags n AND NOT INODE_EXECUTING\<rparr>
     else n)"

text \<open>\<open>list_add(.., head->next)\<close> puts the area behind the first one of the list.\<close>

definition add_inode_vma :: "nat \<times> nat \<Rightarrow> nat \<Rightarrow> vms \<Rightarrow> vms" where
  "add_inode_vma p i = upd_inode i (\<lambda>n. n\<lparr>vma_list := (case vma_list n of [] \<Rightarrow> [p] | q # qs \<Rightarrow> q # p # qs)\<rparr>)"

text \<open>\<open>list_del\<close> of an area that is not on a list follows pointers that were never set.\<close>

definition del_inode_vma :: "nat \<times> nat \<Rightarrow> nat \<Rightarrow> vms \<Rightarrow> vms option" where
  "del_inode_vma p i s =
     (if p \<in> set (vma_list (inodes s i)) then Some (upd_inode i (\<lambda>n. n\<lparr>vma_list := remove1 p (vma_list n)\<rparr>) s)
      else None)"

definition vma_page_remove :: "nat \<Rightarrow> vms \<Rightarrow> int option" where
  "vma_page_remove i s =
     (if i = 0 then Some 0
      else if iflags (inodes s i) AND INODE_EXECUTING \<noteq> 0 then Some 1
      else case vma_list (inodes s i) of [] \<Rightarrow> Some 0 | (p, m) # _ \<Rightarrow> if m = 0 then None else Some 1)"

section \<open>The list of areas\<close>

fun unlink_walk :: "nat \<Rightarrow> vma list \<Rightarrow> (vma \<times> vma list) option" where
  "unlink_walk p [] = None"
| "unlink_walk p (v # vs) = (if vaddr v = p then Some (v, vs)
     else case unlink_walk p vs of None \<Rightarrow> None | Some (w, ws) \<Rightarrow> Some (w, v # ws))"

definition vma_unlink :: "nat \<Rightarrow> nat \<Rightarrow> vms \<Rightarrow> (int \<times> vms) option" where
  "vma_unlink m p s = (case unlink_walk p (areas m s) of
       None \<Rightarrow> Some (- 1, s)
     | Some (v, vs) \<Rightarrow>
         let s = set_areas m vs s in
         if vm_inode v \<noteq> 0 then do {
           s \<leftarrow> del_inode_vma (p, vm_mm v) (vm_inode v) s;
           Some (1, fs_vinode_close (vm_inode v) s) }
         else Some (1, s))"

fun link_walk :: "vma \<Rightarrow> bool \<Rightarrow> vma list \<Rightarrow> int \<times> vma list" where
  "link_walk v head [] = (- 3, [])"
| "link_walk v head (t # ts) =
     (if vm_start v \<ge> vm_end t then
        (case ts of
           [] \<Rightarrow> (1, [t, v])
         | n # _ \<Rightarrow> if vm_end v \<le> vm_start n then (2, t # v # ts)
             else (let (ret, ts) = link_walk v False ts in (ret, t # ts)))
      else if vm_end v < vm_start t then (if head then (1, v # t # ts) else (- 1, t # ts))
      else (- 2, t # ts))"

definition vma_link :: "nat \<Rightarrow> vma \<Rightarrow> vms \<Rightarrow> int \<times> vms" where
  "vma_link m v s =
     (let (ret, vs) = (if areas m s = [] then (1, [v]) else link_walk v True (areas m s));
          s = set_areas m vs s
      in if ret \<ge> 0 \<and> vm_inode v \<noteq> 0 then
           let s = fs_set_inode_used (vm_inode v) s
           in (ret, if m \<noteq> g_kernel_mm s then add_inode_vma (vaddr v, vm_mm v) (vm_inode v) s else s)
         else (ret, s))"

definition vm_findVma :: "nat \<Rightarrow> u64 \<Rightarrow> u64 \<Rightarrow> vms \<Rightarrow> vma option" where
  "vm_findVma m addr len s =
     (if m = 0 then None else find (\<lambda>v. vm_start v \<le> addr \<and> addr + len \<le> vm_end v) (areas m s))"

definition vm_find_vma_ovrlap :: "nat \<Rightarrow> vma \<Rightarrow> vms \<Rightarrow> vma option" where
  "vm_find_vma_ovrlap m n s =
     (if m = 0 then None
      else find (\<lambda>v. vaddr n \<noteq> vaddr v \<and>
        (vm_start v < vm_start n \<and> vm_end v > vm_start n \<or> vm_start n < vm_start v \<and> vm_end n > vm_start v))
        (areas m s))"

section \<open>Mapping\<close>

text \<open>The copy of all areas into another address space; \<open>news\<close> are the objects the allocator returns.\<close>

fun dup_loop :: "nat \<Rightarrow> vma list \<Rightarrow> nat list \<Rightarrow> vms \<Rightarrow> vms option" where
  "dup_loop dest [] news s = Some s"
| "dup_loop dest (v # vs) [] s = None"
| "dup_loop dest (v # vs) (p # news) s =
     (if p = 0 then None
      else case vma_link dest (v\<lparr>vaddr := p, vm_mm := dest\<rparr>) s of
        (ret, s) \<Rightarrow> if ret < 0 then None else dup_loop dest vs news s)"

definition vm_dup_vmaps :: "nat \<Rightarrow> nat \<Rightarrow> nat list \<Rightarrow> vms \<Rightarrow> (u64 \<times> vms) option" where
  "vm_dup_vmaps src dest news s = map_option (Pair 1) (dup_loop dest (areas src s) news s)"

definition link_mapped :: "nat \<Rightarrow> vma \<Rightarrow> vms \<Rightarrow> u64 \<times> vms" where
  "link_mapped m v s = (case vma_link m v s of (ret, s) \<Rightarrow> if ret < 0 then (0, s) else (vm_start v, s))"

text \<open>A mapping of a file is cut off at the end of the file.\<close>

definition map_file :: "nat \<Rightarrow> nat \<Rightarrow> u64 \<Rightarrow> u64 \<Rightarrow> u64 \<Rightarrow> u64 \<Rightarrow> vma \<Rightarrow> vms \<Rightarrow> u64 \<times> vms" where
  "map_file m i st_size addr len flags v s =
     (let v = v\<lparr>vm_flags := vm_flags v OR MAP_FIXED, vm_inode := i\<rparr>;
          v = (if len > st_size then v\<lparr>vm_end := addr + st_size\<rparr> else v);
          s = (if flags AND MAP_DENYWRITE \<noteq> 0 then fs_set_flags i INODE_EXECUTING s else s)
      in link_mapped m v s)"

text \<open>An anonymous mapping without an address: the last anonymous area grows, or a new one is placed behind it.\<close>

definition place_anonymous :: "nat \<Rightarrow> u64 \<Rightarrow> string \<Rightarrow> vma \<Rightarrow> vms \<Rightarrow> u64 \<times> vms" where
  "place_anonymous m len nm v s =
     (let a = anonymous_addr (mms s m);
          v = v\<lparr>name := (if HP_thread s then ''hp_anonymous'' else ''anonymous''),
                vm_start := a, vm_end := a + len\<rparr>;
          s = upd_mm m (\<lambda>x. x\<lparr>anonymous_addr := a + len\<rparr>) s;
          v = (if nm = ''syscall'' \<and> g_conf_userhugepages s then v\<lparr>hugepages_enabled := True\<rparr> else v)
      in link_mapped m v s)"

definition map_anonymous :: "nat \<Rightarrow> u64 \<Rightarrow> string \<Rightarrow> vma \<Rightarrow> vms \<Rightarrow> u64 \<times> vms" where
  "map_anonymous m len nm v s =
     (if anonymous_addr (mms s m) = 0 then
        place_anonymous m len nm v (upd_mm m (\<lambda>x. x\<lparr>anonymous_addr := USERANONYMOUS_ADDR\<rparr>) s)
      else case vm_findVma m (anonymous_addr (mms s m) - 100) 10 s of
        None \<Rightarrow> place_anonymous m len nm v s
      | Some a \<Rightarrow>
          let grown = a\<lparr>vm_end := vm_end a + len\<rparr>;
              s1 = upd_vma m (vaddr a) (\<lambda>v. v\<lparr>vm_end := vm_end v + len\<rparr>) s
          in if vm_find_vma_ovrlap m grown s1 = None then (vm_end grown - len, s1)
             else place_anonymous m len nm v (upd_vma m (vaddr a) (\<lambda>v. v\<lparr>vm_end := vm_end v - len\<rparr>) s1))"

text \<open>The file is its inode and the size \<open>fs_stat\<close> reports.\<close>

definition vm_mmap :: "(nat \<times> u64) option \<Rightarrow> u64 \<Rightarrow> u64 \<Rightarrow> u64 \<Rightarrow> u64 \<Rightarrow> u64 \<Rightarrow> string \<Rightarrow> vma option \<Rightarrow> vms
    \<Rightarrow> (u64 \<times> vms) option" where
  "vm_mmap file addr len prot flags pgoff nm fresh s =
     (let m = cur_mm s in
      case vm_findVma m addr len s of
        Some v \<Rightarrow> Some (addr, upd_vma m (vaddr v) (\<lambda>v. v\<lparr>vm_flags := flags, vm_prot := prot\<rparr>) s)
      | None \<Rightarrow>
          if m \<noteq> g_kernel_mm s \<and> addr \<ge> KERNEL_CODE_START \<and> addr < KADDRSPACE_END then None
          else case fresh of
            None \<Rightarrow> Some (0, s)
          | Some v \<Rightarrow>
              let v = v\<lparr>vm_mm := m, name := nm, vm_flags := flags, vm_start := addr, vm_end := addr + len,
                        vm_prot := prot, vm_inode := 0, vm_private_data := pgoff\<rparr>
              in Some (case file of
                  Some (i, st_size) \<Rightarrow> if i \<noteq> 0 then map_file m i st_size addr len flags v s else link_mapped m v s
                | None \<Rightarrow>
                    if flags AND MAP_ANONYMOUS \<noteq> 0 \<and> addr = 0 \<and> (m \<noteq> g_kernel_mm s \<or> HP_thread s)
                    then map_anonymous m len nm v s else link_mapped m v s))"

definition SYS_vm_mmap :: "u64 \<Rightarrow> u64 \<Rightarrow> u64 \<Rightarrow> u64 \<Rightarrow> (nat \<times> u64) option \<Rightarrow> u64 \<Rightarrow> vma option \<Rightarrow> vms
    \<Rightarrow> (u64 \<times> vms) option" where
  "SYS_vm_mmap addr len prot flags file pgoff fresh s =
     (let prot = (if flags AND MAP_STACK \<noteq> 0 then (prot OR PROT_READ) AND NOT PROT_EXEC else prot)
      in vm_mmap file addr len prot flags pgoff (if HP_thread s then ''hp_syscall_mmap'' else ''syscall_mmap'') fresh s)"

definition vm_create_kmap :: "string \<Rightarrow> u64 \<Rightarrow> u64 \<Rightarrow> u64 \<Rightarrow> u64 \<Rightarrow> vma option \<Rightarrow> vms \<Rightarrow> (u64 \<times> vms) option" where
  "vm_create_kmap nm map_size prot flags pgoff fresh s = do {
     let vaddr = 0xffffffffc0000000 + ksize s;
     (ret, s) \<leftarrow> vm_mmap None vaddr map_size prot flags pgoff nm fresh s;
     Some (if ret = 0 then 0 else vaddr, s\<lparr>ksize := ksize s + 0x100000 + map_size\<rparr>) }"

section \<open>The heap\<close>

definition vm_setupBrk :: "u64 \<Rightarrow> u64 \<Rightarrow> vma option \<Rightarrow> vms \<Rightarrow> (u64 \<times> vms) option" where
  "vm_setupBrk addr len fresh s =
     (let len = PAGE_ALIGN len in
      if len = 0 then Some (addr, s)
      else let b = (addr + of_nat PAGE_SIZE) AND PAGE_MASK;
               s = upd_mm (cur_mm s) (\<lambda>x. x\<lparr>brk_addr := b, brk_len := len\<rparr>) s
           in vm_mmap None b len (PROT_READ OR PROT_WRITE) MAP_ANONYMOUS 0
                (if HP_thread s then ''hp_anon_brk'' else ''anon_brk'') fresh s)"

definition SYS_vm_brk :: "u64 \<Rightarrow> vms \<Rightarrow> (u64 \<times> vms) option" where
  "SYS_vm_brk addr s =
     (let m = cur_mm s; x = mms s m in
      if addr = 0 then Some (brk_addr x + brk_len x, s)
      else if brk_addr x > addr - brk_len x then Some (0, s)
      else case vm_findVma m (brk_addr x) (brk_len x - 1) s of
        None \<Rightarrow> None
      | Some v \<Rightarrow>
          if addr > 0x40000000 then Some (0, s)
          else if addr > vm_end v then
            let grown = v\<lparr>vm_end := addr\<rparr>;
                s1 = upd_vma m (vaddr v) (\<lambda>v. v\<lparr>vm_end := addr\<rparr>) s
            in if vm_find_vma_ovrlap m grown s1 \<noteq> None
               then Some (- 1, upd_vma m (vaddr v) (\<lambda>w. w\<lparr>vm_end := vm_end v\<rparr>) s1)
               else Some (addr, upd_mm m (\<lambda>x. x\<lparr>brk_len := addr - brk_addr x\<rparr>) s1)
          else Some (addr, s))"

section \<open>Unmapping\<close>

lemma upd_mm_simps [simp]:
  "mms (upd_mm m f s) = (mms s)(m := f (mms s m))" "inodes (upd_mm m f s) = inodes s"
  "g_kernel_mm (upd_mm m f s) = g_kernel_mm s" "cur_mm (upd_mm m f s) = cur_mm s"
  "HP_thread (upd_mm m f s) = HP_thread s" "ksize (upd_mm m f s) = ksize s" "cleaned (upd_mm m f s) = cleaned s"
  by (simp_all add: upd_mm_def)

lemma upd_inode_simps [simp]:
  "mms (upd_inode i f s) = mms s" "inodes (upd_inode i f s) = (inodes s)(i := f (inodes s i))"
  "g_kernel_mm (upd_inode i f s) = g_kernel_mm s" "cur_mm (upd_inode i f s) = cur_mm s"
  "HP_thread (upd_inode i f s) = HP_thread s" "ksize (upd_inode i f s) = ksize s" "cleaned (upd_inode i f s) = cleaned s"
  by (simp_all add: upd_inode_def)

lemma unlink_walk_Some: "unlink_walk p vs = Some (v, ws) \<Longrightarrow> vaddr v = p \<and> v \<in> set vs \<and> ws = remove1 v vs"
  by (induction vs arbitrary: ws) (auto split: if_splits option.splits)

lemma unlink_walk_None: "unlink_walk p vs = None \<longleftrightarrow> p \<notin> vaddr ` set vs"
  by (induction vs) (auto split: option.splits)

lemma vma_unlink_shrinks:
  "\<lbrakk>vma_unlink m p s = Some (r, s'); p \<in> vaddr ` set (areas m s)\<rbrakk> \<Longrightarrow> length (areas m s') < length (areas m s)"
  unfolding vma_unlink_def
  by (cases "unlink_walk p (areas m s)")
    (auto simp: unlink_walk_None del_inode_vma_def fs_vinode_close_def Let_def length_remove1 bind_eq_Some_conv
      dest!: unlink_walk_Some split: if_splits intro!: diff_less length_pos_if_in_set)

definition contained :: "u64 \<Rightarrow> u64 \<Rightarrow> vma \<Rightarrow> bool" where
  "contained addr len v \<longleftrightarrow> addr \<le> vm_start v \<and> addr + len \<ge> vm_end v"

function munmap_loop :: "nat \<Rightarrow> u64 \<Rightarrow> u64 \<Rightarrow> int \<Rightarrow> vms \<Rightarrow> (int \<times> vms) option" where
  "munmap_loop m addr len ret s =
     (if areas m s = [] then Some (0, s)
      else case find (contained addr len) (areas m s) of
        None \<Rightarrow> Some (ret, ar_pageTableCleanup m addr len s)
      | Some v \<Rightarrow> (case vma_unlink m (vaddr v) s of
            None \<Rightarrow> None
          | Some (ret, s) \<Rightarrow>
              munmap_loop m addr len (ret + 1) (ar_pageTableCleanup m (vm_start v) (vm_end v - vm_start v) s)))"
  by pat_completeness auto
termination
  by (relation "measure (\<lambda>(m, addr, len, ret, s). length (areas m s))")
    (auto simp: ar_pageTableCleanup_def find_Some_iff intro!: vma_unlink_shrinks)

declare munmap_loop.simps [simp del]

definition vm_munmap :: "nat \<Rightarrow> u64 \<Rightarrow> u64 \<Rightarrow> vms \<Rightarrow> (int \<times> vms) option" where
  "vm_munmap m addr len s =
     (if len \<noteq> NOT 0 \<and> PAGE_ALIGN len = 0 then Some (- 1, s) else munmap_loop m addr len 0 s)"

definition SYS_vm_munmap :: "u64 \<Rightarrow> u64 \<Rightarrow> vms \<Rightarrow> (int \<times> vms) option" where
  "SYS_vm_munmap addr len s = vm_munmap (cur_mm s) addr len s"

text \<open>The fault log of an area: a ring of ten entries whose index is a signed counter.\<close>

definition log_index :: "u32 \<Rightarrow> int" where
  "log_index i = (if sint i \<ge> 0 then sint i mod int MAX_MMAP_LOG_SIZE else - ((- sint i) mod int MAX_MMAP_LOG_SIZE))"

definition vm_vma_stat :: "vma \<Rightarrow> u64 \<Rightarrow> u64 \<Rightarrow> bool \<Rightarrow> u64 \<Rightarrow> vma option" where
  "vm_vma_stat v addr ip wr opt =
     (let i = log_index (stat_log_index v) in
      if i < 0 \<or> length (stat_log v) \<le> nat i then None
      else Some (v\<lparr>stat_log := (stat_log v)[nat i := \<lparr>log_vaddr = addr, fault_addr = ip, optional = opt, rw_flag = wr\<rparr>],
        stat_page_wrt_faults := stat_page_wrt_faults v + (if wr then 1 else 0),
        stat_page_count := stat_page_count v + 1, stat_page_faults := stat_page_faults v + 1,
        stat_log_index := stat_log_index v + 1\<rparr>))"

end
