(* ===== verification/Vma_Runs.thy ===== *)
theory Vma_Runs
  imports Vma
begin

text \<open>
  The areas of an address space never overlap: the invariant of the lists of mm/vm.cc, its preservation by
  every operation, and what mapping, unmapping, the heap break and the copy for a new process do to them.
\<close>

section \<open>Lists of areas\<close>

definition vmas_ok :: "vma list \<Rightarrow> bool" where
  "vmas_ok vs \<longleftrightarrow> (\<forall>v \<in> set vs. vm_start v \<le> vm_end v) \<and> sorted_wrt (\<lambda>a b. vm_end a \<le> vm_start b) vs
     \<and> distinct (map vaddr vs)"

text \<open>Two areas have no address in common.\<close>

definition apart :: "vma \<Rightarrow> vma \<Rightarrow> bool" where
  "apart v w \<longleftrightarrow> vm_end v \<le> vm_start w \<or> vm_end w \<le> vm_start v"

lemma vmas_ok_Nil [simp]: "vmas_ok []"
  by (simp add: vmas_ok_def)

lemma vmas_ok_append:
  "vmas_ok (xs @ ys) \<longleftrightarrow> vmas_ok xs \<and> vmas_ok ys \<and> (\<forall>x \<in> set xs. \<forall>y \<in> set ys. vm_end x \<le> vm_start y \<and> vaddr x \<noteq> vaddr y)"
  by (auto simp: vmas_ok_def sorted_wrt_append)

lemma vmas_ok_Cons:
  "vmas_ok (v # vs) \<longleftrightarrow> vm_start v \<le> vm_end v \<and> vmas_ok vs \<and> (\<forall>w \<in> set vs. vm_end v \<le> vm_start w \<and> vaddr v \<noteq> vaddr w)"
  by (auto simp: vmas_ok_def)

lemma vmas_ok_remove1: "vmas_ok vs \<Longrightarrow> vmas_ok (remove1 v vs)"
  by (induction vs) (auto simp: vmas_ok_Cons dest: notin_set_remove1)

lemma vmas_ok_split:
  assumes "vmas_ok vs" "v \<in> set vs"
  obtains xs ys where "vs = xs @ v # ys" "\<forall>x \<in> set xs. vaddr x \<noteq> vaddr v" "\<forall>y \<in> set ys. vaddr y \<noteq> vaddr v"
proof -
  obtain xs ys where "vs = xs @ v # ys" using split_list [OF assms(2)] by blast
  then show thesis using that assms(1) by (fastforce simp: vmas_ok_append vmas_ok_Cons)
qed

lemma link_walk_Cons:
  "link_walk v h (t # ts) =
     (if vm_start v \<ge> vm_end t then
        if ts = [] then (1, [t, v])
        else if vm_end v \<le> vm_start (hd ts) then (2, t # v # ts)
        else (fst (link_walk v False ts), t # snd (link_walk v False ts))
      else if vm_end v < vm_start t then (if h then (1, v # t # ts) else (- 1, t # ts))
      else (- 2, t # ts))"
  by (cases ts) (simp_all add: split_beta)

declare link_walk.simps(2) [simp del]

lemma link_walk_fails: "fst (link_walk v h vs) < 0 \<Longrightarrow> snd (link_walk v h vs) = vs"
  by (induction vs arbitrary: h) (auto simp: link_walk_Cons split: if_splits)

lemma link_walk_links:
  assumes "vmas_ok vs" "vm_start v \<le> vm_end v" "fst (link_walk v h vs) \<ge> 0"
  obtains xs ys where "vs = xs @ ys" "snd (link_walk v h vs) = xs @ v # ys"
    "\<forall>x \<in> set xs. vm_end x \<le> vm_start v" "\<forall>y \<in> set ys. vm_end v \<le> vm_start y"
proof -
  have "\<exists>xs ys. vs = xs @ ys \<and> snd (link_walk v h vs) = xs @ v # ys
    \<and> (\<forall>x \<in> set xs. vm_end x \<le> vm_start v) \<and> (\<forall>y \<in> set ys. vm_end v \<le> vm_start y)"
    using assms
  proof (induction vs arbitrary: h)
    case (Cons t ts)
    have tok: "vm_start t \<le> vm_end t" "vmas_ok ts" "\<forall>w \<in> set ts. vm_end t \<le> vm_start w"
      using Cons.prems(1) by (auto simp: vmas_ok_Cons)
    have first: "\<forall>w \<in> set ts. vm_start (hd ts) \<le> vm_start w"
      using tok(2) by (cases ts) (auto simp: vmas_ok_Cons intro: order_trans)
    consider "vm_start v \<ge> vm_end t" "ts = [] \<or> vm_end v \<le> vm_start (hd ts)"
      | "vm_start v \<ge> vm_end t" "ts \<noteq> []" "\<not> vm_end v \<le> vm_start (hd ts)"
      | "\<not> vm_start v \<ge> vm_end t" "vm_end v < vm_start t" h
      using Cons.prems(3) by (auto simp: link_walk_Cons split: if_splits)
    then show ?case
    proof cases
      case 1
      then show ?thesis using first by (intro exI [of _ "[t]"] exI [of _ ts]) (auto simp: link_walk_Cons)
    next
      case 2
      then obtain xs ys where "ts = xs @ ys" "snd (link_walk v False ts) = xs @ v # ys"
        "\<forall>x \<in> set xs. vm_end x \<le> vm_start v" "\<forall>y \<in> set ys. vm_end v \<le> vm_start y"
        using Cons.IH [OF tok(2) Cons.prems(2), of False] Cons.prems(3) by (auto simp: link_walk_Cons)
      then show ?thesis using 2 by (intro exI [of _ "t # xs"] exI [of _ ys]) (auto simp: link_walk_Cons)
    next
      case 3
      then show ?thesis using tok by (intro exI [of _ "[]"] exI [of _ "t # ts"]) (force simp: link_walk_Cons)
    qed
  qed simp
  then show thesis using that by blast
qed

lemma vmas_ok_first: "vmas_ok vs \<Longrightarrow> w \<in> set vs \<Longrightarrow> vm_start (hd vs) \<le> vm_start w"
  by (cases vs) (auto simp: vmas_ok_Cons intro: order_trans)

lemma link_walk_tail:
  assumes "vmas_ok vs" "vm_start v \<le> vm_end v" "vs \<noteq> []" "\<not> vm_end v \<le> vm_start (hd vs)"
  shows "fst (link_walk v False vs) \<ge> 0 \<longleftrightarrow> (\<forall>a \<in> set vs. apart a v)"
  using assms
proof (induction vs)
  case (Cons t ts)
  have tok: "vmas_ok ts" "\<forall>w \<in> set ts. vm_end t \<le> vm_start w"
    using Cons.prems(1) by (auto simp: vmas_ok_Cons)
  consider "\<not> vm_start v \<ge> vm_end t" | "vm_start v \<ge> vm_end t" "ts = []"
    | "vm_start v \<ge> vm_end t" "ts \<noteq> []" "vm_end v \<le> vm_start (hd ts)"
    | "vm_start v \<ge> vm_end t" "ts \<noteq> []" "\<not> vm_end v \<le> vm_start (hd ts)" by blast
  then show ?case
  proof cases
    case 3
    then have "\<forall>w \<in> set ts. vm_end v \<le> vm_start w" using vmas_ok_first [OF tok(1)] by (auto intro: order_trans)
    then show ?thesis using 3 by (auto simp: link_walk_Cons apart_def)
  next
    case 4
    then show ?thesis using Cons.IH [OF tok(1) assms(2)] by (auto simp: link_walk_Cons apart_def)
  qed (use Cons.prems in \<open>auto simp: link_walk_Cons apart_def\<close>)
qed simp

lemma link_walk_iff:
  assumes "vmas_ok vs" "vm_start v \<le> vm_end v" "vs \<noteq> []"
  shows "fst (link_walk v True vs) \<ge> 0 \<longleftrightarrow>
    (\<forall>a \<in> set vs. apart a v) \<and> (vm_end (hd vs) \<le> vm_start v \<or> vm_end v < vm_start (hd vs))"
proof -
  obtain t ts where vs: "vs = t # ts" using assms(3) by (cases vs) auto
  have tok: "vm_start t \<le> vm_end t" "vmas_ok ts" "\<forall>w \<in> set ts. vm_end t \<le> vm_start w"
    using assms(1) by (auto simp: vmas_ok_Cons vs)
  consider "\<not> vm_start v \<ge> vm_end t" | "vm_start v \<ge> vm_end t" "ts = []"
    | "vm_start v \<ge> vm_end t" "ts \<noteq> []" "vm_end v \<le> vm_start (hd ts)"
    | "vm_start v \<ge> vm_end t" "ts \<noteq> []" "\<not> vm_end v \<le> vm_start (hd ts)" by blast
  then show ?thesis
  proof cases
    case 1
    have "vm_end v < vm_start t \<Longrightarrow> \<forall>w \<in> set ts. vm_end v \<le> vm_start w" using tok by force
    then show ?thesis using 1 by (auto simp: vs apart_def link_walk_Cons)
  next
    case 3
    then have "\<forall>w \<in> set ts. vm_end v \<le> vm_start w" using vmas_ok_first [OF tok(2)] by (auto intro: order_trans)
    then show ?thesis using 3 by (auto simp: vs link_walk_Cons apart_def)
  next
    case 4
    then show ?thesis using link_walk_tail [OF tok(2) assms(2)] by (auto simp: vs link_walk_Cons apart_def)
  qed (simp_all add: vs link_walk_Cons apart_def)
qed

section \<open>The invariant\<close>

text \<open>
  In every address space the areas are ordered and disjoint, and every mapping of a file is on the list of its inode.
  Files are not mapped into the kernel's address space.
\<close>

definition area_ok :: "nat \<Rightarrow> vma \<Rightarrow> vms \<Rightarrow> bool" where
  "area_ok m v s \<longleftrightarrow> vm_mm v = m \<and> vaddr v \<noteq> 0
     \<and> (vm_inode v \<noteq> 0 \<longrightarrow> m \<noteq> g_kernel_mm s \<and> (vaddr v, m) \<in> set (vma_list (inodes s (vm_inode v))))"

definition vms_inv :: "vms \<Rightarrow> bool" where
  "vms_inv s \<longleftrightarrow> (\<forall>m. vmas_ok (areas m s) \<and> (\<forall>v \<in> set (areas m s). area_ok m v s))"

lemma vms_invD: "vms_inv s \<Longrightarrow> vmas_ok (areas m s)" "vms_inv s \<Longrightarrow> v \<in> set (areas m s) \<Longrightarrow> area_ok m v s"
  by (simp_all add: vms_inv_def)

lemma set_areas_same [simp]: "set_areas m (areas m s) s = s"
  by (simp add: upd_mm_def)

lemma upd_vma_simps [simp]:
  "areas n (upd_vma m p f s) = (if n = m then map (\<lambda>v. if vaddr v = p then f v else v) (areas m s) else areas n s)"
  "inodes (upd_vma m p f s) = inodes s" "g_kernel_mm (upd_vma m p f s) = g_kernel_mm s" "cur_mm (upd_vma m p f s) = cur_mm s"
  "brk_addr (mms (upd_vma m p f s) n) = brk_addr (mms s n)" "brk_len (mms (upd_vma m p f s) n) = brk_len (mms s n)"
  "anonymous_addr (mms (upd_vma m p f s) n) = anonymous_addr (mms s n)" "HP_thread (upd_vma m p f s) = HP_thread s"
  "ksize (upd_vma m p f s) = ksize s"
  by (simp_all add: upd_vma_def)

text \<open>The invariant reads the areas, the lists of the inodes and the kernel's address space.\<close>

lemma vms_inv_cong:
  assumes "\<And>m. areas m s' = areas m s" "\<And>i. vma_list (inodes s' i) = vma_list (inodes s i)" "g_kernel_mm s' = g_kernel_mm s"
  shows "vms_inv s' = vms_inv s"
  using assms by (simp add: vms_inv_def area_ok_def)

lemma area_ok_mono:
  "\<lbrakk>area_ok m v s; g_kernel_mm s' = g_kernel_mm s; \<And>i. set (vma_list (inodes s i)) \<subseteq> set (vma_list (inodes s' i))\<rbrakk>
   \<Longrightarrow> area_ok m v s'"
  by (auto simp: area_ok_def)

lemma vma_list_add: "set (vma_list (inodes (add_inode_vma p i s) j)) = set (vma_list (inodes s j)) \<union> (if j = i then {p} else {})"
  by (auto simp: add_inode_vma_def split: list.splits)

section \<open>Linking an area\<close>

lemma vma_link_fails: "vmas_ok (areas m s) \<Longrightarrow> fst (vma_link m v s) < 0 \<Longrightarrow> snd (vma_link m v s) = s"
  using link_walk_fails [of v True "areas m s"]
  by (auto simp: vma_link_def Let_def split_beta split: if_splits)

lemma vma_link_links:
  assumes ok: "vmas_ok (areas m s)" and v: "vm_start v \<le> vm_end v" and ret: "\<not> fst (vma_link m v s) < 0"
  obtains xs ys where "areas m s = xs @ ys" "areas m (snd (vma_link m v s)) = xs @ v # ys"
    "\<forall>x \<in> set xs. vm_end x \<le> vm_start v" "\<forall>y \<in> set ys. vm_end v \<le> vm_start y"
proof (cases "areas m s = []")
  case True
  then show thesis using that [of "[]" "[]"]
    by (auto simp: vma_link_def Let_def add_inode_vma_def fs_set_inode_used_def)
next
  case False
  then have "fst (link_walk v True (areas m s)) \<ge> 0" using ret by (auto simp: vma_link_def Let_def split_beta split: if_splits)
  from link_walk_links [OF ok v this] obtain xs ys where "areas m s = xs @ ys"
    "snd (link_walk v True (areas m s)) = xs @ v # ys"
    "\<forall>x \<in> set xs. vm_end x \<le> vm_start v" "\<forall>y \<in> set ys. vm_end v \<le> vm_start y" .
  then show thesis using that [of xs ys] False
    by (auto simp: vma_link_def Let_def split_beta add_inode_vma_def fs_set_inode_used_def)
qed

lemma vma_link_frame:
  "n \<noteq> m \<Longrightarrow> mms (snd (vma_link m v s)) n = mms s n"
  "g_kernel_mm (snd (vma_link m v s)) = g_kernel_mm s" "cur_mm (snd (vma_link m v s)) = cur_mm s"
  "HP_thread (snd (vma_link m v s)) = HP_thread s"
  "set (vma_list (inodes s i)) \<subseteq> set (vma_list (inodes (snd (vma_link m v s)) i))"
  "vm_inode v = 0 \<Longrightarrow> inodes (snd (vma_link m v s)) = inodes s"
  by (auto simp: vma_link_def Let_def split_beta fs_set_inode_used_def vma_list_add)
    (auto simp: add_inode_vma_def split: list.splits)

lemma vma_link_inode:
  "\<lbrakk>\<not> fst (vma_link m v s) < 0; vm_inode v \<noteq> 0; m \<noteq> g_kernel_mm s\<rbrakk> \<Longrightarrow>
   (vaddr v, vm_mm v) \<in> set (vma_list (inodes (snd (vma_link m v s)) (vm_inode v)))"
  by (auto simp: vma_link_def Let_def split_beta vma_list_add fs_set_inode_used_def split: if_splits)

definition linkable :: "nat \<Rightarrow> vma \<Rightarrow> vms \<Rightarrow> bool" where
  "linkable m v s \<longleftrightarrow> vm_start v \<le> vm_end v \<and> vm_mm v = m \<and> vaddr v \<noteq> 0 \<and> (\<forall>w \<in> set (areas m s). vaddr w \<noteq> vaddr v)
     \<and> (vm_inode v \<noteq> 0 \<longrightarrow> m \<noteq> g_kernel_mm s)"

lemma vma_link_keeps_inv:
  assumes inv: "vms_inv s" and v: "linkable m v s"
  shows "vms_inv (snd (vma_link m v s))"
proof (cases "fst (vma_link m v s) < 0")
  case True
  then show ?thesis using vma_link_fails [OF vms_invD(1) [OF inv]] inv by simp
next
  case False
  let ?s = "snd (vma_link m v s)"
  have "vm_start v \<le> vm_end v" using v by (simp add: linkable_def)
  from vma_link_links [OF vms_invD(1) [OF inv] this False] obtain xs ys where sp: "areas m s = xs @ ys"
    "areas m ?s = xs @ v # ys" "\<forall>x \<in> set xs. vm_end x \<le> vm_start v" "\<forall>y \<in> set ys. vm_end v \<le> vm_start y" .
  have old: "area_ok n w ?s" if "w \<in> set (areas n s)" for n w
    using vms_invD(2) [OF inv that] by (rule area_ok_mono) (use vma_link_frame in auto)
  have "area_ok m v ?s"
    using v vma_link_inode [OF False] by (auto simp: area_ok_def linkable_def vma_link_frame(2))
  moreover have "vmas_ok (areas m ?s)"
  proof -
    have "\<forall>w \<in> set xs \<union> set ys. vaddr w \<noteq> vaddr v" "vm_start v \<le> vm_end v" using v sp(1) by (auto simp: linkable_def)
    then show ?thesis using vms_invD(1) [OF inv, of m] sp by (auto simp: vmas_ok_append vmas_ok_Cons)
  qed
  ultimately have "vmas_ok (areas n ?s) \<and> (\<forall>w \<in> set (areas n ?s). area_ok n w ?s)" for n
    using old sp vms_invD(1) [OF inv, of n] vma_link_frame(1) [of n m v s] by (cases "n = m") auto
  then show ?thesis by (simp add: vms_inv_def)
qed

lemma link_mapped_snd: "snd (link_mapped m v s) = snd (vma_link m v s)"
  by (simp add: link_mapped_def split_beta)

section \<open>Changing an area\<close>

text \<open>A change that keeps the place of an area.\<close>

lemma upd_vma_keeps_inv:
  assumes inv: "vms_inv s" and f: "\<And>v. vaddr (f v) = vaddr v" "\<And>v. vm_start (f v) = vm_start v" "\<And>v. vm_end (f v) = vm_end v"
    "\<And>v. vm_mm (f v) = vm_mm v" "\<And>v. vm_inode (f v) = vm_inode v"
  shows "vms_inv (upd_vma m p f s)"
proof -
  define g where "g v = (if vaddr v = p then f v else v)" for v
  have g: "vaddr (g v) = vaddr v" "vm_start (g v) = vm_start v" "vm_end (g v) = vm_end v" "vm_mm (g v) = vm_mm v"
    "vm_inode (g v) = vm_inode v" for v by (simp_all add: f g_def)
  have new: "areas n (upd_vma m p f s) = (if n = m then map g (areas m s) else areas n s)" for n
    by (auto simp: g_def)
  have "vmas_ok (map g vs) = vmas_ok vs" for vs
    by (induction vs) (simp_all add: vmas_ok_Cons g)
  moreover have "area_ok n (g v) (upd_vma m p f s) = area_ok n v s" "area_ok n v (upd_vma m p f s) = area_ok n v s" for n v
    by (simp_all only: area_ok_def g upd_vma_simps)
  ultimately show ?thesis using inv by (simp add: vms_inv_def new del: upd_vma_simps)
qed

text \<open>An area grows when the search for an overlapping area finds none.\<close>

lemma grow_keeps_inv:
  assumes inv: "vms_inv s" and v: "v \<in> set (areas m s)" "vm_start v < vm_end v" and e: "vm_end v \<le> e" and m: "m \<noteq> 0"
    and free: "vm_find_vma_ovrlap m (v\<lparr>vm_end := e\<rparr>) (upd_vma m (vaddr v) (\<lambda>v. v\<lparr>vm_end := f v\<rparr>) s) = None"
    and f: "f v = e"
  shows "vms_inv (upd_vma m (vaddr v) (\<lambda>v. v\<lparr>vm_end := f v\<rparr>) s)"
proof -
  obtain xs ys where sp: "areas m s = xs @ v # ys" and nxs: "\<forall>x \<in> set xs. vaddr x \<noteq> vaddr v"
    and nys: "\<forall>y \<in> set ys. vaddr y \<noteq> vaddr v"
    using vmas_ok_split [OF vms_invD(1) [OF inv] v(1)] by metis
  let ?s = "upd_vma m (vaddr v) (\<lambda>v. v\<lparr>vm_end := f v\<rparr>) s"
  let ?g = "\<lambda>w. if vaddr w = vaddr v then w\<lparr>vm_end := f w\<rparr> else w"
  have "map ?g xs = xs" using nxs by (intro map_idI) auto
  moreover have "map ?g ys = ys" using nys by (intro map_idI) auto
  ultimately have new: "map ?g (areas m s) = xs @ v\<lparr>vm_end := e\<rparr> # ys" by (simp add: sp f)
  have "e \<le> vm_start y" if "y \<in> set ys" for y
  proof -
    have "vaddr y \<noteq> vaddr v" using nys that by auto
    moreover have "vm_end v \<le> vm_start y" using vms_invD(1) [OF inv, of m] that by (auto simp: sp vmas_ok_append vmas_ok_Cons)
    moreover have "y \<in> set (areas m (upd_vma m (vaddr v) (\<lambda>v. v\<lparr>vm_end := f v\<rparr>) s))" using that by (simp add: new)
    ultimately show ?thesis using free m v(2) by (auto simp: vm_find_vma_ovrlap_def find_None_iff simp del: upd_vma_simps)
  qed
  moreover have ok: "vmas_ok (xs @ v # ys)" using vms_invD(1) [OF inv, of m] sp by simp
  ultimately have "vmas_ok (xs @ v\<lparr>vm_end := e\<rparr> # ys)"
    using e v(2) by (auto simp: vmas_ok_append vmas_ok_Cons)
  moreover have "area_ok n w ?s = area_ok n w s" for n w by (simp add: area_ok_def)
  moreover have "area_ok m (v\<lparr>vm_end := e\<rparr>) s" using vms_invD(2) [OF inv v(1)] by (simp add: area_ok_def)
  moreover have "areas n ?s = (if n = m then xs @ v\<lparr>vm_end := e\<rparr> # ys else areas n s)" for n by (simp add: new)
  ultimately show ?thesis
    using inv sp unfolding vms_inv_def by (auto simp del: upd_vma_simps)
qed

text \<open>Two changes of an area in which the second one undoes the first.\<close>

lemma upd_vma_back:
  "(\<And>v. v \<in> set (areas m s) \<Longrightarrow> vaddr v = p \<Longrightarrow> vaddr (f v) = p \<and> g (f v) = v) \<Longrightarrow> upd_vma m p g (upd_vma m p f s) = s"
  by (simp add: upd_vma_def upd_mm_def comp_def map_idI)

section \<open>Mapping\<close>

text \<open>
  What the callers of \<open>vm_mmap\<close> see to: the range does not wrap around, a user process does not name kernel
  addresses, the allocator returns an object that is not in use.
\<close>

definition anon_room :: "nat \<Rightarrow> u64 \<Rightarrow> vms \<Rightarrow> bool" where
  "anon_room m len s \<longleftrightarrow> USERANONYMOUS_ADDR \<le> USERANONYMOUS_ADDR + len
     \<and> anonymous_addr (mms s m) \<le> anonymous_addr (mms s m) + len
     \<and> (anonymous_addr (mms s m) = 0 \<or> 100 \<le> anonymous_addr (mms s m))
     \<and> (\<forall>v \<in> set (areas m s). vm_end v \<le> vm_end v + len)"

definition mmap_legal :: "(nat \<times> u64) option \<Rightarrow> u64 \<Rightarrow> u64 \<Rightarrow> u64 \<Rightarrow> vma option \<Rightarrow> vms \<Rightarrow> bool" where
  "mmap_legal file addr len flags fresh s \<longleftrightarrow>
     (let m = cur_mm s in
      m \<noteq> 0 \<and> addr \<le> addr + len
      \<and> (m = g_kernel_mm s \<or> addr < KERNEL_CODE_START \<or> addr \<ge> KADDRSPACE_END)
      \<and> (case fresh of None \<Rightarrow> True | Some v \<Rightarrow> vaddr v \<noteq> 0 \<and> (\<forall>w \<in> set (areas m s). vaddr w \<noteq> vaddr v))
      \<and> (case file of None \<Rightarrow> True | Some (i, sz) \<Rightarrow> i = 0 \<or> m \<noteq> g_kernel_mm s)
      \<and> (file = None \<and> flags AND MAP_ANONYMOUS \<noteq> 0 \<and> addr = 0 \<longrightarrow> anon_room m len s))"

lemma vms_inv_upd_mm [simp]:
  "vms_inv (upd_mm m (\<lambda>x. x\<lparr>anonymous_addr := a\<rparr>) s) = vms_inv s"
  "vms_inv (upd_mm m (\<lambda>x. x\<lparr>brk_len := f x\<rparr>) s) = vms_inv s"
  "vms_inv (upd_mm m (\<lambda>x. x\<lparr>brk_addr := a, brk_len := b\<rparr>) s) = vms_inv s"
  by (rule vms_inv_cong; simp)+

lemma place_anonymous_keeps_inv:
  assumes "vms_inv s" "linkable m v s" "vm_inode v = 0" "anonymous_addr (mms s m) \<le> anonymous_addr (mms s m) + len"
  shows "vms_inv (snd (place_anonymous m len nm v s))"
  unfolding place_anonymous_def Let_def link_mapped_snd
  by (rule vma_link_keeps_inv) (use assms in \<open>auto simp: linkable_def\<close>)

lemma find_SomeD: "find P xs = Some x \<Longrightarrow> x \<in> set xs \<and> P x"
  by (auto simp: find_Some_iff)

lemma map_anonymous_keeps_inv:
  assumes inv: "vms_inv s" and v: "linkable m v s" "vm_inode v = 0" and room: "anon_room m len s" and m: "m \<noteq> 0"
  shows "vms_inv (snd (map_anonymous m len nm v s))"
proof (cases "anonymous_addr (mms s m) = 0")
  case True
  have "vms_inv (snd (place_anonymous m len nm v (upd_mm m (\<lambda>x. x\<lparr>anonymous_addr := USERANONYMOUS_ADDR\<rparr>) s)))"
    by (rule place_anonymous_keeps_inv) (use inv v room in \<open>auto simp: linkable_def anon_room_def\<close>)
  then show ?thesis using True by (simp add: map_anonymous_def)
next
  case False
  let ?a = "anonymous_addr (mms s m)"
  have place: "vms_inv (snd (place_anonymous m len nm v s))"
    by (rule place_anonymous_keeps_inv) (use inv v room in \<open>auto simp: anon_room_def\<close>)
  show ?thesis
  proof (cases "vm_findVma m (?a - 100) 10 s")
    case None
    then show ?thesis using place False by (simp add: map_anonymous_def)
  next
    case (Some a)
    then have a: "a \<in> set (areas m s)" "vm_start a \<le> ?a - 100" "?a - 100 + 10 \<le> vm_end a"
      using m by (auto simp: vm_findVma_def dest: find_SomeD)
    have "?a - 100 < ?a - 100 + 10" using room False unfolding anon_room_def by unat_arith
    then have ne: "vm_start a < vm_end a" using a(2,3) by order
    have undo: "upd_vma m (vaddr a) (\<lambda>v. v\<lparr>vm_end := vm_end v - len\<rparr>) (upd_vma m (vaddr a) (\<lambda>v. v\<lparr>vm_end := vm_end v + len\<rparr>) s) = s"
      by (rule upd_vma_back) simp
    have "vm_end a \<le> vm_end a + len" using room a(1) by (simp add: anon_room_def)
    from grow_keeps_inv [OF inv a(1) ne this m, of "\<lambda>v. vm_end v + len"]
    show ?thesis using place False Some undo by (simp add: map_anonymous_def Let_def)
  qed
qed

lemma vm_mmap_keeps_inv:
  assumes inv: "vms_inv s" and ok: "mmap_legal file addr len flags fresh s"
  shows "\<exists>r s'. vm_mmap file addr len prot flags pgoff nm fresh s = Some (r, s') \<and> vms_inv s'"
proof (cases "vm_findVma (cur_mm s) addr len s")
  case (Some v)
  have "vms_inv (upd_vma (cur_mm s) (vaddr v) (\<lambda>v. v\<lparr>vm_flags := flags, vm_prot := prot\<rparr>) s)"
    by (rule upd_vma_keeps_inv [OF inv]) simp_all
  then show ?thesis using Some by (simp add: vm_mmap_def Let_def)
next
  case None
  let ?m = "cur_mm s"
  have nk: "\<not> (?m \<noteq> g_kernel_mm s \<and> addr \<ge> KERNEL_CODE_START \<and> addr < KADDRSPACE_END)"
    using ok by (auto simp: mmap_legal_def Let_def)
  show ?thesis
  proof (cases fresh)
    case None
    then show ?thesis using inv nk \<open>vm_findVma ?m addr len s = None\<close> by (auto simp: vm_mmap_def Let_def)
  next
    case (Some w)
    define v where "v = w\<lparr>vm_mm := ?m, name := nm, vm_flags := flags, vm_start := addr, vm_end := addr + len,
                        vm_prot := prot, vm_inode := 0, vm_private_data := pgoff\<rparr>"
    have v: "linkable ?m v s" "vm_inode v = 0"
      using ok Some by (auto simp: v_def linkable_def mmap_legal_def Let_def)
    have plain: "vms_inv (snd (link_mapped ?m v s))"
      unfolding link_mapped_snd by (rule vma_link_keeps_inv [OF inv v(1)])
    have fil: "vms_inv (snd (map_file ?m i sz addr len flags v s))" if "file = Some (i, sz)" "i \<noteq> 0" for i sz
    proof -
      have kern: "?m \<noteq> g_kernel_mm s" "addr \<le> addr + len" using ok that by (auto simp: mmap_legal_def Let_def)
      have cut: "addr \<le> addr + sz" if "sz < len" using kern(2) that by (meson less_imp_le word_plus_mono_right2)
      have inv2: "vms_inv (fs_set_flags i INODE_EXECUTING s)" using inv
        by (subst vms_inv_cong) (auto simp: fs_set_flags_def)
      show ?thesis unfolding map_file_def Let_def link_mapped_snd
        by (rule vma_link_keeps_inv)
          (use inv inv2 v kern cut in \<open>auto simp: linkable_def fs_set_flags_def v_def\<close>)
    qed
    have anon: "vms_inv (snd (map_anonymous ?m len nm v s))" if "file = None" "flags AND MAP_ANONYMOUS \<noteq> 0" "addr = 0"
      by (rule map_anonymous_keeps_inv [OF inv v]) (use ok that in \<open>auto simp: mmap_legal_def Let_def\<close>)
    define r where "r = (case file of
                  Some (i, st_size) \<Rightarrow> if i \<noteq> 0 then map_file ?m i st_size addr len flags v s else link_mapped ?m v s
                | None \<Rightarrow> if flags AND MAP_ANONYMOUS \<noteq> 0 \<and> addr = 0 \<and> (?m \<noteq> g_kernel_mm s \<or> HP_thread s)
                    then map_anonymous ?m len nm v s else link_mapped ?m v s)"
    have "vm_mmap file addr len prot flags pgoff nm fresh s = Some r"
      using nk Some \<open>vm_findVma ?m addr len s = None\<close> unfolding r_def v_def by (auto simp: vm_mmap_def Let_def)
    moreover have "vms_inv (snd r)"
      using plain fil anon unfolding r_def by (auto split: prod.splits option.splits)
    ultimately show ?thesis by (cases r) auto
  qed
qed

section \<open>Unmapping\<close>

lemma unlink_walk_area: "vmas_ok vs \<Longrightarrow> v \<in> set vs \<Longrightarrow> unlink_walk (vaddr v) vs = Some (v, remove1 v vs)"
  by (induction vs) (auto simp: vmas_ok_Cons)

lemma removed_vaddr: "vmas_ok vs \<Longrightarrow> v \<in> set vs \<Longrightarrow> w \<in> set (remove1 v vs) \<Longrightarrow> vaddr w \<noteq> vaddr v"
  by (induction vs) (auto simp: vmas_ok_Cons split: if_splits)

lemma vma_unlink_ok:
  assumes inv: "vms_inv s" and v: "v \<in> set (areas m s)"
  obtains s' where "vma_unlink m (vaddr v) s = Some (1, s')" "vms_inv s'" "areas m s' = remove1 v (areas m s)"
    "\<And>n. n \<noteq> m \<Longrightarrow> mms s' n = mms s n" "cleaned s' = cleaned s" "cur_mm s' = cur_mm s" "HP_thread s' = HP_thread s"
proof -
  have ok: "vmas_ok (areas m s)" and av: "area_ok m v s" using vms_invD [OF inv] v by auto
  define i where "i = vm_inode v"
  define s1 where "s1 = set_areas m (remove1 v (areas m s)) s"
  define s2 where "s2 = upd_inode i (\<lambda>n. n\<lparr>vma_list := remove1 (vaddr v, m) (vma_list n)\<rparr>) s1"
  define s' where "s' = (if i \<noteq> 0 then fs_vinode_close i s2 else s1)"
  have vl: "vma_list (inodes s' j) = (if j = i \<and> i \<noteq> 0 then remove1 (vaddr v, m) (vma_list (inodes s j)) else vma_list (inodes s j))" for j
    by (simp add: s'_def s2_def s1_def fs_vinode_close_def Let_def)
  have ms: "mms s' = mms s1" "cleaned s' = cleaned s" "g_kernel_mm s' = g_kernel_mm s" "cur_mm s' = cur_mm s" "HP_thread s' = HP_thread s"
    by (simp_all add: s'_def s2_def s1_def fs_vinode_close_def)
  have other: "area_ok n w s'" if w: "w \<in> set (areas n s)" and neq: "n = m \<longrightarrow> w \<in> set (remove1 v (areas m s))" for n w
  proof -
    have "n = m \<Longrightarrow> vaddr w \<noteq> vaddr v"
      using neq removed_vaddr [OF ok v] by blast
    then have "(vaddr w, n) \<noteq> (vaddr v, m)" by auto
    then show ?thesis using vms_invD(2) [OF inv w] in_set_remove1 [of "(vaddr w, n)"]
      by (auto simp: area_ok_def vl ms(3))
  qed
  have "vms_inv s'"
    unfolding vms_inv_def
  proof (intro allI conjI ballI)
    fix n
    show "vmas_ok (areas n s')" using vms_invD(1) [OF inv] by (simp add: ms(1) s1_def vmas_ok_remove1)
    fix w assume "w \<in> set (areas n s')"
    then have "w \<in> set (areas n s)" "n = m \<longrightarrow> w \<in> set (remove1 v (areas m s))"
      by (auto simp: ms(1) s1_def split: if_splits dest: set_remove1_subset [THEN subsetD])
    then show "area_ok n w s'" by (rule other)
  qed
  moreover have "vma_unlink m (vaddr v) s = Some (1, s')"
    using av by (simp add: vma_unlink_def unlink_walk_area [OF ok v] Let_def del_inode_vma_def area_ok_def
      s'_def s2_def s1_def i_def)
  ultimately show thesis using that [of s'] ms by (simp add: s1_def)
qed

lemma munmap_loop_ok:
  "vms_inv s \<Longrightarrow> \<exists>r s'. munmap_loop m addr len ret s = Some (r, s') \<and> vms_inv s'
     \<and> areas m s' = filter (\<lambda>v. \<not> contained addr len v) (areas m s) \<and> (\<forall>n. n \<noteq> m \<longrightarrow> mms s' n = mms s n)
     \<and> r = (if areas m s' = [] then 0 else if \<exists>v \<in> set (areas m s). contained addr len v then 2 else ret)
     \<and> set (cleaned s) \<subseteq> set (cleaned s')
     \<and> (\<forall>v \<in> set (areas m s). contained addr len v \<longrightarrow> (m, vm_start v, vm_end v - vm_start v) \<in> set (cleaned s'))"
proof (induction "length (areas m s)" arbitrary: s ret rule: less_induct)
  case less
  have clean: "vms_inv (ar_pageTableCleanup m a l s) = vms_inv s" "mms (ar_pageTableCleanup m a l s) = mms s"
    "cleaned (ar_pageTableCleanup m a l s) = cleaned s @ [(m, a, l)]" for a l s
    by (simp_all add: ar_pageTableCleanup_def vms_inv_cong [of "s\<lparr>cleaned := _\<rparr>"])
  consider "areas m s = []" | "areas m s \<noteq> []" "find (contained addr len) (areas m s) = None"
    | v where "areas m s \<noteq> []" "find (contained addr len) (areas m s) = Some v" by fastforce
  then show ?case
  proof cases
    case 1
    then show ?thesis using less.prems by (subst munmap_loop.simps) auto
  next
    case 2
    then have "\<forall>v \<in> set (areas m s). \<not> contained addr len v" by (simp add: find_None_iff)
    then show ?thesis using 2 less.prems by (subst munmap_loop.simps) (auto simp: clean)
  next
    case (3 v)
    then have v: "v \<in> set (areas m s)" "contained addr len v" by (auto dest: find_SomeD)
    from vma_unlink_ok [OF less.prems v(1)] obtain s1 where s1: "vma_unlink m (vaddr v) s = Some (1, s1)" "vms_inv s1"
      "areas m s1 = remove1 v (areas m s)" "\<And>n. n \<noteq> m \<Longrightarrow> mms s1 n = mms s n" "cleaned s1 = cleaned s" by metis
    define s2 where "s2 = ar_pageTableCleanup m (vm_start v) (vm_end v - vm_start v) s1"
    have "length (areas m s2) < length (areas m s)"
      using v(1) by (auto simp: s2_def clean s1(3) length_remove1 intro!: diff_less length_pos_if_in_set)
    from less.hyps [OF this, of 2] obtain r s' where rec: "munmap_loop m addr len 2 s2 = Some (r, s')" "vms_inv s'"
      "areas m s' = filter (\<lambda>v. \<not> contained addr len v) (areas m s2)" "\<forall>n. n \<noteq> m \<longrightarrow> mms s' n = mms s2 n"
      "r = (if areas m s' = [] then 0 else 2)" "set (cleaned s2) \<subseteq> set (cleaned s')"
      "\<forall>v \<in> set (areas m s2). contained addr len v \<longrightarrow> (m, vm_start v, vm_end v - vm_start v) \<in> set (cleaned s')"
      using s1(2) by (auto simp: s2_def clean)
    have "munmap_loop m addr len ret s = Some (r, s')"
      using 3 s1(1) rec(1) by (subst munmap_loop.simps) (simp add: s2_def)
    moreover have "filter (\<lambda>v. \<not> contained addr len v) (areas m s2) = filter (\<lambda>v. \<not> contained addr len v) (areas m s)"
      using v(2) by (simp add: s2_def clean s1(3) filter_remove1 remove1_idem)
    moreover have "(m, vm_start w, vm_end w - vm_start w) \<in> set (cleaned s')" if "w \<in> set (areas m s)" "contained addr len w" for w
      using that rec(6,7) by (cases "w = v") (auto simp: s2_def clean s1(3))
    ultimately show ?thesis using rec(2-6) s1(4,5) v by (auto simp: s2_def clean)
  qed
qed

section \<open>The heap\<close>

text \<open>\<open>brk_addr\<close> and \<open>brk_len\<close> describe an area of the address space.\<close>

definition heap_area :: "nat \<Rightarrow> vma \<Rightarrow> vms \<Rightarrow> bool" where
  "heap_area m v s \<longleftrightarrow> v \<in> set (areas m s) \<and> vm_start v = brk_addr (mms s m) \<and> vm_end v = brk_addr (mms s m) + brk_len (mms s m)
     \<and> 2 \<le> brk_len (mms s m) \<and> brk_addr (mms s m) \<le> brk_addr (mms s m) + brk_len (mms s m)"

lemma find_covering:
  "\<lbrakk>vmas_ok vs; v \<in> set vs; vm_start v \<le> a; b \<le> vm_end v; a < b\<rbrakk> \<Longrightarrow> find (\<lambda>v. vm_start v \<le> a \<and> b \<le> vm_end v) vs = Some v"
proof (induction vs)
  case (Cons w ws)
  show ?case
  proof (cases "w = v")
    case False
    then have "vm_end w \<le> vm_start v" using Cons.prems(1,2) by (auto simp: vmas_ok_Cons)
    then have "\<not> b \<le> vm_end w" using Cons.prems(3,5) by order
    then show ?thesis using Cons False by (auto simp: vmas_ok_Cons)
  qed (use Cons.prems in auto)
qed simp

lemma nowrap_end: "2 \<le> l \<Longrightarrow> a \<le> a + l \<Longrightarrow> a < a + (l - 1) \<and> a + (l - 1) < a + l" for a l :: u64
proof -
  assume l: "2 \<le> l" and a: "a \<le> a + l"
  have m: "l - 1 < l" "0 < l - 1" using l by unat_arith+
  then have "a \<le> a + (l - 1)" using a by (meson less_imp_le word_plus_mono_right2)
  then have "a + 0 \<le> a + (l - 1)" "a + (l - 1) \<le> a + l"
    using word_plus_mono_right [of 0 "l - 1" a] word_plus_mono_right [of "l - 1" l a] m a by (simp_all add: less_imp_le)
  then show ?thesis using m by (simp add: less_le)
qed

lemma heap_found:
  assumes "vms_inv s" "heap_area m v s" "m \<noteq> 0"
  shows "vm_findVma m (brk_addr (mms s m)) (brk_len (mms s m) - 1) s = Some v" "vm_start v < vm_end v"
proof -
  have "brk_addr (mms s m) < brk_addr (mms s m) + (brk_len (mms s m) - 1)"
    "brk_addr (mms s m) + (brk_len (mms s m) - 1) < brk_addr (mms s m) + brk_len (mms s m)"
    using assms(2) nowrap_end unfolding heap_area_def by blast+
  then show "vm_findVma m (brk_addr (mms s m)) (brk_len (mms s m) - 1) s = Some v" "vm_start v < vm_end v"
    using assms find_covering [OF vms_invD(1) [OF assms(1)]] by (auto simp: vm_findVma_def heap_area_def)
qed

lemma ovrlap_None_iff:
  assumes inv: "vms_inv s" and v: "v \<in> set (areas m s)" "vm_start v < vm_end v" and m: "m \<noteq> 0"
  shows "vm_find_vma_ovrlap m (v\<lparr>vm_end := e\<rparr>) (upd_vma m (vaddr v) (\<lambda>w. w\<lparr>vm_end := f w\<rparr>) s) = None \<longleftrightarrow>
    (\<forall>w \<in> set (areas m s). w \<noteq> v \<longrightarrow> \<not> (vm_end v \<le> vm_start w \<and> vm_start w < e))"
proof -
  obtain xs ys where sp: "areas m s = xs @ v # ys" and nxs: "\<forall>x \<in> set xs. vaddr x \<noteq> vaddr v"
    and nys: "\<forall>y \<in> set ys. vaddr y \<noteq> vaddr v"
    using vmas_ok_split [OF vms_invD(1) [OF inv] v(1)] by metis
  have ok: "vmas_ok (xs @ v # ys)" using vms_invD(1) [OF inv, of m] by (simp add: sp)
  have lft: "vm_start x \<le> vm_start v \<and> vm_end x \<le> vm_start v" if "x \<in> set xs" for x
  proof -
    have "vm_start x \<le> vm_end x" "vm_end x \<le> vm_start v" using ok that
      by (auto simp: vmas_ok_append) (auto simp: vmas_ok_def)
    then show ?thesis by auto
  qed
  have rgt: "vm_end v \<le> vm_start y" if "y \<in> set ys" for y
    using ok that by (auto simp: vmas_ok_append vmas_ok_Cons)
  have "xs = map (\<lambda>w. if vaddr w = vaddr v then w\<lparr>vm_end := f w\<rparr> else w) xs"
    "ys = map (\<lambda>w. if vaddr w = vaddr v then w\<lparr>vm_end := f w\<rparr> else w) ys" using nxs nys by (auto simp: map_idI)
  then have new: "areas m (upd_vma m (vaddr v) (\<lambda>w. w\<lparr>vm_end := f w\<rparr>) s) = xs @ v\<lparr>vm_end := f v\<rparr> # ys" by (simp add: sp)
  let ?hits = "\<lambda>w. vaddr v \<noteq> vaddr w \<and> (vm_start w < vm_start v \<and> vm_end w > vm_start v \<or> vm_start v < vm_start w \<and> e > vm_start w)"
  let ?in = "\<lambda>w. w \<noteq> v \<and> vm_end v \<le> vm_start w \<and> vm_start w < e"
  have "\<not> ?hits w \<and> \<not> ?in w" if "w \<in> set xs" for w using lft [OF that] v(2) by auto
  moreover have "?hits w = ?in w" if "w \<in> set ys" for w
    using rgt [OF that] nys that v(2) by auto
  ultimately show ?thesis unfolding vm_find_vma_ovrlap_def new sp using m by (auto simp: find_None_iff)
qed

lemma brk_below: "b \<le> b + l \<Longrightarrow> addr - l < b \<longleftrightarrow> l \<le> addr \<and> addr < b + l" for addr b l :: u64
  by unat_arith

lemma len_le_end: "b \<le> b + l \<Longrightarrow> l \<le> b + l" for b l :: u64
  by unat_arith

lemma grown_len: "2 \<le> l \<Longrightarrow> b \<le> b + l \<Longrightarrow> b + l < a \<Longrightarrow> 2 \<le> a - b \<and> b \<le> a" for a b l :: u64
  by unat_arith

text \<open>What \<open>SYS_vm_brk\<close> returns and does, case by case; an address below the length of the heap passes its first test.\<close>

definition brk_outcome :: "nat \<Rightarrow> vma \<Rightarrow> u64 \<Rightarrow> vms \<Rightarrow> u64 \<Rightarrow> vms \<Rightarrow> bool" where
  "brk_outcome m v addr s r s' \<longleftrightarrow>
     (if addr = 0 then r = vm_end v \<and> s' = s
      else if addr < brk_len (mms s m) then r = (if addr > 0x40000000 then 0 else addr) \<and> s' = s
      else if addr < vm_end v \<or> addr > 0x40000000 then r = 0 \<and> s' = s
      else if \<exists>w \<in> set (areas m s). w \<noteq> v \<and> vm_end v \<le> vm_start w \<and> vm_start w < addr then r = - 1 \<and> s' = s
      else r = addr \<and> heap_area m (v\<lparr>vm_end := addr\<rparr>) s' \<and> brk_addr (mms s' m) = brk_addr (mms s m)
        \<and> set (areas m s') = insert (v\<lparr>vm_end := addr\<rparr>) (set (areas m s) - {v}) \<and> (\<forall>n. n \<noteq> m \<longrightarrow> mms s' n = mms s n))"

lemma upd_vma_areas:
  assumes "vmas_ok (areas m s)" "v \<in> set (areas m s)"
  shows "set (areas m (upd_vma m (vaddr v) f s)) = insert (f v) (set (areas m s) - {v})"
proof -
  obtain xs ys where sp: "areas m s = xs @ v # ys" and n: "\<forall>x \<in> set xs. vaddr x \<noteq> vaddr v" "\<forall>y \<in> set ys. vaddr y \<noteq> vaddr v"
    using vmas_ok_split [OF assms] by metis
  then have "map (\<lambda>w. if vaddr w = vaddr v then f w else w) xs = xs" "map (\<lambda>w. if vaddr w = vaddr v then f w else w) ys = ys"
    by (auto simp: map_idI)
  then show ?thesis using sp n by auto
qed

lemma brk_grows:
  assumes inv: "vms_inv s" and h: "heap_area m v s" and m: "m \<noteq> 0" and a: "vm_end v < addr"
    and free: "\<forall>w \<in> set (areas m s). w \<noteq> v \<longrightarrow> \<not> (vm_end v \<le> vm_start w \<and> vm_start w < addr)"
  defines "s' \<equiv> upd_mm m (\<lambda>x. x\<lparr>brk_len := addr - brk_addr x\<rparr>) (upd_vma m (vaddr v) (\<lambda>v. v\<lparr>vm_end := addr\<rparr>) s)"
  shows "vms_inv s'" "heap_area m (v\<lparr>vm_end := addr\<rparr>) s'" "brk_addr (mms s' m) = brk_addr (mms s m)"
    "set (areas m s') = insert (v\<lparr>vm_end := addr\<rparr>) (set (areas m s) - {v})" "n \<noteq> m \<Longrightarrow> mms s' n = mms s n"
proof -
  have v: "v \<in> set (areas m s)" "vm_start v < vm_end v" using h heap_found [OF inv h m] by (simp_all add: heap_area_def)
  have none: "vm_find_vma_ovrlap m (v\<lparr>vm_end := addr\<rparr>) (upd_vma m (vaddr v) (\<lambda>v. v\<lparr>vm_end := addr\<rparr>) s) = None"
    using ovrlap_None_iff [OF inv v m, of addr "\<lambda>_. addr"] free by simp
  show inv': "vms_inv s'"
    unfolding s'_def vms_inv_upd_mm by (rule grow_keeps_inv [OF inv v _ m none]) (use a in auto)
  show new: "set (areas m s') = insert (v\<lparr>vm_end := addr\<rparr>) (set (areas m s) - {v})"
    using upd_vma_areas [OF vms_invD(1) [OF inv] v(1), of "\<lambda>v. v\<lparr>vm_end := addr\<rparr>"] by (simp add: s'_def)
  show "brk_addr (mms s' m) = brk_addr (mms s m)" by (simp add: s'_def)
  show "n \<noteq> m \<Longrightarrow> mms s' n = mms s n" by (simp add: s'_def upd_vma_def)
  have "2 \<le> addr - brk_addr (mms s m)" "brk_addr (mms s m) \<le> addr"
    using h a grown_len unfolding heap_area_def by auto
  then show "heap_area m (v\<lparr>vm_end := addr\<rparr>) s'" using h new by (auto simp: heap_area_def s'_def)
qed

lemma brk_ok:
  assumes inv: "vms_inv s" and m: "cur_mm s \<noteq> 0" and h: "heap_area (cur_mm s) v s"
  shows "\<exists>r s'. SYS_vm_brk addr s = Some (r, s') \<and> vms_inv s' \<and> brk_outcome (cur_mm s) v addr s r s'"
proof -
  define k where "k = cur_mm s"
  have h: "heap_area k v s" and k: "k \<noteq> 0" using h m by (simp_all add: k_def)
  note found = heap_found [OF inv h k]
  have hv: "v \<in> set (areas k s)" "vm_end v = brk_addr (mms s k) + brk_len (mms s k)" "brk_addr (mms s k) \<le> brk_addr (mms s k) + brk_len (mms s k)"
    using h by (simp_all add: heap_area_def)
  have len: "brk_len (mms s k) \<le> vm_end v" unfolding hv(2) by (rule len_le_end [OF hv(3)])
  note low = brk_below [OF hv(3), of addr, folded hv(2)]
  have none: "vm_find_vma_ovrlap k (v\<lparr>vm_end := addr\<rparr>) (upd_vma k (vaddr v) (\<lambda>v. v\<lparr>vm_end := addr\<rparr>) s) = None \<longleftrightarrow>
    (\<forall>w \<in> set (areas k s). w \<noteq> v \<longrightarrow> \<not> (vm_end v \<le> vm_start w \<and> vm_start w < addr))"
    by (rule ovrlap_None_iff [OF inv hv(1) found(2) k])
  have undo: "upd_vma k (vaddr v) (\<lambda>w. w\<lparr>vm_end := vm_end v\<rparr>) (upd_vma k (vaddr v) (\<lambda>v. v\<lparr>vm_end := addr\<rparr>) s) = s"
  proof (rule upd_vma_back)
    fix w assume "w \<in> set (areas k s)" "vaddr w = vaddr v"
    then have "w = v" using vms_invD(1) [OF inv, of k] hv(1) by (simp add: vmas_ok_def distinct_map inj_on_def)
    then show "vaddr (w\<lparr>vm_end := addr\<rparr>) = vaddr v \<and> w\<lparr>vm_end := addr\<rparr>\<lparr>vm_end := vm_end v\<rparr> = w" by simp
  qed
  have self: "v\<lparr>vm_end := vm_end v\<rparr> = v" by simp
  show ?thesis unfolding k_def [symmetric]
  proof (cases "addr = 0 \<or> addr < vm_end v \<or> addr > 0x40000000")
    case True
    then have "\<exists>r. SYS_vm_brk addr s = Some (r, s) \<and> brk_outcome k v addr s r s"
      using found(1) low len hv(2) by (auto simp: SYS_vm_brk_def Let_def k_def [symmetric] brk_outcome_def)
    then show "\<exists>r s'. SYS_vm_brk addr s = Some (r, s') \<and> vms_inv s' \<and> brk_outcome k v addr s r s'" using inv by blast
  next
    case False
    then have big: "\<not> addr < brk_len (mms s k)" "\<not> addr - brk_len (mms s k) < brk_addr (mms s k)" using len low by auto
    show "\<exists>r s'. SYS_vm_brk addr s = Some (r, s') \<and> vms_inv s' \<and> brk_outcome k v addr s r s'"
    proof (cases "\<exists>w \<in> set (areas k s). w \<noteq> v \<and> vm_end v \<le> vm_start w \<and> vm_start w < addr")
      case hit: True
      then have "vm_end v < addr" by force
      then have "SYS_vm_brk addr s = Some (- 1, s)" using False big found(1) none hit undo
        by (auto simp: SYS_vm_brk_def Let_def k_def [symmetric])
      then show ?thesis using False big hit inv by (auto simp: brk_outcome_def)
    next
      case free: False
      show ?thesis
      proof (cases "vm_end v < addr")
        case True
        then have "SYS_vm_brk addr s = Some (addr, upd_mm k (\<lambda>x. x\<lparr>brk_len := addr - brk_addr x\<rparr>)
            (upd_vma k (vaddr v) (\<lambda>v. v\<lparr>vm_end := addr\<rparr>) s))"
          using False big found(1) none free by (auto simp: SYS_vm_brk_def Let_def k_def [symmetric])
        then show ?thesis using brk_grows [OF inv h k True] free False big by (auto simp: brk_outcome_def)
      next
        case same: False
        then have "addr = vm_end v" using False by auto
        then show ?thesis using False big found(1) inv h hv(1) self free
          by (auto simp: SYS_vm_brk_def Let_def k_def [symmetric] brk_outcome_def insert_absorb)
      qed
    qed
  qed
qed

section \<open>Copying an address space\<close>

lemma link_walk_last:
  "\<lbrakk>ts \<noteq> []; \<forall>t \<in> set ts. vm_start t < vm_end t \<and> vm_end t \<le> vm_start v; vm_start v < vm_end v\<rbrakk>
   \<Longrightarrow> link_walk v h ts = (1, ts @ [v])"
proof (induction ts arbitrary: h)
  case (Cons t ts)
  show ?case
  proof (cases ts)
    case (Cons n ns)
    then have "\<not> vm_end v \<le> vm_start n" using Cons.prems(2,3) by fastforce
    then show ?thesis using Cons Cons.IH [of False] Cons.prems by (simp add: link_walk_Cons)
  qed (use Cons.prems in \<open>simp add: link_walk_Cons\<close>)
qed simp

lemma vma_link_last:
  assumes "\<forall>t \<in> set (areas m s). vm_start t < vm_end t \<and> vm_end t \<le> vm_start v" "vm_start v < vm_end v" "m \<noteq> g_kernel_mm s"
  shows "fst (vma_link m v s) = 1" "areas m (snd (vma_link m v s)) = areas m s @ [v]"
    "i \<noteq> 0 \<Longrightarrow> icount (inodes (snd (vma_link m v s)) i) = icount (inodes s i) + (if vm_inode v = i then 1 else 0)"
  using assms link_walk_last [OF _ assms(1,2)]
  by (cases "areas m s = []"; simp add: vma_link_def Let_def fs_set_inode_used_def add_inode_vma_def)+

definition copy_area :: "nat \<Rightarrow> vma \<Rightarrow> nat \<Rightarrow> vma" where
  "copy_area dest v p = v\<lparr>vaddr := p, vm_mm := dest\<rparr>"

lemma dup_loop_ok:
  "\<lbrakk>vms_inv s; dest \<noteq> g_kernel_mm s; length vs \<le> length news; distinct news; 0 \<notin> set news;
    \<forall>w \<in> set (areas dest s). vaddr w \<notin> set news \<and> vm_start w < vm_end w \<and> (\<forall>v \<in> set vs. vm_end w \<le> vm_start v);
    vmas_ok vs; \<forall>v \<in> set vs. vm_start v < vm_end v\<rbrakk> \<Longrightarrow>
   \<exists>s'. dup_loop dest vs news s = Some s' \<and> vms_inv s' \<and> areas dest s' = areas dest s @ map2 (copy_area dest) vs news
     \<and> (\<forall>n. n \<noteq> dest \<longrightarrow> mms s' n = mms s n)
     \<and> (\<forall>i. i \<noteq> 0 \<longrightarrow> icount (inodes s' i) = icount (inodes s i) + int (length (filter (\<lambda>v. vm_inode v = i) vs)))"
proof (induction vs arbitrary: news s)
  case (Cons v vs)
  obtain p ps where news: "news = p # ps" using Cons.prems(3) by (cases news) auto
  let ?v = "copy_area dest v p" and ?r = "vma_link dest (copy_area dest v p) s"
  have fld: "vm_start ?v = vm_start v" "vm_end ?v = vm_end v" "vaddr ?v = p" "vm_inode ?v = vm_inode v" "vm_mm ?v = dest"
    by (simp_all add: copy_area_def)
  have before: "\<forall>t \<in> set (areas dest s). vm_start t < vm_end t \<and> vm_end t \<le> vm_start ?v" "vm_start ?v < vm_end ?v"
    using Cons.prems(6,8) by (auto simp: fld)
  note lnk = vma_link_last [OF before Cons.prems(2)]
  have "linkable dest ?v s" using Cons.prems(2,5,6,8) by (auto simp: linkable_def fld news)
  then have inv: "vms_inv (snd ?r)" using Cons.prems(1) by (rule vma_link_keeps_inv [rotated])
  have vs: "vmas_ok vs" "\<forall>w \<in> set vs. vm_end v \<le> vm_start w" using Cons.prems(7) by (auto simp: vmas_ok_Cons)
  have "\<exists>s'. dup_loop dest vs ps (snd ?r) = Some s' \<and> vms_inv s' \<and> areas dest s' = areas dest (snd ?r) @ map2 (copy_area dest) vs ps
     \<and> (\<forall>n. n \<noteq> dest \<longrightarrow> mms s' n = mms (snd ?r) n)
     \<and> (\<forall>i. i \<noteq> 0 \<longrightarrow> icount (inodes s' i) = icount (inodes (snd ?r) i) + int (length (filter (\<lambda>v. vm_inode v = i) vs)))"
    by (rule Cons.IH [OF inv])
      (use Cons.prems vs before(2) in \<open>auto simp: vma_link_frame(2) lnk(2) fld news\<close>)
  then obtain s' where s': "dup_loop dest vs ps (snd ?r) = Some s'" "vms_inv s'"
     "areas dest s' = areas dest (snd ?r) @ map2 (copy_area dest) vs ps" "\<forall>n. n \<noteq> dest \<longrightarrow> mms s' n = mms (snd ?r) n"
     "\<forall>i. i \<noteq> 0 \<longrightarrow> icount (inodes s' i) = icount (inodes (snd ?r) i) + int (length (filter (\<lambda>v. vm_inode v = i) vs))" by blast
  have "dup_loop dest (v # vs) news s = Some s'"
    using Cons.prems(5) s'(1) lnk(1) by (simp add: news copy_area_def split_beta)
  then show ?case using s'(2-5) lnk(2,3) vma_link_frame(1) [of _ dest ?v s] by (auto simp: news fld)
qed simp

section \<open>Runs\<close>

datatype vm_op =
    Mmap "(nat \<times> u64) option" u64 u64 u64 u64 u64 string "vma option"
  | Munmap u64 u64
  | Brk u64
  | Setup_Brk u64 u64 "vma option"
  | Dup nat nat "nat list"
  | Switch_Mm nat bool

fun vm_exec :: "vm_op \<Rightarrow> vms \<Rightarrow> vms option" where
  "vm_exec (Mmap f addr len prot flags pgoff nm fresh) s = map_option snd (vm_mmap f addr len prot flags pgoff nm fresh s)"
| "vm_exec (Munmap addr len) s = map_option snd (SYS_vm_munmap addr len s)"
| "vm_exec (Brk addr) s = map_option snd (SYS_vm_brk addr s)"
| "vm_exec (Setup_Brk addr len fresh) s = map_option snd (vm_setupBrk addr len fresh s)"
| "vm_exec (Dup src dest news) s = map_option snd (vm_dup_vmaps src dest news s)"
| "vm_exec (Switch_Mm m hp) s = Some (s\<lparr>cur_mm := m, HP_thread := hp\<rparr>)"

definition dup_legal :: "nat \<Rightarrow> nat \<Rightarrow> nat list \<Rightarrow> vms \<Rightarrow> bool" where
  "dup_legal src dest news s \<longleftrightarrow> dest \<noteq> g_kernel_mm s \<and> areas dest s = [] \<and> (\<forall>v \<in> set (areas src s). vm_start v < vm_end v)
     \<and> length (areas src s) \<le> length news \<and> distinct news \<and> 0 \<notin> set news"

fun vm_legal :: "vm_op \<Rightarrow> vms \<Rightarrow> bool" where
  "vm_legal (Mmap f addr len prot flags pgoff nm fresh) s = mmap_legal f addr len flags fresh s"
| "vm_legal (Munmap addr len) s = True"
| "vm_legal (Brk addr) s = (cur_mm s \<noteq> 0 \<and> (\<exists>v \<in> set (areas (cur_mm s) s). heap_area (cur_mm s) v s))"
| "vm_legal (Setup_Brk addr len fresh) s =
     (PAGE_ALIGN len = 0 \<or> mmap_legal None ((addr + of_nat PAGE_SIZE) AND PAGE_MASK) (PAGE_ALIGN len) MAP_ANONYMOUS fresh s)"
| "vm_legal (Dup src dest news) s = dup_legal src dest news s"
| "vm_legal (Switch_Mm m hp) s = True"

lemma munmap_keeps_inv: "vms_inv s \<Longrightarrow> \<exists>r s'. vm_munmap m addr len s = Some (r, s') \<and> vms_inv s'"
  using munmap_loop_ok [of s m addr len 0] by (auto simp: vm_munmap_def)

lemma setupBrk_keeps_inv:
  assumes "vms_inv s" "vm_legal (Setup_Brk addr len fresh) s"
  shows "\<exists>r s'. vm_setupBrk addr len fresh s = Some (r, s') \<and> vms_inv s'"
proof (cases "PAGE_ALIGN len = 0")
  case False
  let ?b = "(addr + of_nat PAGE_SIZE) AND PAGE_MASK"
  let ?s = "upd_mm (cur_mm s) (\<lambda>x. x\<lparr>brk_addr := ?b, brk_len := PAGE_ALIGN len\<rparr>) s"
  have "mmap_legal None ?b (PAGE_ALIGN len) MAP_ANONYMOUS fresh ?s"
    using assms(2) False by (simp add: mmap_legal_def anon_room_def Let_def split: option.splits)
  from vm_mmap_keeps_inv [OF _ this] assms(1) show ?thesis using False by (simp add: vm_setupBrk_def Let_def)
qed (use assms in \<open>simp add: vm_setupBrk_def\<close>)

lemma dup_keeps_inv:
  assumes "vms_inv s" "dup_legal src dest news s"
  shows "\<exists>s'. vm_dup_vmaps src dest news s = Some (1, s') \<and> vms_inv s' \<and> areas dest s' = map2 (copy_area dest) (areas src s) news
     \<and> (\<forall>n. n \<noteq> dest \<longrightarrow> mms s' n = mms s n)
     \<and> (\<forall>i. i \<noteq> 0 \<longrightarrow> icount (inodes s' i) = icount (inodes s i) + int (length (filter (\<lambda>v. vm_inode v = i) (areas src s))))"
proof -
  have "\<exists>s'. dup_loop dest (areas src s) news s = Some s' \<and> vms_inv s' \<and> areas dest s' = areas dest s @ map2 (copy_area dest) (areas src s) news
     \<and> (\<forall>n. n \<noteq> dest \<longrightarrow> mms s' n = mms s n)
     \<and> (\<forall>i. i \<noteq> 0 \<longrightarrow> icount (inodes s' i) = icount (inodes s i) + int (length (filter (\<lambda>v. vm_inode v = i) (areas src s))))"
    by (rule dup_loop_ok) (use assms vms_invD(1) in \<open>auto simp: dup_legal_def\<close>)
  then show ?thesis using assms(2) by (auto simp: vm_dup_vmaps_def dup_legal_def)
qed

lemma vm_exec_ok: "vms_inv s \<Longrightarrow> vm_legal e s \<Longrightarrow> \<exists>s'. vm_exec e s = Some s' \<and> vms_inv s'"
proof (cases e)
  case (Switch_Mm m hp)
  then show "vms_inv s \<Longrightarrow> ?thesis" using vms_inv_cong [of "s\<lparr>cur_mm := m, HP_thread := hp\<rparr>" s] by simp
qed (force dest: vm_mmap_keeps_inv munmap_keeps_inv setupBrk_keeps_inv dup_keeps_inv brk_ok simp: SYS_vm_munmap_def)+

interpretation address_spaces: machine vm_exec vm_legal vms_inv
  by unfold_locales (rule vm_exec_ok)

section \<open>Lookup after mapping\<close>

lemma find_inserted:
  assumes "vmas_ok (xs @ v # ys)" "a < b"
  shows "find (\<lambda>v. vm_start v \<le> a \<and> b \<le> vm_end v) (xs @ v # ys) =
    (if vm_start v \<le> a \<and> b \<le> vm_end v then Some v else find (\<lambda>v. vm_start v \<le> a \<and> b \<le> vm_end v) (xs @ ys))"
proof (cases "vm_start v \<le> a \<and> b \<le> vm_end v")
  case True
  then show ?thesis using find_covering [OF assms(1), of v a b] assms(2) by simp
next
  case False
  have "find P (xs @ v # ys) = find P (xs @ ys)" if "\<not> P v" for P using that by (induction xs) auto
  then show ?thesis using False by auto
qed

definition fits :: "nat \<Rightarrow> vma \<Rightarrow> vms \<Rightarrow> bool" where
  "fits m v s \<longleftrightarrow> (\<forall>w \<in> set (areas m s). apart w v)
     \<and> (areas m s \<noteq> [] \<longrightarrow> vm_end (hd (areas m s)) \<le> vm_start v \<or> vm_end v < vm_start (hd (areas m s)))"

lemma vma_link_iff: "vmas_ok (areas m s) \<Longrightarrow> vm_start v \<le> vm_end v \<Longrightarrow> \<not> fst (vma_link m v s) < 0 \<longleftrightarrow> fits m v s"
  using link_walk_iff [of "areas m s" v]
  by (cases "areas m s = []") (auto simp: vma_link_def Let_def split_beta fits_def)

lemma vma_link_lookup:
  assumes inv: "vms_inv s" and v: "linkable m v s" and ok: "fits m v s" and a: "a < a + l"
  shows "vm_findVma m a l (snd (vma_link m v s)) =
    (if m \<noteq> 0 \<and> vm_start v \<le> a \<and> a + l \<le> vm_end v then Some v else vm_findVma m a l s)"
proof -
  have le: "vm_start v \<le> vm_end v" using v by (simp add: linkable_def)
  have "\<not> fst (vma_link m v s) < 0" using vma_link_iff [OF vms_invD(1) [OF inv] le] ok by simp
  from vma_link_links [OF vms_invD(1) [OF inv] le this] obtain xs ys where sp: "areas m s = xs @ ys"
    "areas m (snd (vma_link m v s)) = xs @ v # ys" "\<forall>x \<in> set xs. vm_end x \<le> vm_start v" "\<forall>y \<in> set ys. vm_end v \<le> vm_start y" .
  have "vmas_ok (xs @ v # ys)" using vms_invD(1) [OF vma_link_keeps_inv [OF inv v], of m] by (simp add: sp)
  from find_inserted [OF this a] show ?thesis by (simp add: vm_findVma_def sp)
qed

section \<open>A system with a kernel and a process\<close>

definition demo_area :: "nat \<Rightarrow> nat \<Rightarrow> u64 \<Rightarrow> u64 \<Rightarrow> nat \<Rightarrow> vma" where
  "demo_area p m st en i = \<lparr>vaddr = p, vm_mm = m, vm_start = st, vm_end = en, name = [], vm_prot = 0, vm_flags = 0,
     vm_inode = i, vm_private_data = 0, hugepages_enabled = False, stat_page_faults = 0, stat_page_wrt_faults = 0,
     stat_page_count = 0, stat_log_index = 0, stat_log = []\<rparr>"

definition demo_vms :: vms where
  "demo_vms = \<lparr>mms = (\<lambda>m. if m = 2 then \<lparr>mmap = [demo_area 11 2 0x1000 0x3000 7, demo_area 12 2 0x4000 0x6000 0],
       brk_addr = 0x4000, brk_len = 0x2000, anonymous_addr = 0\<rparr>
     else \<lparr>mmap = [], brk_addr = 0, brk_len = 0, anonymous_addr = 0\<rparr>),
     inodes = (\<lambda>i. \<lparr>icount = 2, iflags = 0, nrpages = 1, vma_list = (if i = 7 then [(11, 2)] else []), in_inode_list = True\<rparr>),
     g_kernel_mm = 1, cur_mm = 2, HP_thread = False, g_conf_userhugepages = False, ksize = 0, cleaned = []\<rparr>"

lemma demo_vms_inv: "vms_inv demo_vms"
  by (auto simp: vms_inv_def demo_vms_def vmas_ok_def area_ok_def demo_area_def)

section \<open>Properties\<close>

text \<open>
  C29: Address spaces stay well formed. From a state that satisfies the invariant, no legal sequence of \<open>mmap\<close>, \<open>munmap\<close>,
  \<open>brk\<close>, heap set-up, address-space copies and task switches reaches \<open>BUG()\<close> or an inode list that is not linked; at the
  end no two areas of an address space have an address in common.
\<close>

theorem vm_runs_safe:
  assumes "vms_inv s" "legal_run vm_exec vm_legal es s"
  shows "\<exists>s'. run_ops vm_exec es s = Some s' \<and> vms_inv s'
    \<and> (\<forall>m i j. i < j \<and> j < length (areas m s') \<longrightarrow>
        {vm_start (areas m s' ! i) ..< vm_end (areas m s' ! i)} \<inter> {vm_start (areas m s' ! j) ..< vm_end (areas m s' ! j)} = {})"
proof -
  obtain s' where s': "run_ops vm_exec es s = Some s'" "vms_inv s'" using address_spaces.run_keeps_inv [OF assms] by blast
  have "vm_end (areas m s' ! i) \<le> vm_start (areas m s' ! j)" if "i < j" "j < length (areas m s')" for m i j
    using vms_invD(1) [OF s'(2), of m] that by (auto simp: vmas_ok_def sorted_wrt_iff_nth_less)
  then show ?thesis using s' by fastforce
qed

theorem vm_runs_safe_witness:
  "legal_run vm_exec vm_legal [Brk 0x7000, Dup 2 3 [21, 22], Munmap 0 0x5000] demo_vms
    \<and> (\<exists>s'. run_ops vm_exec [Brk 0x7000, Dup 2 3 [21, 22], Munmap 0 0x5000] demo_vms = Some s' \<and> vms_inv s')"
proof -
  have h: "heap_area 2 (demo_area 12 2 0x4000 0x6000 0) demo_vms" by (simp add: heap_area_def demo_vms_def)
     (simp add: demo_area_def)
  have "vm_exec (Brk 0x7000) demo_vms = Some (demo_vms\<lparr>mms := (mms demo_vms)(2 := (mms demo_vms 2)\<lparr>
      mmap := [demo_area 11 2 0x1000 0x3000 7, demo_area 12 2 0x4000 0x7000 0], brk_len := 0x3000\<rparr>)\<rparr>)"
    by (simp add: SYS_vm_brk_def demo_vms_def demo_area_def vm_findVma_def vm_find_vma_ovrlap_def upd_vma_def upd_mm_def)
  then have "legal_run vm_exec vm_legal [Brk 0x7000, Dup 2 3 [21, 22], Munmap 0 0x5000] demo_vms"
    using h by (auto simp: demo_vms_def dup_legal_def demo_area_def split: option.splits)
  then show ?thesis
    using vm_runs_safe [OF demo_vms_inv, of "[Brk 0x7000, Dup 2 3 [21, 22], Munmap 0 0x5000]"] by blast
qed



text \<open>
  C31: \<open>vm_munmap\<close> always returns. An empty length is refused. Otherwise exactly the areas that lie inside the range are removed,
  the others keep their order, an area that only overlaps the range stays whole, other address spaces are untouched, and the
  pages of every removed area are cleaned up. The result is 2 when an area was removed and 0 when none was, but also 0
  when the last area of the address space went.
\<close>

theorem munmap_correct:
  assumes "vms_inv s"
  shows "\<exists>r s'. vm_munmap m addr len s = Some (r, s') \<and> vms_inv s'
    \<and> (if len \<noteq> NOT 0 \<and> PAGE_ALIGN len = 0 then r = - 1 \<and> s' = s
       else areas m s' = filter (\<lambda>v. \<not> (addr \<le> vm_start v \<and> vm_end v \<le> addr + len)) (areas m s)
         \<and> (\<forall>n. n \<noteq> m \<longrightarrow> mms s' n = mms s n)
         \<and> r = (if areas m s' = [] \<or> areas m s' = areas m s then 0 else 2)
         \<and> (\<forall>v \<in> set (areas m s) - set (areas m s'). (m, vm_start v, vm_end v - vm_start v) \<in> set (cleaned s')))"
proof (cases "len \<noteq> NOT 0 \<and> PAGE_ALIGN len = 0")
  case True
  then show ?thesis using assms by (auto simp: vm_munmap_def)
next
  case False
  obtain r s' where run: "munmap_loop m addr len 0 s = Some (r, s')" "vms_inv s'"
    "areas m s' = filter (\<lambda>v. \<not> contained addr len v) (areas m s)" "\<forall>n. n \<noteq> m \<longrightarrow> mms s' n = mms s n"
    "r = (if areas m s' = [] then 0 else if \<exists>v \<in> set (areas m s). contained addr len v then 2 else 0)"
    "\<forall>v \<in> set (areas m s). contained addr len v \<longrightarrow> (m, vm_start v, vm_end v - vm_start v) \<in> set (cleaned s')"
    using munmap_loop_ok [OF assms, of m addr len 0] by blast
  have "areas m s' = areas m s \<longleftrightarrow> \<not> (\<exists>v \<in> set (areas m s). contained addr len v)"
    using run(3) by (auto simp: filter_id_conv)
  then show ?thesis using False run by (auto simp: vm_munmap_def contained_def)
qed

theorem munmap_correct_witness:
  "\<exists>r s'. vm_munmap 2 0x1000 0x4000 demo_vms = Some (r, s') \<and> vms_inv s'
    \<and> (if 0x4000 \<noteq> NOT (0 :: u64) \<and> PAGE_ALIGN 0x4000 = 0 then r = - 1 \<and> s' = demo_vms
       else areas 2 s' = filter (\<lambda>v. \<not> (0x1000 \<le> vm_start v \<and> vm_end v \<le> 0x1000 + 0x4000)) (areas 2 demo_vms)
         \<and> (\<forall>n. n \<noteq> 2 \<longrightarrow> mms s' n = mms demo_vms n)
         \<and> r = (if areas 2 s' = [] \<or> areas 2 s' = areas 2 demo_vms then 0 else 2)
         \<and> (\<forall>v \<in> set (areas 2 demo_vms) - set (areas 2 s'). (2, vm_start v, vm_end v - vm_start v) \<in> set (cleaned s')))"
  by (rule munmap_correct [OF demo_vms_inv])

text \<open>
  C32: The heap break, with its error cases. For a process whose break describes an area, \<open>brk\<close> returns the end of the heap for
  address 0, refuses with 0 to shrink the heap or to pass \<open>0x40000000\<close>, refuses with -1 to grow into another area, and in all
  these cases changes nothing; otherwise the heap ends at the address and nothing else changes. An address below the
  length of the heap is confirmed without any change, because the unsigned difference in the first test wraps around.
\<close>

theorem brk_correct:
  assumes "vms_inv s" "cur_mm s \<noteq> 0" "heap_area (cur_mm s) v s"
  shows "\<exists>r s'. SYS_vm_brk addr s = Some (r, s') \<and> vms_inv s' \<and>
     (if addr = 0 then r = vm_end v \<and> s' = s
      else if addr < brk_len (mms s (cur_mm s)) then r = (if addr > 0x40000000 then 0 else addr) \<and> s' = s
      else if addr < vm_end v \<or> addr > 0x40000000 then r = 0 \<and> s' = s
      else if \<exists>w \<in> set (areas (cur_mm s) s). w \<noteq> v \<and> vm_end v \<le> vm_start w \<and> vm_start w < addr then r = - 1 \<and> s' = s
      else r = addr \<and> heap_area (cur_mm s) (v\<lparr>vm_end := addr\<rparr>) s'
        \<and> set (areas (cur_mm s) s') = insert (v\<lparr>vm_end := addr\<rparr>) (set (areas (cur_mm s) s) - {v})
        \<and> (\<forall>n. n \<noteq> cur_mm s \<longrightarrow> mms s' n = mms s n))"
  using brk_ok [OF assms, of addr] unfolding brk_outcome_def by (auto split: if_splits)

theorem brk_correct_witness:
  "\<exists>r s'. SYS_vm_brk 0x5000 demo_vms = Some (r, s') \<and> r = 0 \<and> s' = demo_vms"
proof -
  have "cur_mm demo_vms = 2" "mms demo_vms 2 = \<lparr>mmap = [demo_area 11 2 0x1000 0x3000 7, demo_area 12 2 0x4000 0x6000 0],
       brk_addr = 0x4000, brk_len = 0x2000, anonymous_addr = 0\<rparr>" by (simp_all add: demo_vms_def)
  then show ?thesis using brk_correct [OF demo_vms_inv, of "demo_area 12 2 0x4000 0x6000 0" "0x5000"]
    by (simp add: heap_area_def demo_area_def)
qed



end
