(* ===== verification/Jslab.thy ===== *)
theory Jslab
  imports Page_Alloc
begin

text \<open>
  The slab allocator, mm/jslab.c: caches of equal objects on pages with a 64-bit map of the used slots, large objects on
  blocks of pages. The page allocator below is reached through two parameters, \<open>get\<close> for \<open>mm_getFreePages\<close>
  (flags, order) and \<open>put\<close> for \<open>mm_putFreePages\<close> (order, page). A page is its frame number, an object is the number
  \<open>frame * PAGE_SIZE + offset\<close>, a cache is its address. \<^term>\<open>None\<close> stands for a failed \<open>assert\<close>, the endless loop of
  \<open>sanity_check\<close>, or a bit operation outside the map. The lock of a cache makes each call one step.
  Sizes and counters are numbers without wrap-around. The slab flags of the pages are kept beside the state of the page
  allocator: both release paths clear them before the pages go back, so the page allocator never sees them set.
\<close>

section \<open>State\<close>

definition JSLAB_MAGIC :: u64 where "JSLAB_MAGIC = 0xabcdef12345678"
definition sizeof_jslab :: nat where "sizeof_jslab = 32"

record jslab_header =
  magic_number :: "u64 \<times> u64"
  cachep :: nat
  bitmap :: u64

record jcache =
  partial_list :: "nat list"
  full_list :: "nat list"
  obj_size :: nat
  cflags :: u32
  page_order :: nat
  max_obj_per_slab :: nat
  stat_total_objs :: int
  stat_total_pages :: int
  cstat_allocs :: int
  cstat_frees :: int

text \<open>Of the page descriptors only the flags and the field \<open>fs_inode\<close> that the allocator uses; object memory as bytes.\<close>

record 'm jslab =
  page_mem :: 'm
  header :: "nat \<Rightarrow> jslab_header"
  PageSlab :: "nat \<Rightarrow> bool"
  PageLargePage :: "nat \<Rightarrow> bool"
  fs_inode :: "nat \<Rightarrow> nat"
  cache :: "nat \<Rightarrow> jcache"
  cache_list :: "nat list"
  bytes :: "nat \<Rightarrow> u8"
  stat_mallocs :: u64
  stat_mfrees :: u64
  jslab_init_done :: bool

type_synonym 'm get_pages = "u32 \<Rightarrow> nat \<Rightarrow> 'm \<Rightarrow> (nat option \<times> 'm) option"
type_synonym 'm put_pages = "nat \<Rightarrow> nat \<Rightarrow> 'm \<Rightarrow> 'm option"

definition upd_cache :: "nat \<Rightarrow> (jcache \<Rightarrow> jcache) \<Rightarrow> 'm jslab \<Rightarrow> 'm jslab" where
  "upd_cache c f s = s\<lparr>cache := (cache s)(c := f (cache s c))\<rparr>"

definition upd_header :: "nat \<Rightarrow> (jslab_header \<Rightarrow> jslab_header) \<Rightarrow> 'm jslab \<Rightarrow> 'm jslab" where
  "upd_header p f s = s\<lparr>header := (header s)(p := f (header s p))\<rparr>"

section \<open>Bit operations on the map\<close>

text \<open>
  \<open>find_first_zero_bit\<close> of include/bitops.h on one 64-bit word: the scan over the two 32-bit halves ends behind the
  word when both are full, and the result is then 64.
\<close>

definition find_first_zero_bit :: "u64 \<Rightarrow> nat" where
  "find_first_zero_bit w = (case find (\<lambda>i. \<not> bit w i) [0 ..< 64] of Some i \<Rightarrow> i | None \<Rightarrow> 64)"

definition map_set_bit :: "nat \<Rightarrow> u64 \<Rightarrow> u64 option" where
  "map_set_bit i w = (if i < 64 then Some (set_bit i w) else None)"

definition sanity_check :: "nat \<Rightarrow> nat \<Rightarrow> 'm jslab \<Rightarrow> unit option" where
  "sanity_check c p s = kassert (c > 0x100000 \<and> snd (magic_number (header s p)) = JSLAB_MAGIC
     \<and> fst (magic_number (header s p)) = JSLAB_MAGIC)"

section \<open>Slabs\<close>

definition set_flags :: "(nat \<Rightarrow> bool) \<Rightarrow> nat \<Rightarrow> nat \<Rightarrow> bool \<Rightarrow> nat \<Rightarrow> bool" where
  "set_flags f k p b = (\<lambda>q. if q \<in> block k p then b else f q)"

definition getpages :: "'m get_pages \<Rightarrow> nat \<Rightarrow> 'm jslab \<Rightarrow> 'm jslab option" where
  "getpages get c s = do {
     let k = page_order (cache s c);
     (r, m) \<leftarrow> get (cflags (cache s c)) k (page_mem s);
     let s = s\<lparr>page_mem := m\<rparr>;
     case r of
       None \<Rightarrow> Some s
     | Some p \<Rightarrow>
         let s = upd_header p (\<lambda>_. \<lparr>magic_number = (JSLAB_MAGIC, JSLAB_MAGIC), cachep = c, bitmap = 0\<rparr>) s;
             s = upd_cache c (\<lambda>x. x\<lparr>partial_list := p # partial_list x, stat_total_pages := stat_total_pages x + 2 ^ k\<rparr>) s
         in Some (s\<lparr>PageSlab := set_flags (PageSlab s) k p True\<rparr>) }"

text \<open>\<open>list_del\<close> of the page takes it off the list it is on.\<close>

definition freepages :: "'m put_pages \<Rightarrow> nat \<Rightarrow> nat \<Rightarrow> 'm jslab \<Rightarrow> 'm jslab option" where
  "freepages put c p s = do {
     let k = page_order (cache s c);
     kassert (bitmap (header s p) = 0);
     kassert (p \<in> set (partial_list (cache s c)) \<union> set (full_list (cache s c)));
     let s = upd_cache c (\<lambda>x. x\<lparr>partial_list := remove1 p (partial_list x), full_list := remove1 p (full_list x)\<rparr>) s;
     kassert (\<forall>q \<in> set [p ..< p + 2 ^ k]. PageSlab s q);
     let s = upd_cache c (\<lambda>x. x\<lparr>stat_total_pages := stat_total_pages x - 2 ^ k\<rparr>)
               (s\<lparr>PageSlab := set_flags (PageSlab s) k p False\<rparr>);
     m \<leftarrow> put k p (page_mem s);
     Some (s\<lparr>page_mem := m\<rparr>) }"

text \<open>A large object: the pages are marked and point to the cache.\<close>

definition free_large :: "'m put_pages \<Rightarrow> nat \<Rightarrow> 'm jslab \<Rightarrow> 'm jslab option" where
  "free_large put p s = do {
     let c = fs_inode s p;
     kassert (c \<noteq> 0);
     let k = page_order (cache s c);
     kassert (\<forall>q \<in> set [p ..< p + 2 ^ k]. fs_inode s q \<noteq> 0);
     let s = s\<lparr>PageLargePage := set_flags (PageLargePage s) k p False, PageSlab := set_flags (PageSlab s) k p False,
               fs_inode := (\<lambda>q. if q \<in> block k p then 0 else fs_inode s q)\<rparr>;
     m \<leftarrow> put k p (page_mem s);
     Some (upd_cache c (\<lambda>x. x\<lparr>cstat_frees := cstat_frees x + 1, stat_total_objs := stat_total_objs x - 1\<rparr>) (s\<lparr>page_mem := m\<rparr>)) }"

definition free_small :: "'m put_pages \<Rightarrow> nat \<Rightarrow> nat \<Rightarrow> 'm jslab \<Rightarrow> 'm jslab option" where
  "free_small put p off s = do {
     let c = cachep (header s p);
     sanity_check c p s;
     kassert (off \<ge> sizeof_jslab);
     let index = (off - sizeof_jslab) div obj_size (cache s c);
     kassert (index < 64);
     kassert (bit (bitmap (header s p)) index);
     let s = upd_header p (\<lambda>h. h\<lparr>bitmap := unset_bit index (bitmap h)\<rparr>) s;
     s \<leftarrow> (if bitmap (header s p) = 0 then freepages put c p s else Some s);
     let s = upd_cache c (\<lambda>x. x\<lparr>stat_total_objs := stat_total_objs x - 1, cstat_frees := cstat_frees x + 1\<rparr>) s;
     sanity_check c p s;
     Some (s\<lparr>stat_mfrees := stat_mfrees s + 1\<rparr>) }"

definition free_obj :: "'m put_pages \<Rightarrow> nat \<Rightarrow> 'm jslab \<Rightarrow> 'm jslab option" where
  "free_obj put addr s = do {
     let p = addr div PAGE_SIZE;
     kassert (PageSlab s p);
     if PageLargePage s p then free_large put p s else free_small put p (addr mod PAGE_SIZE) s }"

definition alloc_large :: "'m get_pages \<Rightarrow> nat \<Rightarrow> 'm jslab \<Rightarrow> (nat option \<times> 'm jslab) option" where
  "alloc_large get c s = do {
     let k = page_order (cache s c);
     (r, m) \<leftarrow> get 0 k (page_mem s);
     let s = s\<lparr>page_mem := m\<rparr>;
     case r of
       None \<Rightarrow> Some (None, s)
     | Some p \<Rightarrow>
         let s = s\<lparr>PageLargePage := set_flags (PageLargePage s) k p True, PageSlab := set_flags (PageSlab s) k p True,
                   fs_inode := (\<lambda>q. if q \<in> block k p then c else fs_inode s q)\<rparr>
         in Some (Some (p * PAGE_SIZE),
              upd_cache c (\<lambda>x. x\<lparr>cstat_allocs := cstat_allocs x + 1, stat_total_objs := stat_total_objs x + 1\<rparr>) s) }"

definition ut_memset_bytes :: "nat \<Rightarrow> nat \<Rightarrow> 'm jslab \<Rightarrow> 'm jslab" where
  "ut_memset_bytes addr n s = s\<lparr>bytes := (\<lambda>a. if addr \<le> a \<and> a < addr + n then 0 else bytes s a)\<rparr>"

definition alloc_small :: "nat \<Rightarrow> 'm jslab \<Rightarrow> (nat option \<times> 'm jslab) option" where
  "alloc_small c s = (case partial_list (cache s c) of
     [] \<Rightarrow> Some (None, s)
   | p # _ \<Rightarrow> do {
       sanity_check c p s;
       let index = find_first_zero_bit (bitmap (header s p));
       w \<leftarrow> map_set_bit index (bitmap (header s p));
       let s = upd_header p (\<lambda>h. h\<lparr>bitmap := w\<rparr>) s;
       let addr = p * PAGE_SIZE + sizeof_jslab + index * obj_size (cache s c);
       let index = find_first_zero_bit (bitmap (header s p));
       let s = (if index + 1 > max_obj_per_slab (cache s c)
                then upd_cache c (\<lambda>x. x\<lparr>partial_list := tl (partial_list x), full_list := p # full_list x\<rparr>) s else s);
       let s = upd_cache c (\<lambda>x. x\<lparr>stat_total_objs := stat_total_objs x + 1\<rparr>) s;
       let s = ut_memset_bytes addr (obj_size (cache s c)) s;
       sanity_check c p s;
       Some (Some addr, upd_cache c (\<lambda>x. x\<lparr>cstat_allocs := cstat_allocs x + 1\<rparr>) (s\<lparr>stat_mallocs := stat_mallocs s + 1\<rparr>)) })"

definition alloc_obj :: "'m get_pages \<Rightarrow> nat \<Rightarrow> 'm jslab \<Rightarrow> (nat option \<times> 'm jslab) option" where
  "alloc_obj get c s =
     (if obj_size (cache s c) \<ge> PAGE_SIZE then alloc_large get c s
      else do {
        s \<leftarrow> (if partial_list (cache s c) = [] then getpages get c s else Some s);
        alloc_small c s })"

section \<open>Caches\<close>

fun log_loop :: "nat \<Rightarrow> nat" where
  "log_loop n = (if n > 0 then Suc (log_loop (n div 2)) else 0)"

declare log_loop.simps [simp del]

definition log_n :: "nat \<Rightarrow> nat" where
  "log_n n = (if log_loop n > 0 then log_loop n - 1 else log_loop n)"

definition create_jcache :: "nat \<Rightarrow> nat \<Rightarrow> 'm jslab \<Rightarrow> (int \<times> 'm jslab) option" where
  "create_jcache c sz s =
     (if c = 0 then Some (JFAIL, s)
      else do {
        (space, k) \<leftarrow>
          (if sz \<ge> PAGE_SIZE then Some (sz, log_n (sz div 2 ^ PAGE_SHIFT))
           else do { let space = PAGE_SIZE - sizeof_jslab; kassert (sz \<le> space); Some (space, 0) });
        kassert (sz \<noteq> 0);
        let s = upd_cache c (\<lambda>x. x\<lparr>page_order := k, obj_size := sz, partial_list := [], full_list := [],
          max_obj_per_slab := space div sz, stat_total_objs := 0, stat_total_pages := 0, cstat_allocs := 0, cstat_frees := 0\<rparr>) s;
        Some (JSUCCESS, s\<lparr>cache_list := c # cache_list s\<rparr>) })"

definition cache_sizes :: "nat list" where
  "cache_sizes = [32, 64, 128, 256, 512, 1024, 2048, 3700] @ map (\<lambda>i. PAGE_SIZE * 2 ^ i) [0 ..< 11]"

text \<open>\<open>predefined_caches\<close> is an array at \<open>base\<close> of cache structures of \<open>sizeof_jcache\<close> bytes.\<close>

definition sizeof_jcache :: nat where "sizeof_jcache = 320"
definition MAX_PREDEFINED_CACHES :: nat where "MAX_PREDEFINED_CACHES = 25"

fun init_caches :: "nat \<Rightarrow> nat list \<Rightarrow> 'm jslab \<Rightarrow> 'm jslab option" where
  "init_caches c [] s = Some s"
| "init_caches c (sz # szs) s = do { (ret, s) \<leftarrow> create_jcache c sz s; init_caches (c + sizeof_jcache) szs s }"

definition init_jslab :: "nat \<Rightarrow> 'm jslab \<Rightarrow> (int \<times> 'm jslab) option" where
  "init_jslab base s =
     (if jslab_init_done s then Some (JFAIL, s)
      else do {
        s \<leftarrow> init_caches base cache_sizes (s\<lparr>cache_list := [],
          cache := (\<lambda>c. if \<exists>i \<in> set [0 ..< MAX_PREDEFINED_CACHES]. c = base + i * sizeof_jcache
                     then (cache s c)\<lparr>obj_size := 0\<rparr> else cache s c)\<rparr>);
        Some (JSUCCESS, s\<lparr>jslab_init_done := True\<rparr>) })"

definition jslab_alloc_from_cache :: "'m get_pages \<Rightarrow> nat \<Rightarrow> 'm jslab \<Rightarrow> (nat option \<times> 'm jslab) option" where
  "jslab_alloc_from_cache get c s = (if c = 0 then Some (None, s) else alloc_obj get c s)"

definition jslab_alloc_from_predefined :: "'m get_pages \<Rightarrow> nat \<Rightarrow> nat \<Rightarrow> u32 \<Rightarrow> 'm jslab \<Rightarrow> (nat option \<times> 'm jslab) option" where
  "jslab_alloc_from_predefined get base sz fl s =
     (case find (\<lambda>i. sz \<le> obj_size (cache s (base + i * sizeof_jcache)))
          (takeWhile (\<lambda>i. obj_size (cache s (base + i * sizeof_jcache)) \<noteq> 0) [0 ..< MAX_PREDEFINED_CACHES]) of
        None \<Rightarrow> None
      | Some i \<Rightarrow> do {
          (ret, s) \<leftarrow> alloc_obj get (base + i * sizeof_jcache) s;
          Some (ret, case ret of None \<Rightarrow> s | Some a \<Rightarrow> if fl AND MEM_CLEAR \<noteq> 0 then ut_memset_bytes a sz s else s) })"

text \<open>\<open>ut_malloc\<close> is \<open>jslab_alloc_from_predefined\<close> without flags. The result is cleared without a test for the null pointer.\<close>

definition ut_calloc :: "'m get_pages \<Rightarrow> nat \<Rightarrow> nat \<Rightarrow> 'm jslab \<Rightarrow> (nat \<times> 'm jslab) option" where
  "ut_calloc get base sz s = do {
     (addr, s) \<leftarrow> jslab_alloc_from_predefined get base sz 0 s;
     addr \<leftarrow> addr;
     Some (addr, ut_memset_bytes addr sz s) }"

definition jslab_free2 :: "'m put_pages \<Rightarrow> nat option \<Rightarrow> 'm jslab \<Rightarrow> 'm jslab option" where
  "jslab_free2 put obj s = (case obj of None \<Rightarrow> Some s | Some addr \<Rightarrow> free_obj put addr s)"

definition jslab_create_cache :: "'m get_pages \<Rightarrow> nat \<Rightarrow> nat \<Rightarrow> 'm jslab \<Rightarrow> (nat \<times> 'm jslab) option" where
  "jslab_create_cache get base sz s = do {
     (r, s) \<leftarrow> jslab_alloc_from_predefined get base sizeof_jcache 0 s;
     case r of
       None \<Rightarrow> None
     | Some c \<Rightarrow> do {
         (ret, s) \<leftarrow> create_jcache c sz s;
         if ret = JFAIL then None else Some (c, s) } }"

definition jslab_destroy_cache :: "nat \<Rightarrow> 'm jslab \<Rightarrow> int \<times> 'm jslab" where
  "jslab_destroy_cache c s =
     (if partial_list (cache s c) \<noteq> [] \<or> full_list (cache s c) \<noteq> [] then (JFAIL, s)
      else (JSUCCESS, s\<lparr>cache_list := remove1 c (cache_list s)\<rparr>))"

end
