(* ===== verification/Jslab_Correct.thy ===== *)
theory Jslab_Correct
  imports Jslab
begin

text \<open>
  The slab allocator of mm/jslab.c refines a set of live objects: an allocation returns an object that does not overlap any live one, a release
  of a live object succeeds, and none of the assertions fails. The proofs rest on the interface \<open>page_source\<close> of the
  page allocator only; the buddy allocator provides it.
\<close>

section \<open>The relation between objects and slabs\<close>

abbreviation sz :: "nat \<Rightarrow> 'm jslab \<Rightarrow> nat" where "sz c s \<equiv> obj_size (cache s c)"
abbreviation cap :: "nat \<Rightarrow> 'm jslab \<Rightarrow> nat" where "cap c s \<equiv> max_obj_per_slab (cache s c)"
abbreviation order :: "nat \<Rightarrow> 'm jslab \<Rightarrow> nat" where "order c s \<equiv> page_order (cache s c)"
abbreviation bits :: "nat \<Rightarrow> 'm jslab \<Rightarrow> u64" where "bits p s \<equiv> bitmap (header s p)"

definition small :: "nat \<Rightarrow> 'm jslab \<Rightarrow> bool" where "small c s \<longleftrightarrow> sz c s < PAGE_SIZE"

definition slab_list :: "nat \<Rightarrow> 'm jslab \<Rightarrow> nat list" where
  "slab_list c s = partial_list (cache s c) @ full_list (cache s c)"

definition slot :: "nat \<Rightarrow> nat \<Rightarrow> nat \<Rightarrow> 'm jslab \<Rightarrow> nat" where
  "slot c p i s = p * PAGE_SIZE + sizeof_jslab + i * sz c s"

text \<open>The caches for which the allocator works: a slab has at most 64 slots, and a large object fits its block.\<close>

definition cache_ok :: "nat \<Rightarrow> 'm jslab \<Rightarrow> bool" where
  "cache_ok c s \<longleftrightarrow> c > 0x100000 \<and> 0 < sz c s
     \<and> (if small c s then order c s = 0 \<and> 0 < cap c s \<and> cap c s \<le> 64 \<and> sizeof_jslab + cap c s * sz c s \<le> PAGE_SIZE
        else sz c s \<le> 2 ^ order c s * PAGE_SIZE \<and> partial_list (cache s c) = [] \<and> full_list (cache s c) = [])"

definition slab_ok :: "nat \<Rightarrow> nat \<Rightarrow> 'm jslab \<Rightarrow> bool" where
  "slab_ok c p s \<longleftrightarrow> magic_number (header s p) = (JSLAB_MAGIC, JSLAB_MAGIC) \<and> cachep (header s p) = c
     \<and> (\<forall>i. bit (bits p s) i \<longrightarrow> i < cap c s) \<and> PageSlab s p \<and> \<not> PageLargePage s p
     \<and> (p \<in> set (partial_list (cache s c)) \<longrightarrow> (\<exists>i < cap c s. \<not> bit (bits p s) i))"

text \<open>The blocks of pages that the allocator holds, with the cache they belong to.\<close>

definition owned :: "nat set \<Rightarrow> (nat \<times> nat) set \<Rightarrow> 'm jslab \<Rightarrow> (nat \<times> nat \<times> nat) set" where
  "owned C live s = {(c, 0, p) | c p. c \<in> C \<and> small c s \<and> p \<in> set (slab_list c s)}
     \<union> {(c, order c s, p) | c p. c \<in> C \<and> \<not> small c s \<and> (p * PAGE_SIZE, c) \<in> live}"

definition live_ok :: "nat \<Rightarrow> nat \<Rightarrow> 'm jslab \<Rightarrow> bool" where
  "live_ok a c s \<longleftrightarrow> (if small c s then \<exists>p \<in> set (slab_list c s). \<exists>i. bit (bits p s) i \<and> a = slot c p i s
     else \<exists>p. a = p * PAGE_SIZE \<and> (\<forall>q \<in> block (order c s) p. PageLargePage s q \<and> PageSlab s q \<and> fs_inode s q = c))"

definition blocks_apart :: "(nat \<times> nat \<times> nat) set \<Rightarrow> bool" where
  "blocks_apart B \<longleftrightarrow> (\<forall>c k p d j q. (c, k, p) \<in> B \<longrightarrow> (d, j, q) \<in> B \<longrightarrow> (c, k, p) \<noteq> (d, j, q) \<longrightarrow> block k p \<inter> block j q = {})"

text \<open>\<open>E\<close> are slabs that may be empty for the moment, inside an operation.\<close>

definition slab_rel :: "('m \<Rightarrow> bool) \<Rightarrow> (nat \<Rightarrow> nat \<Rightarrow> 'm \<Rightarrow> bool) \<Rightarrow> nat set \<Rightarrow> (nat \<times> nat) set \<Rightarrow> nat set \<Rightarrow> 'm jslab \<Rightarrow> bool" where
  "slab_rel pinv pheld C live E s \<longleftrightarrow> pinv (page_mem s)
     \<and> (\<forall>c \<in> C. cache_ok c s \<and> distinct (slab_list c s) \<and> (\<forall>p \<in> set (slab_list c s). slab_ok c p s \<and> (p \<notin> E \<longrightarrow> bits p s \<noteq> 0)))
     \<and> (\<forall>c k p. (c, k, p) \<in> owned C live s \<longrightarrow> pheld k p (page_mem s)) \<and> blocks_apart (owned C live s)
     \<and> (\<forall>a c. (a, c) \<in> live \<longrightarrow> c \<in> C \<and> live_ok a c s)
     \<and> (\<forall>c \<in> C. small c s \<longrightarrow> (\<forall>p \<in> set (slab_list c s). \<forall>i. bit (bits p s) i \<longrightarrow> (slot c p i s, c) \<in> live))
     \<and> (\<forall>q. PageLargePage s q \<longrightarrow> (\<exists>c k p. (c, k, p) \<in> owned C live s \<and> \<not> small c s \<and> q \<in> block k p))"

lemma slab_relI:
  assumes "pinv (page_mem s)"
    and "\<And>c. c \<in> C \<Longrightarrow> cache_ok c s" "\<And>c. c \<in> C \<Longrightarrow> distinct (slab_list c s)"
    and "\<And>c p. c \<in> C \<Longrightarrow> p \<in> set (slab_list c s) \<Longrightarrow> slab_ok c p s"
    and "\<And>c p. c \<in> C \<Longrightarrow> p \<in> set (slab_list c s) \<Longrightarrow> p \<notin> E \<Longrightarrow> bits p s \<noteq> 0"
    and "\<And>c k p. (c, k, p) \<in> owned C live s \<Longrightarrow> pheld k p (page_mem s)" "blocks_apart (owned C live s)"
    and "\<And>a c. (a, c) \<in> live \<Longrightarrow> c \<in> C" "\<And>a c. (a, c) \<in> live \<Longrightarrow> live_ok a c s"
    and "\<And>c p i. c \<in> C \<Longrightarrow> small c s \<Longrightarrow> p \<in> set (slab_list c s) \<Longrightarrow> bit (bits p s) i \<Longrightarrow> (slot c p i s, c) \<in> live"
    and "\<And>q. PageLargePage s q \<Longrightarrow> \<exists>c k p. (c, k, p) \<in> owned C live s \<and> \<not> small c s \<and> q \<in> block k p"
  shows "slab_rel pinv pheld C live E s"
  unfolding slab_rel_def
  by (intro conjI ballI allI impI)
    (rule assms(1), erule assms(2), erule assms(3), erule (1) assms(4), erule (2) assms(5), erule assms(6), rule assms(7),
     erule assms(8), erule assms(9), erule (3) assms(10), erule assms(11))

lemma slab_relD:
  assumes "slab_rel pinv pheld C live E s"
  shows "pinv (page_mem s)" "c \<in> C \<Longrightarrow> cache_ok c s" "c \<in> C \<Longrightarrow> distinct (slab_list c s)"
    "c \<in> C \<Longrightarrow> p \<in> set (slab_list c s) \<Longrightarrow> slab_ok c p s"
    "c \<in> C \<Longrightarrow> p \<in> set (slab_list c s) \<Longrightarrow> p \<notin> E \<Longrightarrow> bits p s \<noteq> 0"
    "(c, k, p) \<in> owned C live s \<Longrightarrow> pheld k p (page_mem s)" "blocks_apart (owned C live s)"
    "(a, c) \<in> live \<Longrightarrow> c \<in> C" "(a, c) \<in> live \<Longrightarrow> live_ok a c s"
    "c \<in> C \<Longrightarrow> small c s \<Longrightarrow> p \<in> set (slab_list c s) \<Longrightarrow> bit (bits p s) i \<Longrightarrow> (slot c p i s, c) \<in> live"
    "PageLargePage s q \<Longrightarrow> \<exists>c k p. (c, k, p) \<in> owned C live s \<and> \<not> small c s \<and> q \<in> block k p"
  using assms unfolding slab_rel_def by (elim conjE; simp)+

text \<open>The counters and the object memory play no part.\<close>

lemma slab_rel_cong:
  assumes "page_mem s' = page_mem s" "header s' = header s" "PageSlab s' = PageSlab s" "PageLargePage s' = PageLargePage s"
    "fs_inode s' = fs_inode s" "\<And>c. sz c s' = sz c s" "\<And>c. cap c s' = cap c s" "\<And>c. order c s' = order c s"
    "\<And>c. partial_list (cache s' c) = partial_list (cache s c)" "\<And>c. full_list (cache s' c) = full_list (cache s c)"
  shows "slab_rel pinv pheld C live E s' = slab_rel pinv pheld C live E s"
proof -
  have "small c s' = small c s" "slab_list c s' = slab_list c s" "slot c p i s' = slot c p i s" for c p i
    by (simp_all add: small_def slab_list_def slot_def assms)
  then show ?thesis
    by (simp add: slab_rel_def cache_ok_def slab_ok_def owned_def live_ok_def assms)
qed

section \<open>Arithmetic of slots\<close>

lemma slot_page:
  assumes "cache_ok c s" "small c s" "i < cap c s"
  shows "slot c p i s div PAGE_SIZE = p" "slot c p i s mod PAGE_SIZE = sizeof_jslab + i * sz c s"
    "sizeof_jslab + i * sz c s + sz c s \<le> PAGE_SIZE"
proof -
  have "Suc i * sz c s \<le> cap c s * sz c s" using assms(3) by (intro mult_right_mono) simp_all
  then show le: "sizeof_jslab + i * sz c s + sz c s \<le> PAGE_SIZE" using assms(1,2) by (simp add: cache_ok_def)
  have "0 < sz c s" using assms(1) by (simp add: cache_ok_def)
  then have lt: "sizeof_jslab + i * sz c s < PAGE_SIZE" using le by linarith
  have eq: "slot c p i s = p * PAGE_SIZE + (sizeof_jslab + i * sz c s)" by (simp add: slot_def)
  show "slot c p i s div PAGE_SIZE = p" "slot c p i s mod PAGE_SIZE = sizeof_jslab + i * sz c s"
    unfolding eq using lt by simp_all
qed

lemma slot_inj:
  assumes "cache_ok c s" "small c s" "i < cap c s" "j < cap c s" "slot c p i s = slot c q j s"
  shows "p = q \<and> i = j"
proof -
  have "p = q" using slot_page(1) [OF assms(1-3), of p] slot_page(1) [OF assms(1,2,4), of q] assms(5) by simp
  moreover have "0 < sz c s" using assms(1) by (simp add: cache_ok_def)
  ultimately show ?thesis using assms(5) by (simp add: slot_def)
qed

lemma first_zero:
  "find_first_zero_bit w \<le> 64" "find_first_zero_bit w < 64 \<Longrightarrow> \<not> bit w (find_first_zero_bit w)"
  "i < find_first_zero_bit w \<Longrightarrow> bit w i"
proof -
  consider "find (\<lambda>i. \<not> bit w i) [0 ..< 64] = None" | j where "find (\<lambda>i. \<not> bit w i) [0 ..< 64] = Some j" by fastforce
  then have "find_first_zero_bit w \<le> 64 \<and> (find_first_zero_bit w < 64 \<longrightarrow> \<not> bit w (find_first_zero_bit w))
      \<and> (\<forall>i < find_first_zero_bit w. bit w i)"
  proof cases
    case 1
    then have "\<forall>i < 64. bit w i" by (simp add: find_None_iff)
    then show ?thesis using 1 by (simp add: find_first_zero_bit_def)
  next
    case (2 j)
    then have "j < 64 \<and> \<not> bit w j \<and> (\<forall>i < j. bit w i)" by (auto simp: find_Some_iff)
    then show ?thesis using 2 by (simp add: find_first_zero_bit_def)
  qed
  then show "find_first_zero_bit w \<le> 64" "find_first_zero_bit w < 64 \<Longrightarrow> \<not> bit w (find_first_zero_bit w)"
    "i < find_first_zero_bit w \<Longrightarrow> bit w i" by auto
qed

section \<open>Steps of the relation\<close>

lemma slab_small: "cache_ok c s \<Longrightarrow> p \<in> set (slab_list c s) \<Longrightarrow> small c s"
  by (auto simp: cache_ok_def slab_list_def split: if_splits)

lemma owned_slab: "c \<in> C \<Longrightarrow> cache_ok c s \<Longrightarrow> p \<in> set (slab_list c s) \<Longrightarrow> (c, 0, p) \<in> owned C live s"
  using slab_small by (auto simp: owned_def)

lemma slab_unique:
  assumes R: "slab_rel pinv pheld C live E s" and "c \<in> C" "d \<in> C" "p \<in> set (slab_list c s)" "p \<in> set (slab_list d s)"
  shows "c = d"
proof (rule ccontr)
  assume "c \<noteq> d"
  have "(c, 0, p) \<in> owned C live s" "(d, 0, p) \<in> owned C live s"
    using owned_slab slab_relD(2) [OF R] assms(2-5) by blast+
  then have "block 0 p \<inter> block 0 p = {}" using slab_relD(7) [OF R] \<open>c \<noteq> d\<close> unfolding blocks_apart_def by blast
  then show False by simp
qed

text \<open>A change of the map of one slab and, perhaps, its move to another list.\<close>

definition slab_change :: "nat set \<Rightarrow> 'm jslab \<Rightarrow> 'm jslab \<Rightarrow> nat \<Rightarrow> nat \<Rightarrow> u64 \<Rightarrow> bool" where
  "slab_change C s s' c p w \<longleftrightarrow> c \<in> C \<and> p \<in> set (slab_list c s)
     \<and> page_mem s' = page_mem s \<and> PageSlab s' = PageSlab s \<and> PageLargePage s' = PageLargePage s \<and> fs_inode s' = fs_inode s
     \<and> (\<forall>d. sz d s' = sz d s \<and> cap d s' = cap d s \<and> order d s' = order d s)
     \<and> (\<forall>d. d \<noteq> c \<longrightarrow> partial_list (cache s' d) = partial_list (cache s d) \<and> full_list (cache s' d) = full_list (cache s d))
     \<and> header s' = (header s)(p := (header s p)\<lparr>bitmap := w\<rparr>)
     \<and> distinct (slab_list c s') \<and> set (slab_list c s') = set (slab_list c s)
     \<and> set (partial_list (cache s' c)) \<subseteq> set (partial_list (cache s c))
     \<and> (\<forall>i. bit w i \<longrightarrow> i < cap c s) \<and> (p \<in> set (partial_list (cache s' c)) \<longrightarrow> (\<exists>i < cap c s. \<not> bit w i))"

lemma slab_changeD:
  assumes "slab_change C s s' c p w"
  shows "c \<in> C" "p \<in> set (slab_list c s)"
    "page_mem s' = page_mem s" "PageSlab s' = PageSlab s" "PageLargePage s' = PageLargePage s" "fs_inode s' = fs_inode s"
    "sz d s' = sz d s" "cap d s' = cap d s" "order d s' = order d s"
    "header s' = (header s)(p := (header s p)\<lparr>bitmap := w\<rparr>)"
    "bit w i \<Longrightarrow> i < cap c s" "p \<in> set (partial_list (cache s' c)) \<Longrightarrow> \<exists>i < cap c s. \<not> bit w i"
  using assms by (simp_all add: slab_change_def)

lemma slab_change_same:
  assumes "slab_change C s s' c p w"
  shows "small d s' = small d s" "slot d q i s' = slot d q i s" "set (slab_list d s') = set (slab_list d s)"
  "distinct (slab_list d s) \<Longrightarrow> distinct (slab_list d s')"
  "q \<in> set (partial_list (cache s' d)) \<Longrightarrow> q \<in> set (partial_list (cache s d))"
  "bits q s' = (if q = p then w else bits q s)"
  using assms by (cases "d = c"; auto simp: slab_change_def small_def slot_def slab_list_def)+

lemma slab_change_cache_ok:
  assumes R: "slab_rel pinv pheld C live E s" and ch: "slab_change C s s' c p w" and d: "d \<in> C"
  shows "cache_ok d s'"
proof -
  have "\<not> small d s \<Longrightarrow> slab_list d s' = []"
    using slab_change_same(3) [OF ch, of d] slab_relD(2) [OF R d] by (auto simp: cache_ok_def slab_list_def)
  then show ?thesis using slab_relD(2) [OF R d]
    by (auto simp: cache_ok_def slab_change_same [OF ch] slab_changeD [OF ch] slab_list_def)
qed

lemma slab_change_slab_ok:
  assumes R: "slab_rel pinv pheld C live E s" and ch: "slab_change C s s' c p w" and d: "d \<in> C" and q: "q \<in> set (slab_list d s')"
  shows "slab_ok d q s'"
proof -
  have q': "q \<in> set (slab_list d s)" using q by (simp add: slab_change_same [OF ch])
  note ok = slab_relD(4) [OF R d q'] and cp = slab_changeD(1,2) [OF ch]
  show ?thesis
  proof (cases "q = p")
    case True
    then have "d = c" using slab_unique [OF R d cp(1) q'] cp(2) by simp
    then show ?thesis using ok True slab_changeD(11,12) [OF ch] by (auto simp: slab_ok_def slab_changeD(4-10) [OF ch])
  next
    case False
    then show ?thesis using ok slab_change_same(5) [OF ch, of q d] by (auto simp: slab_ok_def slab_changeD(4-10) [OF ch])
  qed
qed

lemma slab_change_rel:
  assumes R: "slab_rel pinv pheld C live E s" and ch: "slab_change C s s' c p w"
    and live: "live' - {(a, c)} = live - {(a, c)}" and E: "\<And>q. q \<notin> E' \<Longrightarrow> q \<noteq> p \<Longrightarrow> q \<notin> E" "p \<notin> E' \<Longrightarrow> w \<noteq> 0"
    and new: "(a, c) \<in> live' \<Longrightarrow> \<exists>i. bit w i \<and> a = slot c p i s"
    and old: "\<And>i. bit w i \<Longrightarrow> (slot c p i s, c) \<in> live'"
    and rest: "\<And>q i. q \<noteq> p \<Longrightarrow> q \<in> set (slab_list c s) \<Longrightarrow> bit (bits q s) i \<Longrightarrow> slot c q i s \<noteq> a"
    and keep: "\<And>i. bit (bits p s) i \<Longrightarrow> slot c p i s \<noteq> a \<Longrightarrow> bit w i"
  shows "slab_rel pinv pheld C live' E' s'"
proof -
  note c = slab_changeD(1) [OF ch] and p = slab_changeD(2) [OF ch] and same = slab_change_same [OF ch] and frame = slab_changeD(3-10) [OF ch]
  have sm: "small c s" using slab_small slab_relD(2) [OF R] c p by blast
  have other: "(b, d) \<in> live' \<longleftrightarrow> (b, d) \<in> live" if "(b, d) \<noteq> (a, c)" for b d using live that by blast
  have own: "owned C live' s' = owned C live s"
  proof -
    have "(b, d) \<in> live' \<longleftrightarrow> (b, d) \<in> live" if "\<not> small d s" for b d using other [of b d] sm that by auto
    then show ?thesis by (auto simp: owned_def same frame)
  qed
  have live_in: "(b, d) \<in> live \<or> (b, d) = (a, c)" if "(b, d) \<in> live'" for b d using other that by blast
  show ?thesis
  proof (rule slab_relI)
    show "pinv (page_mem s')" using slab_relD(1) [OF R] by (simp add: frame)
    show "cache_ok d s'" "distinct (slab_list d s')" if "d \<in> C" for d
      using slab_change_cache_ok [OF R ch that] same(4) slab_relD(3) [OF R that] by blast+
    show "slab_ok d q s'" if "d \<in> C" "q \<in> set (slab_list d s')" for d q using slab_change_slab_ok [OF R ch that] .
    show "bits q s' \<noteq> 0" if "d \<in> C" "q \<in> set (slab_list d s')" "q \<notin> E'" for d q
      using that slab_relD(5) [OF R, of d q] E by (auto simp: same)
    show "pheld k q (page_mem s')" if "(d, k, q) \<in> owned C live' s'" for d k q
      using that slab_relD(6) [OF R] by (simp add: own frame)
    show "blocks_apart (owned C live' s')" using slab_relD(7) [OF R] by (simp add: own)
    show "d \<in> C" if "(b, d) \<in> live'" for b d using live_in [OF that] slab_relD(8) [OF R] c by auto
    show "live_ok b d s'" if bl: "(b, d) \<in> live'" for b d
    proof (cases "(b, d) = (a, c)")
      case True
      then show ?thesis using new bl sm p by (auto simp: live_ok_def same)
    next
      case False
      then have ok: "live_ok b d s" "d \<in> C" using other bl slab_relD(8,9) [OF R] by blast+
      show ?thesis
      proof (cases "small d s")
        case True
        then obtain q i where q: "q \<in> set (slab_list d s)" "bit (bits q s) i" "b = slot d q i s"
          using ok(1) by (auto simp: live_ok_def)
        have "q = p \<Longrightarrow> d = c" using slab_unique [OF R ok(2) c q(1)] p by simp
        then have "bit (bits q s') i" using q keep [of i] False by (cases "q = p") (auto simp: same)
        then show ?thesis using True q by (auto simp: live_ok_def same(1-3))
      next
        case f: False
        then show ?thesis using ok(1) by (auto simp: live_ok_def same frame)
      qed
    qed
    show "(slot d q i s', d) \<in> live'" if "d \<in> C" "small d s'" "q \<in> set (slab_list d s')" "bit (bits q s') i" for d q i
    proof (cases "q = p")
      case True
      then have "d = c" using slab_unique [OF R that(1) c] that(3) p by (simp add: same)
      then show ?thesis using old that(4) True by (simp add: same)
    next
      case False
      then have "(slot d q i s, d) \<in> live" using slab_relD(10) [OF R that(1)] that by (simp add: same)
      moreover have "(slot d q i s, d) \<noteq> (a, c)" using rest [OF False] that False by (auto simp: same)
      ultimately show ?thesis using other by (simp add: same)
    qed
    show "\<exists>d k r. (d, k, r) \<in> owned C live' s' \<and> \<not> small d s' \<and> q \<in> block k r" if "PageLargePage s' q" for q
      using slab_relD(11) [OF R, of q] that by (simp add: own same frame)
  qed
qed

lemma upd_simps [simp]:
  "page_mem (upd_cache c f s) = page_mem s" "header (upd_cache c f s) = header s" "PageSlab (upd_cache c f s) = PageSlab s"
  "PageLargePage (upd_cache c f s) = PageLargePage s" "fs_inode (upd_cache c f s) = fs_inode s"
  "cache (upd_cache c f s) = (cache s)(c := f (cache s c))" "bytes (upd_cache c f s) = bytes s" "stat_mallocs (upd_cache c f s) = stat_mallocs s"
  "page_mem (upd_header p h s) = page_mem s" "header (upd_header p h s) = (header s)(p := h (header s p))"
  "PageSlab (upd_header p h s) = PageSlab s" "PageLargePage (upd_header p h s) = PageLargePage s"
  "fs_inode (upd_header p h s) = fs_inode s" "cache (upd_header p h s) = cache s" "bytes (upd_header p h s) = bytes s"
  "stat_mallocs (upd_header p h s) = stat_mallocs s"
  "page_mem (ut_memset_bytes a n s) = page_mem s" "header (ut_memset_bytes a n s) = header s" "PageSlab (ut_memset_bytes a n s) = PageSlab s"
  "PageLargePage (ut_memset_bytes a n s) = PageLargePage s" "fs_inode (ut_memset_bytes a n s) = fs_inode s"
  "cache (ut_memset_bytes a n s) = cache s" "stat_mallocs (ut_memset_bytes a n s) = stat_mallocs s"
  by (simp_all add: upd_cache_def upd_header_def ut_memset_bytes_def)

section \<open>Taking and returning a slot\<close>

definition sizes_kept :: "'m jslab \<Rightarrow> 'm jslab \<Rightarrow> bool" where
  "sizes_kept s s' \<longleftrightarrow> (\<forall>d. sz d s' = sz d s \<and> cap d s' = cap d s \<and> order d s' = order d s)"

lemma sizes_kept_refl [simp]: "sizes_kept s s"
  by (simp add: sizes_kept_def)

lemma sizes_kept_trans: "sizes_kept s s1 \<Longrightarrow> sizes_kept s1 s2 \<Longrightarrow> sizes_kept s s2"
  by (simp add: sizes_kept_def)

lemma alloc_small_ok:
  assumes R: "slab_rel pinv pheld C live E s" and c: "c \<in> C" and part: "partial_list (cache s c) = p # ps" and E: "E \<subseteq> {p}"
  obtains a s' where "alloc_small c s = Some (Some a, s')" "slab_rel pinv pheld C (insert (a, c) live) {} s'" "(a, c) \<notin> live"
    "\<And>x. a \<le> x \<Longrightarrow> x < a + sz c s \<Longrightarrow> bytes s' x = 0" "sizes_kept s s'"
proof -
  have p: "p \<in> set (slab_list c s)" "p \<in> set (partial_list (cache s c))" by (simp_all add: slab_list_def part)
  note cok = slab_relD(2) [OF R c] and dis = slab_relD(3) [OF R c] and sok = slab_relD(4) [OF R c p(1)]
  have sm: "small c s" using slab_small [OF cok p(1)] .
  define i where "i = find_first_zero_bit (bits p s)"
  obtain j where j: "j < cap c s" "\<not> bit (bits p s) j" using sok p(2) by (auto simp: slab_ok_def)
  have i: "i < cap c s" "i < 64" "\<not> bit (bits p s) i"
  proof -
    have "i \<le> j" using first_zero(3) [of j "bits p s"] j(2) unfolding i_def by (meson not_le)
    then show "i < cap c s" "i < 64" using j(1) cok sm by (auto simp: cache_ok_def)
    then show "\<not> bit (bits p s) i" using first_zero(2) unfolding i_def by blast
  qed
  define w where "w = set_bit i (bits p s)"
  have bw: "bit w k \<longleftrightarrow> bit (bits p s) k \<or> k = i" for k using i(2) by (auto simp: w_def bit_set_bit_iff)
  define full where "full = (find_first_zero_bit w + 1 > cap c s)"
  define s1 where "s1 = upd_header p (\<lambda>h. h\<lparr>bitmap := w\<rparr>) s"
  define s2 where "s2 = (if full then upd_cache c (\<lambda>x. x\<lparr>partial_list := tl (partial_list x), full_list := p # full_list x\<rparr>) s1 else s1)"
  define a where "a = slot c p i s"
  define s' where "s' = upd_cache c (\<lambda>x. x\<lparr>cstat_allocs := cstat_allocs x + 1\<rparr>)
      ((ut_memset_bytes a (sz c s) (upd_cache c (\<lambda>x. x\<lparr>stat_total_objs := stat_total_objs x + 1\<rparr>) s2))\<lparr>stat_mallocs := stat_mallocs s2 + 1\<rparr>)"
  have fld: "sz d s2 = sz d s" "cap d s2 = cap d s" "order d s2 = order d s" for d by (simp_all add: s2_def s1_def)
  have ch: "slab_change C s s2 c p w"
    unfolding slab_change_def
  proof (intro conjI allI impI)
    have pp: "p \<notin> set ps" using dis by (simp add: slab_list_def part)
    show "p \<in> set (partial_list (cache s2 c)) \<Longrightarrow> \<exists>i < cap c s. \<not> bit w i"
    proof -
      assume "p \<in> set (partial_list (cache s2 c))"
      then have "\<not> full" using pp by (auto simp: s2_def s1_def part)
      then have "find_first_zero_bit w < cap c s" by (simp add: full_def)
      moreover from this have "find_first_zero_bit w < 64" using cok sm by (auto simp: cache_ok_def)
      ultimately show ?thesis using first_zero(2) by blast
    qed
    show "distinct (slab_list c s2)" using dis by (auto simp: slab_list_def s2_def s1_def part)
    show "bit w k \<Longrightarrow> k < cap c s" for k using sok i(1) by (auto simp: bw slab_ok_def)
  qed (use c p in \<open>auto simp: s2_def s1_def slab_list_def part\<close>)
  have fresh: "(a, c) \<notin> live"
  proof
    assume "(a, c) \<in> live"
    then obtain q k where q: "q \<in> set (slab_list c s)" "bit (bits q s) k" "a = slot c q k s"
      using slab_relD(9) [OF R] sm by (fastforce simp: live_ok_def)
    then have "k < cap c s" using slab_relD(4) [OF R c] by (auto simp: slab_ok_def)
    then show False using slot_inj [OF cok sm i(1) _, of k p q] q i(3) by (auto simp: a_def)
  qed
  have R2: "slab_rel pinv pheld C (insert (a, c) live) {} s2"
  proof (rule slab_change_rel [OF R ch])
    show "insert (a, c) live - {(a, c)} = live - {(a, c)}" by blast
    show "w \<noteq> 0" using bw [of i] by auto
    show "\<And>q. q \<notin> {} \<Longrightarrow> q \<noteq> p \<Longrightarrow> q \<notin> E" using E by blast
    show "(slot c p k s, c) \<in> insert (a, c) live" if "bit w k" for k
      using slab_relD(10) [OF R c sm p(1), of k] that by (auto simp: bw a_def)
    show "slot c q k s \<noteq> a" if "q \<noteq> p" "q \<in> set (slab_list c s)" "bit (bits q s) k" for q k
      using slab_relD(10) [OF R c sm that(2,3)] fresh by auto
  qed (auto simp: bw a_def)
  have "slab_rel pinv pheld C (insert (a, c) live) {} s'"
    using R2 by (subst slab_rel_cong [of _ s2]) (simp_all add: s'_def)
  moreover have "alloc_small c s = Some (Some a, s')"
  proof -
    have magic: "magic_number (header s p) = (JSLAB_MAGIC, JSLAB_MAGIC)" "c > 0x100000" using sok cok by (simp_all add: slab_ok_def cache_ok_def)
    have wset: "map_set_bit i (bits p s) = Some w" using i(2) by (simp add: map_set_bit_def w_def)
    show ?thesis
      using magic wset unfolding s'_def s2_def s1_def full_def a_def i_def
      by (simp add: alloc_small_def part sanity_check_def Let_def slot_def)
  qed
  moreover have "bytes s' x = 0" if "a \<le> x" "x < a + sz c s" for x using that by (simp add: s'_def ut_memset_bytes_def)
  moreover have "sizes_kept s s'" by (simp add: sizes_kept_def s'_def fld)
  ultimately show thesis using that fresh by blast
qed

lemma clear_slot:
  assumes R: "slab_rel pinv pheld C live {} s" and a: "(a, c) \<in> live" and sm: "small c s"
  obtains p i where "p = a div PAGE_SIZE" "a mod PAGE_SIZE = sizeof_jslab + i * sz c s" "i < 64" "bit (bits p s) i" "p \<in> set (slab_list c s)"
    "slab_rel pinv pheld C (live - {(a, c)}) {p} (upd_header p (\<lambda>h. h\<lparr>bitmap := unset_bit i (bitmap h)\<rparr>) s)"
    "i < cap c s"
proof -
  have c: "c \<in> C" using slab_relD(8) [OF R a] .
  note cok = slab_relD(2) [OF R c]
  obtain p i where p: "p \<in> set (slab_list c s)" "bit (bits p s) i" "a = slot c p i s"
    using slab_relD(9) [OF R a] sm by (auto simp: live_ok_def)
  note sok = slab_relD(4) [OF R c p(1)]
  have i: "i < cap c s" "i < 64" using sok p(2) cok sm by (auto simp: slab_ok_def cache_ok_def)
  define w where "w = unset_bit i (bits p s)"
  have bw: "bit w k \<longleftrightarrow> bit (bits p s) k \<and> k \<noteq> i" for k by (auto simp: w_def bit_unset_bit_iff)
  define s1 where "s1 = upd_header p (\<lambda>h. h\<lparr>bitmap := unset_bit i (bitmap h)\<rparr>) s"
  have "slab_change C s s1 c p w"
    unfolding slab_change_def
  proof (intro conjI allI impI)
    show "bit w k \<Longrightarrow> k < cap c s" for k using sok by (auto simp: bw slab_ok_def)
    show "\<exists>k < cap c s. \<not> bit w k" using i(1) bw [of i] by auto
    show "distinct (slab_list c s1)" using slab_relD(3) [OF R c] by (simp add: slab_list_def s1_def)
  qed (use c p in \<open>auto simp: s1_def slab_list_def w_def\<close>)
  then have "slab_rel pinv pheld C (live - {(a, c)}) {p} s1"
  proof (rule slab_change_rel [OF R])
    show "(slot c p k s, c) \<in> live - {(a, c)}" if "bit w k" for k
    proof -
      have k: "bit (bits p s) k" "k \<noteq> i" using that by (auto simp: bw)
      then have "k < cap c s" using sok by (auto simp: slab_ok_def)
      then have "slot c p k s \<noteq> a" using slot_inj [OF cok sm _ i(1), of k p p] k(2) p(3) by auto
      then show ?thesis using slab_relD(10) [OF R c sm p(1) k(1)] by simp
    qed
    show "slot c q k s \<noteq> a" if q: "q \<noteq> p" "q \<in> set (slab_list c s)" "bit (bits q s) k" for q k
    proof -
      have "k < cap c s" using slab_relD(4) [OF R c q(2)] q(3) by (auto simp: slab_ok_def)
      then show ?thesis using slot_inj [OF cok sm _ i(1), of k q p] q(1) p(3) by auto
    qed
  qed (auto simp: bw p(3))
  then show thesis
    using that [of p i] slot_page(1,2) [OF cok sm i(1), of p] p i unfolding s1_def by simp
qed

lemma live_ok_kept:
  assumes "live_ok b d s" "small d s' = small d s" "\<And>q i. slot d q i s' = slot d q i s" "\<And>q. small d s \<Longrightarrow> bits q s' = bits q s"
    "slab_list d s' = slab_list d s" "order d s' = order d s"
    "\<And>r q. \<not> small d s \<Longrightarrow> b = r * PAGE_SIZE \<Longrightarrow> q \<in> block (order d s) r \<Longrightarrow> PageLargePage s q \<Longrightarrow> PageLargePage s' q"
    "\<And>r q. \<not> small d s \<Longrightarrow> b = r * PAGE_SIZE \<Longrightarrow> q \<in> block (order d s) r \<Longrightarrow> PageSlab s q \<Longrightarrow> PageSlab s' q"
    "\<And>r q. \<not> small d s \<Longrightarrow> b = r * PAGE_SIZE \<Longrightarrow> q \<in> block (order d s) r \<Longrightarrow> fs_inode s' q = fs_inode s q"
  shows "live_ok b d s'"
proof (cases "small d s")
  case True
  then show ?thesis using assms(1-6) by (simp add: live_ok_def)
next
  case False
  then obtain r where r: "b = r * PAGE_SIZE" "\<forall>q \<in> block (order d s) r. PageLargePage s q \<and> PageSlab s q \<and> fs_inode s q = d"
    using assms(1) by (auto simp: live_ok_def)
  then have "\<forall>q \<in> block (order d s) r. PageLargePage s' q \<and> PageSlab s' q \<and> fs_inode s' q = d"
    using assms(7-9) [OF False r(1)] by simp
  then show ?thesis using r(1) False assms(2,6) unfolding live_ok_def by auto
qed

section \<open>Taking and returning pages\<close>

text \<open>
  The same with the page allocator below. What it has to guarantee is the interface \<open>page_source\<close>, for every value of the flags.
\<close>

locale slab_pages =
  fixes pinv :: "'m \<Rightarrow> bool" and pfree :: "'m \<Rightarrow> nat set" and pheld :: "nat \<Rightarrow> nat \<Rightarrow> 'm \<Rightarrow> bool"
    and get :: "u32 \<Rightarrow> nat \<Rightarrow> 'm \<Rightarrow> (nat option \<times> 'm) option" and put :: "nat \<Rightarrow> nat \<Rightarrow> 'm \<Rightarrow> 'm option"
  assumes source: "page_source pinv pfree pheld (get g) put"
begin

lemmas get_returns = page_source.get_returns [OF source]
  and get_some = page_source.get_some [OF source]
  and get_keeps_held = page_source.get_keeps_held [OF source]
  and put_ok = page_source.put_ok [OF source]
  and put_keeps_held = page_source.put_keeps_held [OF source]
  and held_not_free = page_source.held_not_free [OF source]

lemma get_inv: "pinv m \<Longrightarrow> get g k m = Some (r, m') \<Longrightarrow> pinv m'"
  using get_returns [of m g k] by auto

lemma new_block_apart:
  assumes R: "slab_rel pinv pheld C live E s" and g: "get g k (page_mem s) = Some (Some p, m)" and o: "(d, j, q) \<in> owned C live s"
  shows "block k p \<inter> block j q = {}" "pheld j q m"
proof -
  note inv = slab_relD(1) [OF R] and h = slab_relD(6) [OF R o]
  have "block k p \<subseteq> pfree (page_mem s)" using get_some [OF inv g] by blast
  then show "block k p \<inter> block j q = {}" using held_not_free [OF inv h] by blast
  show "pheld j q m" using get_keeps_held [OF inv g h] .
qed

lemma pages_only_rel:
  assumes R: "slab_rel pinv pheld C live E s" and g: "get g k (page_mem s) = Some (r, m)"
  shows "slab_rel pinv pheld C live E (s\<lparr>page_mem := m\<rparr>)"
proof -
  have "pinv m" using get_inv [OF slab_relD(1) [OF R] g] .
  moreover have "pheld j q m" if "(d, j, q) \<in> owned C live s" for d j q
    using get_keeps_held [OF slab_relD(1) [OF R] g slab_relD(6) [OF R that]] .
  moreover have basic: "small d (s\<lparr>page_mem := m\<rparr>) = small d s" "slab_list d (s\<lparr>page_mem := m\<rparr>) = slab_list d s"
    "slot d q i (s\<lparr>page_mem := m\<rparr>) = slot d q i s" for d q i by (simp_all add: small_def slab_list_def slot_def)
  moreover have "cache_ok d (s\<lparr>page_mem := m\<rparr>) = cache_ok d s" "slab_ok d q (s\<lparr>page_mem := m\<rparr>) = slab_ok d q s"
    "owned C live (s\<lparr>page_mem := m\<rparr>) = owned C live s" "live_ok q d (s\<lparr>page_mem := m\<rparr>) = live_ok q d s" for d q
    by (simp_all add: cache_ok_def slab_ok_def owned_def live_ok_def basic)
  ultimately show ?thesis using R by (simp add: slab_rel_def)
qed

lemma not_large_outside:
  assumes R: "slab_rel pinv pheld C live E s" and "\<And>d j q. (d, j, q) \<in> owned C live s \<Longrightarrow> r \<notin> block j q"
  shows "\<not> PageLargePage s r"
  using slab_relD(11) [OF R] assms(2) by blast

lemma getpages_ok:
  assumes R: "slab_rel pinv pheld C live {} s" and c: "c \<in> C" and sm: "small c s" and emp: "partial_list (cache s c) = []"
  obtains (none) s' where "getpages get c s = Some s'" "slab_rel pinv pheld C live {} s'" "partial_list (cache s' c) = []" "sizes_kept s s'"
    | (slab) p s' where "getpages get c s = Some s'" "slab_rel pinv pheld C live {p} s'" "partial_list (cache s' c) = [p]" "sizes_kept s s'"
proof -
  note cok = slab_relD(2) [OF R c]
  have o0: "order c s = 0" using cok sm by (simp add: cache_ok_def)
  obtain r m where g: "get (cflags (cache s c)) 0 (page_mem s) = Some (r, m)"
    using get_returns [OF slab_relD(1) [OF R]] by blast
  show thesis
  proof (cases r)
    case None
    then show thesis using none [of "s\<lparr>page_mem := m\<rparr>"] pages_only_rel [OF R g] g o0 emp
      by (simp add: getpages_def Let_def sizes_kept_def)
  next
    case (Some p)
    note g' = g [unfolded Some] and apart = new_block_apart [OF R g [unfolded Some]]
    define s' where "s' = (upd_cache c (\<lambda>x. x\<lparr>partial_list := p # partial_list x, stat_total_pages := stat_total_pages x + 2 ^ 0\<rparr>)
        (upd_header p (\<lambda>_. \<lparr>magic_number = (JSLAB_MAGIC, JSLAB_MAGIC), cachep = c, bitmap = 0\<rparr>) (s\<lparr>page_mem := m\<rparr>)))
        \<lparr>PageSlab := set_flags (PageSlab s) 0 p True\<rparr>"
    have call: "getpages get c s = Some s'" using g' o0 by (simp add: getpages_def Let_def s'_def)
    have pm: "page_mem s' = m" by (simp add: s'_def)
    have new: "\<And>d. d \<in> C \<Longrightarrow> p \<notin> set (slab_list d s)" "\<not> PageLargePage s p"
      using apart(1) owned_slab slab_relD(2) [OF R] not_large_outside [OF R] by fastforce+
    have sl: "slab_list d s' = (if d = c then p # slab_list c s else slab_list d s)" for d by (simp add: s'_def slab_list_def)
    have same: "small d s' = small d s" "slot d q i s' = slot d q i s" "q \<noteq> p \<Longrightarrow> header s' q = header s q"
      "PageLargePage s' = PageLargePage s" "fs_inode s' = fs_inode s" "sz d s' = sz d s" "cap d s' = cap d s" "order d s' = order d s"
      "PageSlab s q \<Longrightarrow> PageSlab s' q" "q \<noteq> p \<Longrightarrow> q \<in> set (partial_list (cache s' d)) \<longleftrightarrow> q \<in> set (partial_list (cache s d))" for d q i
      by (auto simp: s'_def small_def slot_def set_flags_def)
    have own: "owned C live s' = insert (c, 0, p) (owned C live s)"
      using c sm by (auto simp: owned_def same sl)
    have "slab_rel pinv pheld C live {p} s'"
    proof (rule slab_relI)
      show "pinv (page_mem s')" using get_inv [OF slab_relD(1) [OF R] g] pm by simp
      show "cache_ok d s'" if d: "d \<in> C" for d
        using slab_relD(2) [OF R d] sm by (auto simp: cache_ok_def same) (auto simp: s'_def split: if_splits)
      show "distinct (slab_list d s')" if "d \<in> C" for d using slab_relD(3) [OF R that] new(1) [OF that] by (auto simp: sl)
      show "slab_ok d q s'" if d: "d \<in> C" and q: "q \<in> set (slab_list d s')" for d q
      proof (cases "q = p")
        case True
        then have "d = c" using q new(1) [OF d] by (auto simp: sl split: if_splits)
        then show ?thesis using True new(2) cok sm
          by (auto simp: slab_ok_def same cache_ok_def) (auto simp: s'_def set_flags_def)
      next
        case False
        then have "q \<in> set (slab_list d s)" using q by (auto simp: sl split: if_splits)
        from slab_relD(4) [OF R d this] show ?thesis using False by (simp add: slab_ok_def same)
      qed
      show "bits q s' \<noteq> 0" if "d \<in> C" "q \<in> set (slab_list d s')" "q \<notin> {p}" for d q
        using that slab_relD(5) [OF R, of d q] by (auto simp: sl same split: if_splits)
      show "pheld k q (page_mem s')" if "(d, k, q) \<in> owned C live s'" for d k q
        using that apart(2) get_some [OF slab_relD(1) [OF R] g'] by (auto simp: own pm)
      show "blocks_apart (owned C live s')"
        using slab_relD(7) [OF R] apart(1) unfolding own blocks_apart_def by (auto simp del: block_0) blast+
      show "d \<in> C" if "(b, d) \<in> live" for b d using slab_relD(8) [OF R that] .
      show "live_ok b d s'" if bd: "(b, d) \<in> live" for b d
      proof (cases "small d s")
        case True
        then obtain q i where q: "q \<in> set (slab_list d s)" "bit (bits q s) i" "b = slot d q i s"
          using slab_relD(9) [OF R bd] by (auto simp: live_ok_def)
        then have "q \<noteq> p" "q \<in> set (slab_list d s')" using new(1) [OF slab_relD(8) [OF R bd]] by (auto simp: sl)
        moreover from this(1) have "bit (bits q s') i" using q(2) same(3) by simp
        ultimately show ?thesis using True q(3) unfolding live_ok_def same(1,2) by auto
      qed (use slab_relD(9) [OF R bd] in \<open>auto simp: live_ok_def same\<close>)
      show "(slot d q i s', d) \<in> live" if "d \<in> C" "small d s'" "q \<in> set (slab_list d s')" "bit (bits q s') i" for d q i
      proof -
        have "q \<noteq> p" using that(4) by (auto simp: s'_def)
        then show ?thesis using that slab_relD(10) [OF R that(1), of q i] by (auto simp: same sl split: if_splits)
      qed
      show "\<exists>d k r. (d, k, r) \<in> owned C live s' \<and> \<not> small d s' \<and> q \<in> block k r" if "PageLargePage s' q" for q
        using slab_relD(11) [OF R, of q] that unfolding own same by blast
    qed
    then show thesis using slab [of s' p] call emp by (simp add: s'_def sizes_kept_def)
  qed
qed

lemma put_block:
  assumes R: "slab_rel pinv pheld C live E s" and o: "(c, k, p) \<in> owned C live s"
  obtains m where "put k p (page_mem s) = Some m" "pinv m"
    "\<And>d j q. (d, j, q) \<in> owned C live s \<Longrightarrow> (d, j, q) \<noteq> (c, k, p) \<Longrightarrow> pheld j q m"
proof -
  note inv = slab_relD(1) [OF R] and h = slab_relD(6) [OF R o]
  obtain m where m: "put k p (page_mem s) = Some m" "pinv m" using put_ok [OF inv h] by blast
  moreover have "pheld j q m" if "(d, j, q) \<in> owned C live s" "(d, j, q) \<noteq> (c, k, p)" for d j q
  proof -
    have "block j q \<inter> block k p = {}" using slab_relD(7) [OF R] that o unfolding blocks_apart_def by blast
    then show ?thesis using put_keeps_held [OF inv h m(1) slab_relD(6) [OF R that(1)]] by blast
  qed
  ultimately show thesis using that by blast
qed

lemma blocks_apart_mono: "blocks_apart B \<Longrightarrow> A \<subseteq> B \<Longrightarrow> blocks_apart A"
  unfolding blocks_apart_def by blast

lemma freepages_ok:
  assumes R: "slab_rel pinv pheld C live {p} s" and c: "c \<in> C" and p: "p \<in> set (slab_list c s)" and b: "bits p s = 0"
  obtains s' where "freepages put c p s = Some s'" "slab_rel pinv pheld C live {} s'" "sizes_kept s s'" "header s' = header s"
proof -
  note cok = slab_relD(2) [OF R c] and sok = slab_relD(4) [OF R c p]
  have sm: "small c s" using slab_small [OF cok p] .
  have o0: "order c s = 0" using cok sm by (simp add: cache_ok_def)
  obtain m where m: "put 0 p (page_mem s) = Some m" "pinv m"
    "\<And>d j q. (d, j, q) \<in> owned C live s \<Longrightarrow> (d, j, q) \<noteq> (c, 0, p) \<Longrightarrow> pheld j q m"
    using put_block [OF R owned_slab [OF c cok p]] by metis
  define s1 where "s1 = upd_cache c (\<lambda>x. x\<lparr>partial_list := remove1 p (partial_list x), full_list := remove1 p (full_list x)\<rparr>) s"
  define s' where "s' = (upd_cache c (\<lambda>x. x\<lparr>stat_total_pages := stat_total_pages x - 2 ^ 0\<rparr>)
      (s1\<lparr>PageSlab := set_flags (PageSlab s1) 0 p False\<rparr>))\<lparr>page_mem := m\<rparr>"
  have call: "freepages put c p s = Some s'"
    using sok p m(1) b o0 by (simp add: freepages_def s'_def s1_def slab_ok_def slab_list_def Let_def)
  have sl: "set (slab_list d s') = set (slab_list d s) - (if d = c then {p} else {})"
    "distinct (slab_list d s) \<Longrightarrow> distinct (slab_list d s')" if "d \<in> C" for d
    using slab_relD(3) [OF R c] by (auto simp: s'_def s1_def slab_list_def dest: notin_set_remove1)
  have same: "small d s' = small d s" "slot d q i s' = slot d q i s" "header s' = header s"
    "PageLargePage s' = PageLargePage s" "fs_inode s' = fs_inode s" "sz d s' = sz d s" "cap d s' = cap d s" "order d s' = order d s"
    "q \<noteq> p \<Longrightarrow> PageSlab s' q = PageSlab s q" "page_mem s' = m"
    "q \<in> set (partial_list (cache s' d)) \<Longrightarrow> q \<in> set (partial_list (cache s d))" for d q i
    by (auto simp: s'_def s1_def small_def slot_def set_flags_def split: if_splits dest: set_remove1_subset [THEN subsetD])
  have pc: "d = c" if "d \<in> C" "p \<in> set (slab_list d s)" for d using slab_unique [OF R that(1) c that(2) p] .
  have own: "owned C live s' = owned C live s - {(c, 0, p)}"
    using sm by (auto simp: owned_def same sl split: if_splits)
  have "slab_rel pinv pheld C live {} s'"
  proof (rule slab_relI)
    show "pinv (page_mem s')" using m(2) by (simp add: same)
    show "cache_ok d s'" if d: "d \<in> C" for d
      using slab_relD(2) [OF R d] sm by (auto simp: cache_ok_def same) (auto simp: s'_def s1_def)
    show "distinct (slab_list d s')" if "d \<in> C" for d using sl(2) [OF that] slab_relD(3) [OF R that] by blast
    show "slab_ok d q s'" if d: "d \<in> C" and q: "q \<in> set (slab_list d s')" for d q
    proof -
      have q': "q \<in> set (slab_list d s)" "q \<noteq> p" using q pc [OF d] by (auto simp: sl [OF d] split: if_splits)
      then show ?thesis using slab_relD(4) [OF R d q'(1)] same(11) [of q d] by (auto simp: slab_ok_def same)
    qed
    show "bits q s' \<noteq> 0" if d: "d \<in> C" and q: "q \<in> set (slab_list d s')" for d q
      using slab_relD(5) [OF R d, of q] q pc [OF d] by (auto simp: sl [OF d] same split: if_splits)
    show "pheld k q (page_mem s')" if "(d, k, q) \<in> owned C live s'" for d k q using that m(3) unfolding own same by blast
    show "blocks_apart (owned C live s')" using slab_relD(7) [OF R] by (rule blocks_apart_mono) (simp add: own)
    show "d \<in> C" if "(x, d) \<in> live" for x d using slab_relD(8) [OF R that] .
    show "live_ok x d s'" if xd: "(x, d) \<in> live" for x d
    proof (cases "small d s")
      case True
      note d = slab_relD(8) [OF R xd]
      obtain q i where q: "q \<in> set (slab_list d s)" "bit (bits q s) i" "x = slot d q i s"
        using slab_relD(9) [OF R xd] True by (auto simp: live_ok_def)
      moreover from q(2) have "q \<noteq> p" using b by auto
      ultimately show ?thesis using True by (auto simp: live_ok_def same sl [OF d])
    next
      case False
      then obtain r where r: "x = r * PAGE_SIZE" "\<forall>q \<in> block (order d s) r. PageLargePage s q \<and> PageSlab s q \<and> fs_inode s q = d"
        using slab_relD(9) [OF R xd] by (auto simp: live_ok_def)
      moreover have "q \<noteq> p" if "q \<in> block (order d s) r" for q using r(2) sok that by (auto simp: slab_ok_def)
      ultimately show ?thesis using False by (auto simp: live_ok_def same)
    qed
    show "(slot d q i s', d) \<in> live" if d: "d \<in> C" and "small d s'" "q \<in> set (slab_list d s')" "bit (bits q s') i" for d q i
      using that slab_relD(10) [OF R d, of q i] by (auto simp: same sl [OF d])
    show "\<exists>d k r. (d, k, r) \<in> owned C live s' \<and> \<not> small d s' \<and> q \<in> block k r" if "PageLargePage s' q" for q
      using slab_relD(11) [OF R, of q] that sm unfolding own same by blast
  qed
  then show thesis using that call by (auto simp: same sizes_kept_def)
qed

lemma free_small_ok:
  assumes R: "slab_rel pinv pheld C live {} s" and a: "(a, c) \<in> live" and sm: "small c s"
  obtains s' where "free_obj put a s = Some s'" "slab_rel pinv pheld C (live - {(a, c)}) {} s'" "sizes_kept s s'"
proof -
  note c = slab_relD(8) [OF R a]
  from clear_slot [OF R a sm] obtain p i where p: "p = a div PAGE_SIZE" "a mod PAGE_SIZE = sizeof_jslab + i * sz c s" "i < 64" "bit (bits p s) i"
    "p \<in> set (slab_list c s)"
    "slab_rel pinv pheld C (live - {(a, c)}) {p} (upd_header p (\<lambda>h. h\<lparr>bitmap := unset_bit i (bitmap h)\<rparr>) s)"
    "i < cap c s" .
  note sok = slab_relD(4) [OF R c p(5)] and cok = slab_relD(2) [OF R c]
  define s1 where "s1 = upd_header p (\<lambda>h. h\<lparr>bitmap := unset_bit i (bitmap h)\<rparr>) s"
  have R1: "slab_rel pinv pheld C (live - {(a, c)}) {p} s1" and p1: "p \<in> set (slab_list c s1)" and k1: "sizes_kept s s1"
    using p(5,6) by (simp_all add: s1_def slab_list_def sizes_kept_def)
  obtain s2 where s2: "(if bits p s1 = 0 then freepages put c p s1 else Some s1) = Some s2"
    "slab_rel pinv pheld C (live - {(a, c)}) {} s2" "sizes_kept s1 s2" "header s2 = header s1"
  proof (cases "bits p s1 = 0")
    case True
    show thesis by (rule freepages_ok [OF R1 c p1 True]) (use that True in simp)
  next
    case False
    then have "slab_rel pinv pheld C (live - {(a, c)}) {} s1" using R1 unfolding slab_rel_def by auto
    then show thesis using that False by simp
  qed
  define s' where "s' = (upd_cache c (\<lambda>x. x\<lparr>stat_total_objs := stat_total_objs x - 1, cstat_frees := cstat_frees x + 1\<rparr>) s2)
    \<lparr>stat_mfrees := stat_mfrees s2 + 1\<rparr>"
  have "slab_rel pinv pheld C (live - {(a, c)}) {} s'"
    using s2(2) by (subst slab_rel_cong [of _ s2]) (simp_all add: s'_def)
  moreover have "sizes_kept s s'" using k1 s2(3) by (simp add: sizes_kept_def s'_def)
  moreover have "free_obj put a s = Some s'"
  proof -
    have "0 < sz c s" "c > 0x100000" using cok by (simp_all add: cache_ok_def)
    moreover have "magic_number (header s2 p) = (JSLAB_MAGIC, JSLAB_MAGIC)" using sok s2(4) by (simp add: slab_ok_def s1_def)
    moreover have "stat_mfrees (upd_cache c f s2) = stat_mfrees s2" for f and s2 :: "'m jslab" by (simp add: upd_cache_def)
    ultimately show ?thesis
      using sok p(1-4) s2(1) unfolding s1_def s'_def
      by (cases "unset_bit i (bits p s) = 0") (auto simp: free_obj_def free_small_def sanity_check_def slab_ok_def Let_def)
  qed
  ultimately show thesis using that by blast
qed

lemma alloc_large_ok:
  assumes R: "slab_rel pinv pheld C live {} s" and c: "c \<in> C" and lg: "\<not> small c s"
  obtains (none) s' where "alloc_large get c s = Some (None, s')" "slab_rel pinv pheld C live {} s'" "sizes_kept s s'"
    | (object) a s' where "alloc_large get c s = Some (Some a, s')" "slab_rel pinv pheld C (insert (a, c) live) {} s'" "(a, c) \<notin> live"
      "sizes_kept s s'"
proof -
  define k where "k = order c s"
  obtain r m where g: "get 0 k (page_mem s) = Some (r, m)" using get_returns [OF slab_relD(1) [OF R]] by blast
  show thesis
  proof (cases r)
    case None
    then show thesis using none [of "s\<lparr>page_mem := m\<rparr>"] pages_only_rel [OF R g] g
      by (simp add: alloc_large_def Let_def sizes_kept_def k_def)
  next
    case (Some p)
    note g' = g [unfolded Some] and apart = new_block_apart [OF R g [unfolded Some]]
    define s' where "s' = upd_cache c (\<lambda>x. x\<lparr>cstat_allocs := cstat_allocs x + 1, stat_total_objs := stat_total_objs x + 1\<rparr>)
        (s\<lparr>page_mem := m, PageLargePage := set_flags (PageLargePage s) k p True, PageSlab := set_flags (PageSlab s) k p True,
          fs_inode := (\<lambda>q. if q \<in> block k p then c else fs_inode s q)\<rparr>)"
    let ?live = "insert (p * PAGE_SIZE, c) live"
    have call: "alloc_large get c s = Some (Some (p * PAGE_SIZE), s')" using g' by (simp add: alloc_large_def Let_def s'_def k_def cong: if_cong)
    have same: "small d s' = small d s" "slot d q i s' = slot d q i s" "header s' = header s" "slab_list d s' = slab_list d s"
      "sz d s' = sz d s" "cap d s' = cap d s" "order d s' = order d s" "page_mem s' = m"
      "partial_list (cache s' d) = partial_list (cache s d)" "full_list (cache s' d) = full_list (cache s d)" for d q i
      by (simp_all add: s'_def small_def slot_def slab_list_def)
    have flg: "PageLargePage s' q = (q \<in> block k p \<or> PageLargePage s q)" "PageSlab s' q = (q \<in> block k p \<or> PageSlab s q)"
      "fs_inode s' q = (if q \<in> block k p then c else fs_inode s q)" for q by (simp_all add: s'_def set_flags_def)
    have own: "owned C ?live s' = insert (c, k, p) (owned C live s)"
      using c lg by (auto simp: owned_def same k_def)
    have ext: "q \<notin> block k p" if "d \<in> C" "q \<in> set (slab_list d s)" for d q
      using apart(1) [OF owned_slab [OF that(1) slab_relD(2) [OF R that(1)] that(2)]] by auto
    have fresh: "(p * PAGE_SIZE, c) \<notin> live"
    proof
      assume "(p * PAGE_SIZE, c) \<in> live"
      then have "(c, k, p) \<in> owned C live s" using c lg by (auto simp: owned_def k_def)
      then show False using apart(1) by fastforce
    qed
    have "slab_rel pinv pheld C ?live {} s'"
    proof (rule slab_relI)
      show "pinv (page_mem s')" using get_inv [OF slab_relD(1) [OF R] g] by (simp add: same)
      show "cache_ok d s'" if "d \<in> C" for d using slab_relD(2) [OF R that] by (simp add: cache_ok_def same)
      show "distinct (slab_list d s')" if "d \<in> C" for d using slab_relD(3) [OF R that] by (simp add: same)
      show "slab_ok d q s'" if "d \<in> C" "q \<in> set (slab_list d s')" for d q
        using slab_relD(4) [OF R that(1), of q] that(2) ext [OF that(1), of q] by (simp add: slab_ok_def same flg)
      show "bits q s' \<noteq> 0" if "d \<in> C" "q \<in> set (slab_list d s')" for d q using slab_relD(5) [OF R that(1), of q] that(2) by (simp add: same)
      show "pheld j q (page_mem s')" if "(d, j, q) \<in> owned C ?live s'" for d j q
        using that apart(2) get_some [OF slab_relD(1) [OF R] g'] by (auto simp: own same)
      show "blocks_apart (owned C ?live s')"
        using slab_relD(7) [OF R] apart(1) unfolding own blocks_apart_def by (auto simp del: block_0) blast+
      show "d \<in> C" if "(b, d) \<in> ?live" for b d using slab_relD(8) [OF R, of b d] that c by auto
      show "live_ok b d s'" if "(b, d) \<in> ?live" for b d
      proof (cases "(b, d) = (p * PAGE_SIZE, c)")
        case True
        then show ?thesis using lg by (auto simp: live_ok_def same flg k_def simp del: block_0)
      next
        case False
        then have l: "(b, d) \<in> live" using that by blast
        show ?thesis
        proof (rule live_ok_kept [OF slab_relD(9) [OF R l]])
          fix r q assume r: "\<not> small d s" "b = r * PAGE_SIZE" "q \<in> block (order d s) r"
          then have "(d, order d s, r) \<in> owned C live s" using l slab_relD(8) [OF R l] by (auto simp: owned_def)
          then show "PageLargePage s q \<Longrightarrow> PageLargePage s' q" "PageSlab s q \<Longrightarrow> PageSlab s' q" "fs_inode s' q = fs_inode s q"
            using apart(1) r(3) by (auto simp: flg simp del: block_0)
        qed (simp_all add: same)
      qed
      show "(slot d q i s', d) \<in> ?live" if "d \<in> C" "small d s'" "q \<in> set (slab_list d s')" "bit (bits q s') i" for d q i
        using that slab_relD(10) [OF R that(1), of q i] by (simp add: same)
      show "\<exists>d j r. (d, j, r) \<in> owned C ?live s' \<and> \<not> small d s' \<and> q \<in> block j r" if "PageLargePage s' q" for q
        using slab_relD(11) [OF R, of q] that lg unfolding own same flg by blast
    qed
    then show thesis using object [OF call] fresh by (simp add: same sizes_kept_def)
  qed
qed

lemma free_large_ok:
  assumes R: "slab_rel pinv pheld C live {} s" and a: "(a, c) \<in> live" and lg: "\<not> small c s"
  obtains s' where "free_obj put a s = Some s'" "slab_rel pinv pheld C (live - {(a, c)}) {} s'" "sizes_kept s s'"
proof -
  define k where "k = order c s"
  have c: "c \<in> C" using slab_relD(8) [OF R a] .
  obtain p where p: "a = p * PAGE_SIZE" "\<forall>q \<in> block k p. PageLargePage s q \<and> PageSlab s q \<and> fs_inode s q = c"
    using slab_relD(9) [OF R a] lg by (auto simp: live_ok_def k_def)
  have o: "(c, k, p) \<in> owned C live s" using a c lg by (auto simp: owned_def k_def p(1))
  obtain m where m: "put k p (page_mem s) = Some m" "pinv m"
      "\<And>d j q. (d, j, q) \<in> owned C live s \<Longrightarrow> (d, j, q) \<noteq> (c, k, p) \<Longrightarrow> pheld j q m"
    using put_block [OF R o] by blast
  have pin: "p \<in> block k p" by (simp add: block_def)
  have cpos: "c \<noteq> 0" using slab_relD(2) [OF R c] by (simp add: cache_ok_def)
  define s' where "s' = upd_cache c (\<lambda>x. x\<lparr>cstat_frees := cstat_frees x + 1, stat_total_objs := stat_total_objs x - 1\<rparr>)
      (s\<lparr>PageLargePage := set_flags (PageLargePage s) k p False, PageSlab := set_flags (PageSlab s) k p False,
        fs_inode := (\<lambda>q. if q \<in> block k p then 0 else fs_inode s q), page_mem := m\<rparr>)"
  let ?live = "live - {(a, c)}"
  have call: "free_obj put a s = Some s'"
    using p(2) pin m(1) cpos by (auto simp: free_obj_def free_large_def Let_def kassert_def p(1) s'_def k_def [symmetric] block_def)
  have same: "small d s' = small d s" "slot d q i s' = slot d q i s" "header s' = header s" "slab_list d s' = slab_list d s"
    "sz d s' = sz d s" "cap d s' = cap d s" "order d s' = order d s" "page_mem s' = m"
    "partial_list (cache s' d) = partial_list (cache s d)" "full_list (cache s' d) = full_list (cache s d)" for d q i
    by (simp_all add: s'_def small_def slot_def slab_list_def)
  have flg: "PageLargePage s' q = (q \<notin> block k p \<and> PageLargePage s q)" "PageSlab s' q = (q \<notin> block k p \<and> PageSlab s q)"
    "fs_inode s' q = (if q \<in> block k p then 0 else fs_inode s q)" for q by (simp_all add: s'_def set_flags_def)
  have own: "owned C ?live s' = owned C live s - {(c, k, p)}"
    using lg by (auto simp: owned_def same k_def p(1))
  have apart: "block j q \<inter> block k p = {}" if "(d, j, q) \<in> owned C live s" "(d, j, q) \<noteq> (c, k, p)" for d j q
    using slab_relD(7) [OF R] o that unfolding blocks_apart_def by blast
  have ext: "q \<notin> block k p" if "d \<in> C" "q \<in> set (slab_list d s)" for d q
    using slab_relD(4) [OF R that] p(2) by (auto simp: slab_ok_def)
  have "slab_rel pinv pheld C ?live {} s'"
  proof (rule slab_relI)
    show "pinv (page_mem s')" by (simp add: same m)
    show "cache_ok d s'" if "d \<in> C" for d using slab_relD(2) [OF R that] by (simp add: cache_ok_def same)
    show "distinct (slab_list d s')" if "d \<in> C" for d using slab_relD(3) [OF R that] by (simp add: same)
    show "slab_ok d q s'" if "d \<in> C" "q \<in> set (slab_list d s')" for d q
      using slab_relD(4) [OF R that(1), of q] that(2) ext [OF that(1), of q] by (simp add: slab_ok_def same flg)
    show "bits q s' \<noteq> 0" if "d \<in> C" "q \<in> set (slab_list d s')" for d q using slab_relD(5) [OF R that(1), of q] that(2) by (simp add: same)
    show "pheld j q (page_mem s')" if "(d, j, q) \<in> owned C ?live s'" for d j q using that m(3) unfolding own same by blast
    show "blocks_apart (owned C ?live s')" using slab_relD(7) [OF R] by (rule blocks_apart_mono) (simp add: own)
    show "d \<in> C" if "(b, d) \<in> ?live" for b d using slab_relD(8) [OF R, of b d] that by simp
    show "live_ok b d s'" if bd: "(b, d) \<in> ?live" for b d
    proof (rule live_ok_kept [of b d s])
      show "live_ok b d s" using slab_relD(9) [OF R, of b d] bd by simp
      fix r q assume r: "\<not> small d s" "b = r * PAGE_SIZE" "q \<in> block (order d s) r"
      then have "(d, order d s, r) \<in> owned C live s" "(d, order d s, r) \<noteq> (c, k, p)"
        using bd slab_relD(8) [OF R, of b d] by (auto simp: owned_def p(1))
      then show "PageLargePage s q \<Longrightarrow> PageLargePage s' q" "PageSlab s q \<Longrightarrow> PageSlab s' q" "fs_inode s' q = fs_inode s q"
        using apart r(3) by (auto simp: flg simp del: block_0)
    qed (simp_all add: same)
    show "(slot d q i s', d) \<in> ?live" if "d \<in> C" "small d s'" "q \<in> set (slab_list d s')" "bit (bits q s') i" for d q i
      using that slab_relD(10) [OF R that(1), of q i] lg by (auto simp: same)
    show "\<exists>d j r. (d, j, r) \<in> owned C ?live s' \<and> \<not> small d s' \<and> q \<in> block j r" if "PageLargePage s' q" for q
      using slab_relD(11) [OF R, of q] that unfolding own same flg by blast
  qed
  then show thesis using that [OF call] by (simp add: same sizes_kept_def)
qed

section \<open>The operations\<close>

theorem alloc_obj_ok:
  assumes R: "slab_rel pinv pheld C live {} s" and c: "c \<in> C"
  obtains (none) s' where "alloc_obj get c s = Some (None, s')" "slab_rel pinv pheld C live {} s'" "sizes_kept s s'"
    | (object) a s' where "alloc_obj get c s = Some (Some a, s')" "slab_rel pinv pheld C (insert (a, c) live) {} s'" "(a, c) \<notin> live"
      "sizes_kept s s'"
proof (cases "small c s")
  case False
  have op: "alloc_obj get c s = alloc_large get c s" using False by (simp add: alloc_obj_def small_def)
  show thesis by (rule alloc_large_ok [OF R c False]) (use none object in \<open>simp_all add: op\<close>)
next
  case True
  note op = alloc_obj_def [of get c s] and sm = True [unfolded small_def]
  show thesis
  proof (cases "partial_list (cache s c)")
    case (Cons p ps)
    from alloc_small_ok [OF R c Cons empty_subsetI] obtain a s' where "alloc_small c s = Some (Some a, s')"
      "slab_rel pinv pheld C (insert (a, c) live) {} s'" "(a, c) \<notin> live" "sizes_kept s s'" .
    then show thesis using object [of a s'] sm Cons by (simp add: op)
  next
    case Nil
    show thesis
    proof (rule getpages_ok [OF R c True Nil])
      fix s1 assume "getpages get c s = Some s1" "slab_rel pinv pheld C live {} s1" "partial_list (cache s1 c) = []" "sizes_kept s s1"
      then show thesis using none [of s1] sm Nil by (simp add: op alloc_small_def)
    next
      fix p s1
      assume slab: "getpages get c s = Some s1" "slab_rel pinv pheld C live {p} s1" "partial_list (cache s1 c) = [p]" "sizes_kept s s1"
      from alloc_small_ok [OF slab(2) c slab(3) order_refl] obtain a s' where "alloc_small c s1 = Some (Some a, s')"
        "slab_rel pinv pheld C (insert (a, c) live) {} s'" "(a, c) \<notin> live" "sizes_kept s1 s'" .
      then show thesis using object [of a s'] sm Nil slab(1) sizes_kept_trans [OF slab(4)] by (simp add: op)
    qed
  qed
qed

theorem free_obj_ok:
  assumes R: "slab_rel pinv pheld C live {} s" and a: "(a, c) \<in> live"
  obtains s' where "free_obj put a s = Some s'" "slab_rel pinv pheld C (live - {(a, c)}) {} s'" "sizes_kept s s'"
  using free_small_ok [OF R a] free_large_ok [OF R a] by metis

end

section \<open>Live objects do not overlap\<close>

definition obj_bytes :: "nat \<Rightarrow> nat \<Rightarrow> 'm jslab \<Rightarrow> nat set" where
  "obj_bytes a c s = {a ..< a + sz c s}"

lemma live_block:
  assumes R: "slab_rel pinv pheld C live {} s" and a: "(a, c) \<in> live"
  obtains k p where "(c, k, p) \<in> owned C live s" "p * PAGE_SIZE \<le> a" "a + sz c s \<le> (p + 2 ^ k) * PAGE_SIZE"
    "if small c s then \<exists>i < cap c s. a = slot c p i s else a = p * PAGE_SIZE"
proof -
  have c: "c \<in> C" using slab_relD(8) [OF R a] .
  note cok = slab_relD(2) [OF R c]
  show thesis
  proof (cases "small c s")
    case True
    then obtain p i where p: "p \<in> set (slab_list c s)" "bit (bits p s) i" "a = slot c p i s"
      using slab_relD(9) [OF R a] by (auto simp: live_ok_def)
    then have i: "i < cap c s" using slab_relD(4) [OF R c p(1)] by (simp add: slab_ok_def)
    show thesis
      using that [of 0 p] owned_slab [OF c cok p(1)] slot_page(3) [OF cok True i] True i p(3)
      by (auto simp: slot_def algebra_simps)
  next
    case False
    then obtain p where p: "a = p * PAGE_SIZE" using slab_relD(9) [OF R a] by (auto simp: live_ok_def)
    show thesis
      using that [of "order c s" p] False a c cok p by (auto simp: owned_def cache_ok_def algebra_simps)
  qed
qed

lemma byte_page:
  assumes "p * PAGE_SIZE \<le> a" "b \<le> (p + 2 ^ k) * PAGE_SIZE" "x \<in> {a ..< b}"
  shows "x div PAGE_SIZE \<in> block k p"
proof -
  have "p * PAGE_SIZE \<le> x" "x < (p + 2 ^ k) * PAGE_SIZE" using assms by auto
  then have "p \<le> x div PAGE_SIZE" "x div PAGE_SIZE < p + 2 ^ k"
    by (simp_all add: less_eq_div_iff_mult_less_eq div_less_iff_less_mult)
  then show ?thesis by (simp add: block_def)
qed

lemma slots_apart:
  assumes "i \<noteq> j"
  shows "{slot c p i s ..< slot c p i s + sz c s} \<inter> {slot c p j s ..< slot c p j s + sz c s} = {}"
proof -
  have "x + 1 \<le> y \<Longrightarrow> x * sz c s + sz c s \<le> y * sz c s" for x y
    using mult_right_mono [of "x + 1" y "sz c s"] by simp
  from this [of i j] this [of j i] assms show ?thesis by (auto simp: slot_def not_less dest!: neq_iff [THEN iffD1])
qed

theorem live_disjoint:
  assumes R: "slab_rel pinv pheld C live {} s" and a: "(a, c) \<in> live" and b: "(b, d) \<in> live" and ne: "(a, c) \<noteq> (b, d)"
  shows "obj_bytes a c s \<inter> obj_bytes b d s = {}"
proof -
  obtain k p where p: "(c, k, p) \<in> owned C live s" "p * PAGE_SIZE \<le> a" "a + sz c s \<le> (p + 2 ^ k) * PAGE_SIZE"
    "if small c s then \<exists>i < cap c s. a = slot c p i s else a = p * PAGE_SIZE"
    using live_block [OF R a] by blast
  obtain j q where q: "(d, j, q) \<in> owned C live s" "q * PAGE_SIZE \<le> b" "b + sz d s \<le> (q + 2 ^ j) * PAGE_SIZE"
    "if small d s then \<exists>i < cap d s. b = slot d q i s else b = q * PAGE_SIZE"
    using live_block [OF R b] by blast
  show ?thesis
  proof (cases "(c, k, p) = (d, j, q)")
    case True
    then have "small c s" using ne p(4) q(4) by (auto split: if_splits)
    then obtain i i' where "a = slot c p i s" "b = slot c p i' s" using True p(4) q(4) by auto
    then show ?thesis using slots_apart [of i i' c p s] True ne by (cases "i = i'") (auto simp: obj_bytes_def)
  next
    case False
    then have "block k p \<inter> block j q = {}" using slab_relD(7) [OF R] p(1) q(1) unfolding blocks_apart_def by blast
    then show ?thesis
      using byte_page [OF p(2,3)] byte_page [OF q(2,3)] unfolding obj_bytes_def by blast
  qed
qed

section \<open>The slab allocator on the buddy allocator\<close>

interpretation slab_buddy: slab_pages buddy_inv free_pages held_block alloc_block free_block
  by unfold_locales

end
