(* ===== verification/Jslab_Runs.thy ===== *)
theory Jslab_Runs
  imports Jslab_Correct
begin

text \<open>
  The properties of the slab allocator on top of the buddy allocator: the caches that boot creates, allocation and release,
  runs of them, and the cache of 32-byte objects, whose slabs have more slots than the map has bits.
\<close>

section \<open>What the operations write\<close>

lemma alloc_small_bytes:
  "alloc_small c s = Some (r, s') \<Longrightarrow>
   bytes s' = (case r of None \<Rightarrow> bytes s | Some a \<Rightarrow> (\<lambda>x. if a \<le> x \<and> x < a + sz c s then 0 else bytes s x))"
  unfolding alloc_small_def
  by (auto simp: Let_def ut_memset_bytes_def upd_cache_def upd_header_def map_set_bit_def sanity_check_def kassert_def
      split: list.splits if_splits option.splits bind_splits)

lemma getpages_bytes: "getpages get c s = Some s' \<Longrightarrow> bytes s' = bytes s \<and> sz d s' = sz d s"
  unfolding getpages_def
  by (auto simp: Let_def upd_cache_def upd_header_def split: option.splits bind_splits prod.splits)

lemma alloc_obj_bytes:
  assumes "alloc_obj get c s = Some (r, s')"
  shows "bytes s' x = (case r of Some a \<Rightarrow> if small c s \<and> a \<le> x \<and> x < a + sz c s then 0 else bytes s x | None \<Rightarrow> bytes s x)"
proof (cases "small c s")
  case True
  then obtain s1 where "alloc_small c s1 = Some (r, s')" "bytes s1 = bytes s" "sz c s1 = sz c s"
    using assms getpages_bytes [of get c s] by (auto simp: alloc_obj_def small_def split: if_splits bind_splits)
  then show ?thesis using alloc_small_bytes [of c s1 r s'] True by (simp split: option.splits)
next
  case False
  then show ?thesis using assms
    by (auto simp: alloc_obj_def small_def alloc_large_def Let_def upd_cache_def split: option.splits bind_splits prod.splits)
qed

lemma freepages_bytes: "freepages put c p s = Some s' \<Longrightarrow> bytes s' = bytes s"
  by (auto simp: freepages_def Let_def upd_cache_def split: if_splits bind_splits)

lemma free_small_bytes: "free_small put p off s = Some s' \<Longrightarrow> bytes s' = bytes s"
  by (auto simp: free_small_def Let_def upd_cache_def upd_header_def dest!: freepages_bytes split: if_splits bind_splits)

lemma free_obj_bytes: "free_obj put a s = Some s' \<Longrightarrow> bytes s' = bytes s"
  by (auto simp: free_obj_def free_large_def Let_def upd_cache_def dest: free_small_bytes split: if_splits bind_splits)

section \<open>Runs\<close>

text \<open>The state of a run is the set of live objects, with their caches, and the allocator.\<close>

datatype slab_op = AllocObj nat | FreeObj nat nat

fun slab_exec :: "slab_op \<Rightarrow> (nat \<times> nat) set \<times> memory jslab \<Rightarrow> ((nat \<times> nat) set \<times> memory jslab) option" where
  "slab_exec (AllocObj c) (live, s) = do {
     (r, s) \<leftarrow> jslab_alloc_from_cache alloc_block c s;
     Some (case r of None \<Rightarrow> live | Some a \<Rightarrow> insert (a, c) live, s) }"
| "slab_exec (FreeObj a c) (live, s) = do { s \<leftarrow> jslab_free2 free_block (Some a) s; Some (live - {(a, c)}, s) }"

fun slab_op_ok :: "nat set \<Rightarrow> slab_op \<Rightarrow> (nat \<times> nat) set \<times> memory jslab \<Rightarrow> bool" where
  "slab_op_ok C (AllocObj c) (live, s) \<longleftrightarrow> c \<in> C"
| "slab_op_ok C (FreeObj a c) (live, s) \<longleftrightarrow> (a, c) \<in> live"

definition slab_inv :: "nat set \<Rightarrow> (nat \<times> nat) set \<times> memory jslab \<Rightarrow> bool" where
  "slab_inv C = (\<lambda>(live, s). slab_rel buddy_inv held_block C live {} s)"

lemma alloc_from_cache_ok:
  assumes "slab_inv C (live, s)" "c \<in> C"
  obtains (none) s' where "jslab_alloc_from_cache alloc_block c s = Some (None, s')" "slab_inv C (live, s')" "sizes_kept s s'"
    | (object) a s' where "jslab_alloc_from_cache alloc_block c s = Some (Some a, s')" "slab_inv C (insert (a, c) live, s')"
      "(a, c) \<notin> live" "sizes_kept s s'"
proof -
  have R: "slab_rel buddy_inv held_block C live {} s" using assms(1) by (simp add: slab_inv_def)
  have "c \<noteq> 0" using slab_relD(2) [OF R assms(2)] by (simp add: cache_ok_def)
  then have op: "jslab_alloc_from_cache alloc_block c s = alloc_obj alloc_block c s" by (simp add: jslab_alloc_from_cache_def)
  show thesis by (rule slab_buddy.alloc_obj_ok [OF R assms(2)]) (use none object in \<open>simp_all add: op slab_inv_def\<close>)
qed

lemma free2_ok:
  assumes "slab_inv C (live, s)" "(a, c) \<in> live"
  obtains s' where "jslab_free2 free_block (Some a) s = Some s'" "slab_inv C (live - {(a, c)}, s')" "sizes_kept s s'"
proof -
  have R: "slab_rel buddy_inv held_block C live {} s" using assms(1) by (simp add: slab_inv_def)
  show thesis by (rule slab_buddy.free_obj_ok [OF R assms(2)]) (use that in \<open>simp add: jslab_free2_def slab_inv_def\<close>)
qed

interpretation slabs: machine slab_exec "slab_op_ok C" "slab_inv C" for C
proof unfold_locales
  fix t e assume I: "slab_inv C t" and ok: "slab_op_ok C e t"
  obtain live s where t: "t = (live, s)" by fastforce
  show "\<exists>t'. slab_exec e t = Some t' \<and> slab_inv C t'"
  proof (cases e)
    case (AllocObj c)
    then show ?thesis using ok by (auto simp: t elim!: alloc_from_cache_ok [OF I [unfolded t], of c])
  next
    case (FreeObj a c)
    then show ?thesis using ok by (auto simp: t elim!: free2_ok [OF I [unfolded t], of a c])
  qed
qed

text \<open>Objects that are live do not overlap, their pages are not free, and without them the caches hold no slab.\<close>

lemma slab_inv_disjoint:
  "slab_inv C (live, s) \<Longrightarrow> (a, c) \<in> live \<Longrightarrow> (b, d) \<in> live \<Longrightarrow> (a, c) \<noteq> (b, d) \<Longrightarrow> obj_bytes a c s \<inter> obj_bytes b d s = {}"
  unfolding slab_inv_def by (rule live_disjoint) auto

lemma slab_inv_not_free:
  assumes "slab_inv C (live, s)" "(a, c) \<in> live" "x \<in> obj_bytes a c s"
  shows "x div PAGE_SIZE \<notin> free_pages (page_mem s)"
proof -
  have R: "slab_rel buddy_inv held_block C live {} s" using assms(1) by (simp add: slab_inv_def)
  obtain k p where p: "(c, k, p) \<in> owned C live s" "p * PAGE_SIZE \<le> a" "a + sz c s \<le> (p + 2 ^ k) * PAGE_SIZE"
    using live_block [OF R assms(2)] by blast
  have "x div PAGE_SIZE \<in> block k p" using byte_page [OF p(2,3)] assms(3) by (simp add: obj_bytes_def)
  then show ?thesis using buddy.held_not_free [OF slab_relD(1) [OF R] slab_relD(6) [OF R p(1)]] by blast
qed

lemma slab_inv_no_leak:
  assumes "slab_inv C ({}, s)" "c \<in> C"
  shows "partial_list (cache s c) = [] \<and> full_list (cache s c) = []"
proof -
  have R: "slab_rel buddy_inv held_block C {} {} s" using assms(1) by (simp add: slab_inv_def)
  have False if p: "p \<in> set (slab_list c s)" for p
  proof -
    have "small c s" using slab_small [OF slab_relD(2) [OF R assms(2)] p] .
    moreover obtain i where "bit (bits p s) i"
      using slab_relD(5) [OF R assms(2) p] by (auto simp: bit_eq_iff)
    ultimately show False using slab_relD(10) [OF R assms(2) _ p] by blast
  qed
  then have "slab_list c s = []" by (metis list.set_sel(1))
  then show ?thesis by (simp add: slab_list_def)
qed

section \<open>The caches of boot\<close>

definition order_of :: "nat \<Rightarrow> nat" where
  "order_of n = (if n \<ge> PAGE_SIZE then log_n (n div PAGE_SIZE) else 0)"

definition cap_of :: "nat \<Rightarrow> nat" where
  "cap_of n = (if n \<ge> PAGE_SIZE then n else PAGE_SIZE - sizeof_jslab) div n"

definition new_cache :: "nat \<Rightarrow> jcache \<Rightarrow> bool" where
  "new_cache n x \<longleftrightarrow> partial_list x = [] \<and> full_list x = [] \<and> obj_size x = n \<and> page_order x = order_of n \<and> max_obj_per_slab x = cap_of n"

text \<open>The sizes for which a cache can be created, and those for which it works.\<close>

definition valid_size :: "nat \<Rightarrow> bool" where
  "valid_size n \<longleftrightarrow> 0 < n \<and> (n < PAGE_SIZE \<longrightarrow> n + sizeof_jslab \<le> PAGE_SIZE)"

definition good_size :: "nat \<Rightarrow> bool" where
  "good_size n \<longleftrightarrow> valid_size n \<and> (if n < PAGE_SIZE then cap_of n \<le> 64 else n \<le> 2 ^ order_of n * PAGE_SIZE)"

lemma new_cache_ok:
  assumes "good_size n" "new_cache n (cache s c)" "c > 0x100000"
  shows "cache_ok c s"
proof -
  have "0 < (PAGE_SIZE - sizeof_jslab) div n" if "n < PAGE_SIZE" "0 < n" "n + sizeof_jslab \<le> PAGE_SIZE"
    using that by (simp add: div_greater_zero_iff)
  moreover have "sizeof_jslab + (PAGE_SIZE - sizeof_jslab) div n * n \<le> PAGE_SIZE"
    using div_times_less_eq_dividend [of "PAGE_SIZE - sizeof_jslab" n] by (simp add: sizeof_jslab_def)
  ultimately show ?thesis using assms
    by (auto simp: cache_ok_def small_def new_cache_def good_size_def valid_size_def order_of_def cap_of_def split: if_splits)
qed

lemma create_jcache_ok:
  assumes "c \<noteq> 0" "valid_size n"
  obtains x where "create_jcache c n s = Some (JSUCCESS, s\<lparr>cache := (cache s)(c := x), cache_list := c # cache_list s\<rparr>)" "new_cache n x"
  using assms that
  by (auto simp: create_jcache_def Let_def upd_cache_def valid_size_def new_cache_def order_of_def cap_of_def sizeof_jslab_def
      split: if_splits)

lemma init_caches_ok:
  "c \<noteq> 0 \<Longrightarrow> \<forall>n \<in> set ns. valid_size n \<Longrightarrow> \<exists>f l. init_caches c ns s = Some (s\<lparr>cache := f, cache_list := l\<rparr>)
     \<and> (\<forall>i < length ns. new_cache (ns ! i) (f (c + i * sizeof_jcache))) \<and> (\<forall>d < c. f d = cache s d)"
proof (induction ns arbitrary: c s)
  case Nil
  have "init_caches c [] s = Some (s\<lparr>cache := cache s, cache_list := cache_list s\<rparr>)" by simp
  then show ?case by fastforce
next
  case (Cons n ns)
  obtain x where x: "create_jcache c n s = Some (JSUCCESS, s\<lparr>cache := (cache s)(c := x), cache_list := c # cache_list s\<rparr>)" "new_cache n x"
    using create_jcache_ok [of c n s] Cons.prems by auto
  let ?s = "s\<lparr>cache := (cache s)(c := x), cache_list := c # cache_list s\<rparr>" and ?c = "c + sizeof_jcache"
  obtain f l where f: "init_caches ?c ns ?s = Some (?s\<lparr>cache := f, cache_list := l\<rparr>)"
    "\<forall>i < length ns. new_cache (ns ! i) (f (?c + i * sizeof_jcache))" "\<forall>d < ?c. f d = cache ?s d"
    using Cons.IH [of ?c ?s] Cons.prems by auto
  have "f c = x" "\<forall>d < c. f d = cache s d" using f(3) by (auto simp: sizeof_jcache_def)
  moreover have "new_cache ((n # ns) ! i) (f (c + i * sizeof_jcache))" if "i < length (n # ns)" for i
    using that f(2) x(2) \<open>f c = x\<close> by (cases i) (auto simp: algebra_simps)
  ultimately show ?case using x(1) f(1) by (auto intro!: exI [of _ f] exI [of _ l])
qed

lemma log_n_power: "log_n (2 ^ k) = k"
proof -
  have "log_loop (2 ^ k) = Suc k" by (induction k) (simp_all add: log_loop.simps)
  then show ?thesis by (simp add: log_n_def)
qed

lemma good_size_pages: "good_size (PAGE_SIZE * 2 ^ k)"
  by (simp add: good_size_def valid_size_def order_of_def log_n_power)

lemma cache_sizes_valid: "\<forall>n \<in> set cache_sizes. valid_size n" "length cache_sizes = 19"
  by (auto simp: cache_sizes_def valid_size_def sizeof_jslab_def)

lemma cache_sizes_good:
  assumes "0 < i" "i < length cache_sizes"
  shows "good_size (cache_sizes ! i)"
proof -
  have "tl cache_sizes ! (i - 1) = cache_sizes ! i" using assms by (simp add: nth_tl)
  then have "cache_sizes ! i \<in> set (tl cache_sizes)" using assms by (metis Suc_pred diff_less_mono length_tl less_eq_Suc_le nth_mem One_nat_def)
  moreover have "\<forall>n \<in> set (tl cache_sizes). good_size n"
    by (auto simp: cache_sizes_def good_size_pages) (auto simp: good_size_def valid_size_def cap_of_def sizeof_jslab_def)
  ultimately show ?thesis by blast
qed

definition boot_caches :: "nat \<Rightarrow> nat set" where
  "boot_caches base = {base + i * sizeof_jcache | i. 0 < i \<and> i < length cache_sizes}"

lemma init_jslab_ok:
  assumes "base > 0x100000" "\<not> jslab_init_done s" "buddy_inv (page_mem s)" "\<And>q. \<not> PageLargePage s q"
  obtains s' where "init_jslab base s = Some (JSUCCESS, s')" "slab_inv (boot_caches base) ({}, s')" "page_mem s' = page_mem s"
    "\<And>i. i < length cache_sizes \<Longrightarrow> new_cache (cache_sizes ! i) (cache s' (base + i * sizeof_jcache))"
proof -
  let ?s = "s\<lparr>cache_list := [], cache := (\<lambda>c. if \<exists>i \<in> set [0 ..< MAX_PREDEFINED_CACHES]. c = base + i * sizeof_jcache
    then (cache s c)\<lparr>obj_size := 0\<rparr> else cache s c)\<rparr>"
  obtain f l where f: "init_caches base cache_sizes ?s = Some (?s\<lparr>cache := f, cache_list := l\<rparr>)"
    "\<forall>i < length cache_sizes. new_cache (cache_sizes ! i) (f (base + i * sizeof_jcache))"
    using init_caches_ok [OF _ cache_sizes_valid(1), of base ?s] assms(1) by auto
  define s' where "s' = s\<lparr>cache := f, cache_list := l, jslab_init_done := True\<rparr>"
  have ok: "cache_ok c s'" "slab_list c s' = []" if C: "c \<in> boot_caches base" for c
  proof -
    obtain i where i: "c = base + i * sizeof_jcache" "0 < i" "i < length cache_sizes" using C by (auto simp: boot_caches_def)
    have "good_size (cache_sizes ! i)" using cache_sizes_good i(2,3) by simp
    moreover have n: "new_cache (cache_sizes ! i) (cache s' c)" using f(2) i by (simp add: s'_def)
    ultimately show "cache_ok c s'" using assms(1) i(1) by (intro new_cache_ok) auto
    show "slab_list c s' = []" using n by (simp add: slab_list_def new_cache_def)
  qed
  have own: "owned (boot_caches base) {} s' = {}" by (auto simp: owned_def ok)
  have "slab_inv (boot_caches base) ({}, s')"
    unfolding slab_inv_def split_conv by (rule slab_relI) (auto simp: ok own blocks_apart_def, auto simp: s'_def assms)
  then show thesis using that [of s'] f assms(2) by (simp add: init_jslab_def s'_def)
qed

section \<open>A cache with more slots than bits\<close>

primrec alloc_n :: "'m get_pages \<Rightarrow> nat \<Rightarrow> nat \<Rightarrow> 'm jslab \<Rightarrow> 'm jslab option" where
  "alloc_n get c 0 s = Some s"
| "alloc_n get c (Suc n) s = do { s \<leftarrow> alloc_n get c n s; (r, s) \<leftarrow> alloc_obj get c s; Some s }"

definition filling :: "nat \<Rightarrow> nat \<Rightarrow> nat \<Rightarrow> 'm jslab \<Rightarrow> bool" where
  "filling c p n s \<longleftrightarrow> partial_list (cache s c) = [p] \<and> bits p s = mask n \<and> magic_number (header s p) = (JSLAB_MAGIC, JSLAB_MAGIC)
     \<and> sz c s < PAGE_SIZE \<and> 64 < cap c s \<and> c > 0x100000"

lemma first_zero_mask: "n \<le> 64 \<Longrightarrow> find_first_zero_bit (mask n) = n"
proof -
  assume n: "n \<le> 64"
  let ?z = "find_first_zero_bit (mask n)"
  note z = first_zero [where w = "mask n"]
  have "\<not> ?z < n"
  proof
    assume "?z < n"
    then show False using z(2) n by (simp add: bit_mask_iff)
  qed
  moreover have "\<not> n < ?z"
  proof
    assume "n < ?z"
    then have "bit (mask n :: u64) n" using z(3) by blast
    then show False by (simp add: bit_mask_iff)
  qed
  ultimately show ?thesis by simp
qed

lemma filling_step:
  assumes "filling c p n s" "n < 64"
  shows "\<exists>a s'. alloc_obj get c s = Some (Some a, s') \<and> filling c p (Suc n) s'"
proof -
  have w: "set_bit n (mask n) = (mask (Suc n) :: u64)"
    by (rule bit_eqI) (auto simp: bit_set_bit_iff bit_mask_iff)
  show ?thesis using assms first_zero_mask [of n] first_zero_mask [of "Suc n"]
    by (simp add: filling_def alloc_obj_def alloc_small_def sanity_check_def map_set_bit_def Let_def w
        upd_cache_def upd_header_def ut_memset_bytes_def)
qed

lemma filling_full: "filling c p 64 s \<Longrightarrow> alloc_obj get c s = None"
  using first_zero_mask [of 64]
  by (simp add: filling_def alloc_obj_def alloc_small_def sanity_check_def map_set_bit_def Let_def)

lemma filling_start:
  assumes "get (cflags (cache s c)) (order c s) (page_mem s) = Some (Some p, m)" "partial_list (cache s c) = []" "sz c s < PAGE_SIZE"
    "64 < cap c s" "c > 0x100000"
  shows "\<exists>a s'. alloc_obj get c s = Some (Some a, s') \<and> filling c p 1 s'"
proof -
  obtain s1 where s1: "getpages get c s = Some s1" "filling c p 0 s1"
    using assms by (simp add: getpages_def Let_def filling_def upd_cache_def upd_header_def)
  then have "alloc_obj get c s = alloc_obj get c s1" using assms(2,3) by (simp add: alloc_obj_def filling_def)
  then show ?thesis using filling_step [OF s1(2), of get] by simp
qed

lemma alloc_n_filling:
  assumes "get (cflags (cache s c)) (order c s) (page_mem s) = Some (Some p, m)" "partial_list (cache s c) = []" "sz c s < PAGE_SIZE"
    "64 < cap c s" "c > 0x100000" "n < 64"
  shows "\<exists>s'. alloc_n get c (Suc n) s = Some s' \<and> filling c p (Suc n) s'"
  using assms(6)
proof (induction n)
  case 0
  then show ?case using filling_start [of get s c p m] assms by auto
next
  case (Suc n)
  then obtain s1 where "alloc_n get c (Suc n) s = Some s1" "filling c p (Suc n) s1" by auto
  then show ?case using filling_step [of c p "Suc n" s1 get] Suc.prems by auto
qed

section \<open>A small machine\<close>

definition blank_cache :: jcache where
  "blank_cache = \<lparr>partial_list = [], full_list = [], obj_size = 0, cflags = 0, page_order = 0, max_obj_per_slab = 0,
     stat_total_objs = 0, stat_total_pages = 0, cstat_allocs = 0, cstat_frees = 0\<rparr>"

definition blank_slab :: "memory jslab" where
  "blank_slab = \<lparr>page_mem = small_memory, header = (\<lambda>_. \<lparr>magic_number = (0, 0), cachep = 0, bitmap = 0\<rparr>), PageSlab = (\<lambda>_. False),
     PageLargePage = (\<lambda>_. False), fs_inode = (\<lambda>_. 0), cache = (\<lambda>_. blank_cache), cache_list = [], bytes = (\<lambda>_. 7),
     stat_mallocs = 0, stat_mfrees = 0, jslab_init_done = False\<rparr>"

lemma blank_slab_boots:
  "\<exists>s. init_jslab 0x200000 blank_slab = Some (JSUCCESS, s) \<and> slab_inv (boot_caches 0x200000) ({}, s)
     \<and> page_mem s = small_memory \<and> new_cache 32 (cache s 0x200000)"
proof (rule init_jslab_ok [of "0x200000" blank_slab])
  fix s assume s: "init_jslab 0x200000 blank_slab = Some (JSUCCESS, s)" "slab_inv (boot_caches 0x200000) ({}, s)"
    "page_mem s = page_mem blank_slab"
    "\<And>i. i < length cache_sizes \<Longrightarrow> new_cache (cache_sizes ! i) (cache s (0x200000 + i * sizeof_jcache))"
  have "new_cache 32 (cache s 0x200000)" using s(4) [of 0] by (simp add: cache_sizes_def)
  then show ?thesis using s(1-3) by (auto simp: blank_slab_def)
qed (simp_all add: blank_slab_def small_memory_inv)

lemma second_cache: "0x200000 + sizeof_jcache \<in> boot_caches 0x200000"
  unfolding boot_caches_def by (auto simp: cache_sizes_valid(2) intro!: exI [of _ 1])

section \<open>Properties\<close>

text \<open>
  C34: from a state of the slab allocator that satisfies the invariant, every sequence of allocations from its caches and of
  releases of live objects runs to its end: no assertion fails, in the slab allocator or in the page allocator below. The
  invariant holds at the end, no two live objects share a byte, no byte of a live object is in a page that the page allocator
  holds free, and when every object has been released no cache is left with a slab.
\<close>

theorem slab_runs_safe:
  assumes "slab_inv C (live, s)" "legal_run slab_exec (slab_op_ok C) ops (live, s)"
  shows "\<exists>live' s'. run_ops slab_exec ops (live, s) = Some (live', s') \<and> slab_inv C (live', s')
    \<and> (\<forall>a c b d. (a, c) \<in> live' \<longrightarrow> (b, d) \<in> live' \<longrightarrow> (a, c) \<noteq> (b, d) \<longrightarrow> obj_bytes a c s' \<inter> obj_bytes b d s' = {})
    \<and> (\<forall>a c x. (a, c) \<in> live' \<longrightarrow> x \<in> obj_bytes a c s' \<longrightarrow> x div PAGE_SIZE \<notin> free_pages (page_mem s'))
    \<and> (live' = {} \<longrightarrow> (\<forall>c \<in> C. partial_list (cache s' c) = [] \<and> full_list (cache s' c) = []))"
proof -
  obtain live' s' where r: "run_ops slab_exec ops (live, s) = Some (live', s')" and I: "slab_inv C (live', s')"
    using slabs.run_keeps_inv [OF assms] by fastforce
  show ?thesis
    using r I slab_inv_disjoint [OF I] slab_inv_not_free [OF I] slab_inv_no_leak [of C s'] by blast
qed

theorem slab_runs_safe_witness:
  "\<exists>s live' s'. init_jslab 0x200000 blank_slab = Some (JSUCCESS, s)
    \<and> run_ops slab_exec [AllocObj (0x200000 + sizeof_jcache), AllocObj (0x200000 + sizeof_jcache)] ({}, s) = Some (live', s')"
proof -
  obtain s where s: "init_jslab 0x200000 blank_slab = Some (JSUCCESS, s)" "slab_inv (boot_caches 0x200000) ({}, s)"
    using blank_slab_boots by blast
  have "legal_run slab_exec (slab_op_ok (boot_caches 0x200000))
      [AllocObj (0x200000 + sizeof_jcache), AllocObj (0x200000 + sizeof_jcache)] ({}, s)"
    using second_cache by (auto simp del: slab_exec.simps split: option.splits)
  from slab_runs_safe [OF s(2) this] show ?thesis using s(1) by blast
qed



text \<open>
  C36: the first \<open>init_jslab\<close> succeeds and creates well-formed caches of all the predefined sizes, none of which has a slab: the
  order of pages holds a large object, the slots of a slab end before the page does, and for every size but the first, 32, the
  slots of a slab fit the 64-bit map. The invariant of the slab allocator holds for all of these with no object live. A second
  call fails and changes nothing.
\<close>

theorem init_jslab_well_formed:
  assumes "base > 0x100000" "\<not> jslab_init_done s" "buddy_inv (page_mem s)" "\<forall>q. \<not> PageLargePage s q"
  shows "\<exists>s'. init_jslab base s = Some (JSUCCESS, s') \<and> slab_inv (boot_caches base) ({}, s')
    \<and> (\<forall>i < length cache_sizes. new_cache (cache_sizes ! i) (cache s' (base + i * sizeof_jcache)))
    \<and> (\<forall>c \<in> boot_caches base. cache_ok c s') \<and> max_obj_per_slab (cache s' base) = 127
    \<and> init_jslab base s' = Some (JFAIL, s')"
proof (rule init_jslab_ok [of base s])
  fix s' assume s': "init_jslab base s = Some (JSUCCESS, s')" "slab_inv (boot_caches base) ({}, s')" "page_mem s' = page_mem s"
    "\<And>i. i < length cache_sizes \<Longrightarrow> new_cache (cache_sizes ! i) (cache s' (base + i * sizeof_jcache))"
  have "new_cache 32 (cache s' base)" using s'(4) [of 0] by (simp add: cache_sizes_def)
  then have "max_obj_per_slab (cache s' base) = 127" by (simp add: new_cache_def cap_of_def sizeof_jslab_def)
  moreover have "\<forall>c \<in> boot_caches base. cache_ok c s'" using s'(2) slab_relD(2) unfolding slab_inv_def by blast
  moreover have "init_jslab base s' = Some (JFAIL, s')"
    using s'(1) by (auto simp: init_jslab_def split: if_splits bind_splits)
  ultimately show ?thesis using s' by blast
qed (use assms in auto)

theorem init_jslab_well_formed_witness:
  "\<exists>s'. init_jslab 0x200000 blank_slab = Some (JSUCCESS, s') \<and> (\<forall>c \<in> boot_caches 0x200000. cache_ok c s')"
  using init_jslab_well_formed [of "0x200000" blank_slab] by (auto simp: blank_slab_def small_memory_inv)

text \<open>
  C37: a cache whose slabs have more than 64 slots, such as the predefined one of 32 bytes with its 127, breaks: as long as a page
  is there for its first slab, 64 allocations succeed, the slab is still on the list of slabs with space, and the 65th
  allocation sets a bit behind the map, in the memory of the first object.
\<close>

theorem slab_map_overflow:
  assumes "get (cflags (cache s c)) (page_order (cache s c)) (page_mem s) = Some (Some p, m)" "partial_list (cache s c) = []"
    "obj_size (cache s c) < PAGE_SIZE" "64 < max_obj_per_slab (cache s c)" "c > 0x100000"
  shows "\<exists>s'. alloc_n get c 64 s = Some s' \<and> p \<in> set (partial_list (cache s' c)) \<and> find_first_zero_bit (bitmap (header s' p)) = 64
    \<and> alloc_obj get c s' = None"
proof -
  obtain s' where "alloc_n get c 64 s = Some s'" and f: "filling c p 64 s'"
    using alloc_n_filling [of get s c p m 63] assms by (auto simp del: alloc_n.simps)
  then show ?thesis using filling_full [OF f, of get] first_zero_mask [of 64] f by (auto simp: filling_def)
qed

theorem slab_map_overflow_witness:
  "\<exists>s s'. init_jslab 0x200000 blank_slab = Some (JSUCCESS, s) \<and> alloc_n alloc_block 0x200000 64 s = Some s'
    \<and> alloc_obj alloc_block 0x200000 s' = None"
proof -
  obtain s where s: "init_jslab 0x200000 blank_slab = Some (JSUCCESS, s)" "page_mem s = small_memory"
      "new_cache 32 (cache s 0x200000)"
    using blank_slab_boots by blast
  have "\<exists>p m. alloc_block (cflags (cache s 0x200000)) 0 small_memory = Some (Some p, m)"
  proof (cases rule: getFreePages_cases [OF small_memory_inv, of "cflags (cache s 0x200000)" 0])
    case (1 q s')
    then show ?thesis by (auto simp: alloc_block_def)
  next
    case 2
    have "aligned 0 4 \<and> block 0 4 \<subseteq> free_pages small_memory" by (auto simp: small_free_pages aligned_def)
    then show ?thesis using 2 by (auto simp: NR_MEM_LISTS_def)
  qed
  then obtain p m where "alloc_block (cflags (cache s 0x200000)) (page_order (cache s 0x200000)) (page_mem s) = Some (Some p, m)"
    using s by (auto simp: new_cache_def order_of_def)
  from slab_map_overflow [of alloc_block s "0x200000" p m, OF this] s(1,3) show ?thesis by (auto simp: new_cache_def cap_of_def sizeof_jslab_def)
qed

end
