(* ===== verification/Page_Cache.thy ===== *)
theory Page_Cache
  imports Page_Alloc
begin

text \<open>
  The page caches in front of the page allocator, mm/jslab.c: per cpu a bucket of network buffers (blocks of four pages), a
  common stock of empty and full buckets, the cache of zeroed pages, and \<open>jalloc_page\<close>, \<open>jfree_page\<close> and \<open>jpage_dup\<close> on top.

  A page is its frame number, an array used as a stack is a list whose head is the top, a linked list of buckets is a list of
  bucket numbers. \<^term>\<open>None\<close> is \<open>BUG()\<close> or a failed \<open>assert\<close> in the page allocator, or a page that does not exist.
  Each function runs as one step; a call that interrupts another one on the same cpu finds \<open>inuse\<close> set.
\<close>

section \<open>State\<close>

definition MEM_NETBUF :: u32 where "MEM_NETBUF = 0x0200000"
definition MAX_ZEROLIST_SIZE :: nat where "MAX_ZEROLIST_SIZE = 40000"
definition MAX_PAGES_PER_CPU_CACHE :: u64 where "MAX_PAGES_PER_CPU_CACHE = 5000"
definition MAX_STACK_SIZE :: nat where "MAX_STACK_SIZE = 1000"
definition MAX_BUCKETS :: nat where "MAX_BUCKETS = MAX_CPUS + 54"

record percpu_pagecache =
  inuse :: bool
  bucket :: "nat option"
  pc_count :: u64
  pc_allocs :: u64
  pc_frees :: u64
  pc_miss_alloc :: u64
  pc_miss_free :: u64
  pc_fills :: u64
  pc_emptys :: u64

record page_caches =
  mem :: memory
  stack :: "nat \<Rightarrow> nat list"
  empty_buckets :: "nat list"
  full_buckets :: "nat list"
  page_cache :: "nat \<Rightarrow> percpu_pagecache"
  init_zeropage_cache_done :: bool
  dirtypages_list :: "nat option list"
  cleanpages_list :: "nat option list"
  g_conf_zeropage_cache :: bool
  g_conf_percpu_pagecache :: bool
  stat_page_allocs :: u64
  stat_page_alloc_zero :: u64
  stat_page_frees :: u64
  g_stat_memalloc_large :: int
  g_stat_memalloc_small :: int

definition upd_pc :: "nat \<Rightarrow> (percpu_pagecache \<Rightarrow> percpu_pagecache) \<Rightarrow> page_caches \<Rightarrow> page_caches" where
  "upd_pc cpu f s = s\<lparr>page_cache := (page_cache s)(cpu := f (page_cache s cpu))\<rparr>"

definition PageSetNetBuf :: "nat \<Rightarrow> memory \<Rightarrow> memory" where
  "PageSetNetBuf p = update_page p (\<lambda>pg. pg\<lparr>pflags := Bit_Operations.set_bit PG_netbuf (pflags pg)\<rparr>)"

definition PageClearNetBuf :: "nat \<Rightarrow> memory \<Rightarrow> memory" where
  "PageClearNetBuf p = update_page p (\<lambda>pg. pg\<lparr>pflags := unset_bit PG_netbuf (pflags pg)\<rparr>)"

section \<open>The cache of zeroed pages\<close>

definition init_zeropage_cache :: "page_caches \<Rightarrow> page_caches" where
  "init_zeropage_cache s = s\<lparr>cleanpages_list := [], dirtypages_list := [], init_zeropage_cache_done := True\<rparr>"

text \<open>An entry can be the null page, see \<open>housekeep_step\<close>; it is taken off its list like any other.\<close>

definition get_from_zeropagecache :: "u32 \<Rightarrow> page_caches \<Rightarrow> nat option \<times> page_caches" where
  "get_from_zeropagecache clear_flag s =
     (if \<not> init_zeropage_cache_done s then (None, s)
      else if clear_flag AND MEM_CLEAR \<noteq> 0 \<and> cleanpages_list s \<noteq> [] then
        (hd (cleanpages_list s), s\<lparr>cleanpages_list := tl (cleanpages_list s)\<rparr>)
      else case dirtypages_list s of
        [] \<Rightarrow> (None, s)
      | r # rs \<Rightarrow>
          let s = s\<lparr>dirtypages_list := rs\<rparr> in
          (case r of
             None \<Rightarrow> (None, s)
           | Some p \<Rightarrow> (Some p, if clear_flag AND MEM_CLEAR \<noteq> 0 then s\<lparr>mem := clear_memory p 0 (mem s)\<rparr> else s)))"

definition insert_into_zeropagecache :: "nat option \<Rightarrow> u32 \<Rightarrow> page_caches \<Rightarrow> int \<times> page_caches" where
  "insert_into_zeropagecache page flag s =
     (if \<not> init_zeropage_cache_done s then (JFAIL, s)
      else if flag AND MEM_CLEAR \<noteq> 0 \<and> length (cleanpages_list s) < MAX_ZEROLIST_SIZE then
        (JSUCCESS, s\<lparr>cleanpages_list := page # cleanpages_list s\<rparr>)
      else if length (dirtypages_list s) < MAX_ZEROLIST_SIZE then
        (JSUCCESS, s\<lparr>dirtypages_list := page # dirtypages_list s\<rparr>)
      else (JFAIL, s))"

primrec housekeep_loop :: "nat \<Rightarrow> page_caches \<Rightarrow> (int \<times> page_caches) option" where
  "housekeep_loop 0 s = Some (1, s)"
| "housekeep_loop (Suc n) s =
     (if \<not> length (cleanpages_list s) < MAX_ZEROLIST_SIZE then Some (0, s)
      else do {
        let (page, s) = get_from_zeropagecache 0 s;
        s \<leftarrow> (case page of
              Some p \<Rightarrow> Some (snd (insert_into_zeropagecache (Some p) MEM_CLEAR (s\<lparr>mem := clear_memory p 0 (mem s)\<rparr>)))
            | None \<Rightarrow> do {
                (page, m) \<leftarrow> alloc_block MEM_CLEAR 0 (mem s);
                Some (snd (insert_into_zeropagecache page MEM_CLEAR (s\<lparr>mem := m\<rparr>))) });
        housekeep_loop n s })"

definition housekeep_zeropage_cache :: "page_caches \<Rightarrow> (int \<times> page_caches) option" where
  "housekeep_zeropage_cache s = (if \<not> g_conf_zeropage_cache s then Some (0, s) else housekeep_loop 100 s)"

section \<open>Buckets\<close>

definition give_bucket :: "page_caches \<Rightarrow> nat \<Rightarrow> page_caches" where
  "give_bucket s cpu = (case empty_buckets s of
     [] \<Rightarrow> s
   | b # bs \<Rightarrow> upd_pc cpu (\<lambda>c. c\<lparr>bucket := Some b\<rparr>) (s\<lparr>empty_buckets := bs\<rparr>))"

definition init_percpu_page_cache :: "page_caches \<Rightarrow> page_caches" where
  "init_percpu_page_cache s =
     foldl give_bucket
       (s\<lparr>page_cache := (\<lambda>_. \<lparr>inuse = False, bucket = None, pc_count = 0, pc_allocs = 0, pc_frees = 0, pc_miss_alloc = 0,
            pc_miss_free = 0, pc_fills = 0, pc_emptys = 0\<rparr>),
          stack := (\<lambda>_. []), full_buckets := [], empty_buckets := foldl (\<lambda>bs i. i # bs) [] [0 ..< MAX_BUCKETS]\<rparr>)
       [0 ..< MAX_CPUS]"

definition get_bucket :: "nat \<Rightarrow> page_caches \<Rightarrow> nat \<times> page_caches" where
  "get_bucket b s =
     (if stack s b = [] then
        (case full_buckets s of
           [] \<Rightarrow> (b, s)
         | f # fs \<Rightarrow> (f, s\<lparr>empty_buckets := b # empty_buckets s, full_buckets := fs\<rparr>))
      else
        (case empty_buckets s of
           [] \<Rightarrow> (b, s)
         | e # es \<Rightarrow> (e, s\<lparr>full_buckets := b # full_buckets s, empty_buckets := es\<rparr>)))"

section \<open>Allocation\<close>

text \<open>The part of \<open>jalloc_page\<close> that looks into the bucket of the cpu.\<close>

definition refill :: "nat \<Rightarrow> nat \<Rightarrow> page_caches \<Rightarrow> nat \<times> page_caches" where
  "refill cpu b s =
     (if stack s b = [] then
        let (b, s) = get_bucket b s in (b, upd_pc cpu (\<lambda>c. c\<lparr>bucket := Some b, pc_fills := pc_fills c + 1\<rparr>) s)
      else (b, s))"

definition cache_take :: "nat \<Rightarrow> page_caches \<Rightarrow> nat option \<times> page_caches" where
  "cache_take cpu s =
     (if inuse (page_cache s cpu) then (None, s)
      else case bucket (page_cache s cpu) of
        None \<Rightarrow> (None, upd_pc cpu (\<lambda>c. c\<lparr>pc_miss_alloc := pc_miss_alloc c + 1\<rparr>) s)
      | Some b \<Rightarrow>
          let (b, s) = refill cpu b s in
          (case stack s b of
             [] \<Rightarrow> (None, upd_pc cpu (\<lambda>c. c\<lparr>pc_miss_alloc := pc_miss_alloc c + 1\<rparr>) s)
           | p # ps \<Rightarrow> (Some p, upd_pc cpu (\<lambda>c. c\<lparr>pc_count := pc_count c - 1, pc_allocs := pc_allocs c + 1\<rparr>)
                                 (s\<lparr>stack := (stack s)(b := ps)\<rparr>))))"

text \<open>The part behind the label \<open>last\<close>.\<close>

definition alloc_last :: "u32 \<Rightarrow> page_caches \<Rightarrow> (nat option \<times> page_caches) option" where
  "alloc_last flags s = do {
     let (page, s) = (if g_conf_zeropage_cache s then get_from_zeropagecache flags s else (None, s));
     if page \<noteq> None then Some (page, s)
     else do {
       let s = s\<lparr>stat_page_allocs := stat_page_allocs s + 1\<rparr>;
       (ret, m) \<leftarrow> alloc_block flags (if flags AND MEM_NETBUF \<noteq> 0 then 2 else 0) (mem s);
       let s = s\<lparr>mem := m\<rparr>;
       Some (ret, case ret of
         None \<Rightarrow> s
       | Some p \<Rightarrow>
           if flags AND MEM_NETBUF \<noteq> 0
           then s\<lparr>mem := PageSetNetBuf p m, g_stat_memalloc_large := g_stat_memalloc_large s + 1\<rparr>
           else s\<lparr>g_stat_memalloc_small := g_stat_memalloc_small s + 1\<rparr>) } }"

definition jalloc_page :: "u32 \<Rightarrow> nat \<Rightarrow> page_caches \<Rightarrow> (nat option \<times> page_caches) option" where
  "jalloc_page flags cpu s =
     (if flags AND MEM_CLEAR \<noteq> 0 then alloc_last flags (s\<lparr>stat_page_alloc_zero := stat_page_alloc_zero s + 1\<rparr>)
      else if g_conf_percpu_pagecache s \<and> flags AND MEM_NETBUF \<noteq> 0 then
        (case cache_take cpu s of
           (Some p, s) \<Rightarrow> Some (Some p, s)
         | (None, s) \<Rightarrow> alloc_last flags s)
      else alloc_last flags s)"

section \<open>Release\<close>

definition jpage_dup :: "nat \<Rightarrow> page_caches \<Rightarrow> (int \<times> page_caches) option" where
  "jpage_dup p s = do {
     kassert (p < g_max_mapnr (mem s));
     if PageNetBuf p (mem s) then Some (JSUCCESS, s\<lparr>mem := page_set_count p (pcount (g_mem_map (mem s) p) + 1) (mem s)\<rparr>)
     else Some (JFAIL, s) }"

text \<open>The part of \<open>Bulk_free_pages\<close> that puts a network buffer into the bucket of the cpu; whether it did.\<close>

definition make_room :: "nat \<Rightarrow> nat \<Rightarrow> page_caches \<Rightarrow> nat \<times> page_caches" where
  "make_room cpu b s =
     (if length (stack s b) \<ge> MAX_STACK_SIZE then
        let (b, s) = get_bucket b s in (b, upd_pc cpu (\<lambda>c. c\<lparr>bucket := Some b, pc_emptys := pc_emptys c + 1\<rparr>) s)
      else (b, s))"

definition cache_put :: "nat \<Rightarrow> nat \<Rightarrow> page_caches \<Rightarrow> bool \<times> page_caches" where
  "cache_put cpu p s =
     (if inuse (page_cache s cpu) then (False, s)
      else case bucket (page_cache s cpu) of
        None \<Rightarrow> (False, upd_pc cpu (\<lambda>c. c\<lparr>pc_miss_free := pc_miss_free c + 1\<rparr>) s)
      | Some b \<Rightarrow>
          let (b, s) = make_room cpu b s in
          if length (stack s b) < MAX_STACK_SIZE \<and> pc_count (page_cache s cpu) < MAX_PAGES_PER_CPU_CACHE
          then (True, upd_pc cpu (\<lambda>c. c\<lparr>pc_count := pc_count c + 1, pc_frees := pc_frees c + 1\<rparr>)
                        (s\<lparr>stack := (stack s)(b := p # stack s b)\<rparr>))
          else (False, upd_pc cpu (\<lambda>c. c\<lparr>pc_miss_free := pc_miss_free c + 1\<rparr>) s))"

definition free_last :: "bool \<Rightarrow> nat \<Rightarrow> page_caches \<Rightarrow> page_caches option" where
  "free_last net p s = do {
     let (ret, s) = (if g_conf_zeropage_cache s then insert_into_zeropagecache (Some p) 0 s else (JFAIL, s));
     if ret = JSUCCESS then Some s
     else do {
       let s = s\<lparr>stat_page_frees := stat_page_frees s + 1\<rparr>;
       if net then do {
         m \<leftarrow> free_block 2 p (PageClearNetBuf p (mem s));
         Some (s\<lparr>mem := m, g_stat_memalloc_large := g_stat_memalloc_large s - 1\<rparr>) }
       else do {
         m \<leftarrow> free_block 0 p (mem s);
         Some (s\<lparr>mem := m, g_stat_memalloc_small := g_stat_memalloc_small s - 1\<rparr>) } } }"

definition free_one :: "nat \<Rightarrow> nat \<Rightarrow> page_caches \<Rightarrow> page_caches option" where
  "free_one cpu p s = do {
     kassert (p < g_max_mapnr (mem s));
     let net = PageNetBuf p (mem s);
     let refs = pcount (g_mem_map (mem s) p);
     if net \<and> sint refs > 1 then Some (s\<lparr>mem := page_set_count p (refs - 1) (mem s)\<rparr>)
     else
       (case (if g_conf_percpu_pagecache s \<and> net then cache_put cpu p s else (False, s)) of
          (True, s) \<Rightarrow> Some s
        | (False, s) \<Rightarrow> free_last net p s) }"

primrec Bulk_free_pages :: "nat \<Rightarrow> nat list \<Rightarrow> page_caches \<Rightarrow> page_caches option" where
  "Bulk_free_pages cpu [] s = Some s"
| "Bulk_free_pages cpu (p # mbufs) s = do { s \<leftarrow> free_one cpu p s; Bulk_free_pages cpu mbufs s }"

definition jfree_page :: "nat \<Rightarrow> nat \<Rightarrow> page_caches \<Rightarrow> page_caches option" where
  "jfree_page cpu p s = Bulk_free_pages cpu [p] s"

end
