(* ===== verification/Page_Cache_Correct.thy ===== *)
theory Page_Cache_Correct
  imports Page_Cache "HOL-Library.Multiset"
begin

text \<open>
  The page caches hand out every page to one owner at a time. The proofs have two layers: what the page allocator knows of the
  blocks that were taken from it (\<open>pages_inv\<close>: network buffers with their reference counts, single pages), and how the
  buckets hold some of these blocks back (\<open>pc_inv\<close>).
\<close>

section \<open>Blocks taken from the page allocator\<close>

text \<open>A network buffer differs from a block as the page allocator hands it out in a flag and its reference count.\<close>

definition net_clean :: "nat \<Rightarrow> memory \<Rightarrow> memory" where
  "net_clean p = update_page p (\<lambda>pg. pg\<lparr>pcount := 1, pflags := unset_bit PG_netbuf (pflags pg)\<rparr>)"

definition net_held :: "nat \<Rightarrow> nat \<Rightarrow> memory \<Rightarrow> bool" where
  "net_held n p m \<longleftrightarrow> n < 2 ^ 31 \<and> PageNetBuf p m \<and> pcount (g_mem_map m p) = of_nat n \<and> held_block 2 p (net_clean p m)"

lemma update_page_free [simp]: "free_pages (update_page p f m) = free_pages m" "g_max_mapnr (update_page p f m) = g_max_mapnr m"
  by (simp_all add: update_page_def free_pages_def)

lemma buddy_inv_update:
  "p \<notin> free_pages m \<Longrightarrow> buddy_inv (update_page p f m) = buddy_inv m"
  by (auto simp: buddy_inv_def areas_ok_def layout_ok_def page_clean_def page_flag_def free_pages_def update_page_def)

lemma held_update: "p \<notin> block k q \<Longrightarrow> held_block k q (update_page p f m) = held_block k q m"
  by (auto simp: held_block_def page_clean_def page_flag_def update_page_def dest: bspec)

lemma net_held_update:
  assumes "p \<notin> block 2 q"
  shows "net_held n q (update_page p f m) = net_held n q m"
proof -
  have "p \<noteq> q" using assms by auto
  then have "net_clean q (update_page p f m) = update_page p f (net_clean q m)"
    by (simp add: net_clean_def update_page_def fun_upd_twist)
  then show ?thesis using held_update [OF assms, of f "net_clean q m"] \<open>p \<noteq> q\<close>
    by (simp add: net_held_def) (simp add: update_page_def page_flag_def)
qed

lemma net_held_start: "net_held n p m \<Longrightarrow> p < g_max_mapnr m"
  using held_start [of 2 p "net_clean p m"] by (simp add: net_held_def net_clean_def)

lemma net_not_free:
  assumes "buddy_inv m" "net_held n p m"
  shows "block 2 p \<inter> free_pages m = {}" "p \<notin> free_pages m"
proof -
  show p: "p \<notin> free_pages m" using assms by (auto simp: buddy_inv_def net_held_def page_clean_def)
  have "buddy_inv (net_clean p m)" using assms(1) buddy_inv_update [OF p] by (simp add: net_clean_def)
  then show "block 2 p \<inter> free_pages m = {}"
    using held_not_free [of "net_clean p m" 2 p] assms(2) by (simp add: net_held_def net_clean_def)
qed

lemma net_held_kept:
  assumes "others_kept A m m'" "net_held n q m" "block 2 q \<inter> A = {}"
  shows "net_held n q m'"
proof -
  have "q \<notin> A" using assms(3) block_start by blast
  then have q: "g_mem_map m' q = g_mem_map m q" using assms(1) by (simp add: others_kept_def)
  then have "others_kept A (net_clean q m) (net_clean q m')"
    using assms(1) by (auto simp: others_kept_def net_clean_def update_page_def)
  then show ?thesis using assms(2,3) held_block_kept [of A "net_clean q m"] q by (simp add: net_held_def page_flag_def)
qed

definition pages_inv :: "(nat \<Rightarrow> nat) \<Rightarrow> nat set \<Rightarrow> memory \<Rightarrow> bool" where
  "pages_inv cnt S m \<longleftrightarrow> buddy_inv m \<and> (\<forall>p. 0 < cnt p \<longrightarrow> net_held (cnt p) p m) \<and> (\<forall>p \<in> S. held_block 0 p m)
     \<and> (\<forall>p q. 0 < cnt p \<longrightarrow> 0 < cnt q \<longrightarrow> p \<noteq> q \<longrightarrow> block 2 p \<inter> block 2 q = {}) \<and> (\<forall>p. 0 < cnt p \<longrightarrow> S \<inter> block 2 p = {})"

lemma pages_invD:
  assumes "pages_inv cnt S m"
  shows "buddy_inv m" "0 < cnt p \<Longrightarrow> net_held (cnt p) p m" "p \<in> S \<Longrightarrow> held_block 0 p m"
    "0 < cnt p \<Longrightarrow> 0 < cnt q \<Longrightarrow> p \<noteq> q \<Longrightarrow> block 2 p \<inter> block 2 q = {}" "0 < cnt p \<Longrightarrow> S \<inter> block 2 p = {}"
  using assms by (auto simp: pages_inv_def)

lemma pages_not_free:
  assumes "pages_inv cnt S m"
  shows "0 < cnt p \<Longrightarrow> block 2 p \<inter> free_pages m = {}" "p \<in> S \<Longrightarrow> p \<notin> free_pages m"
proof -
  note B = pages_invD(1) [OF assms]
  show "0 < cnt p \<Longrightarrow> block 2 p \<inter> free_pages m = {}" using net_not_free(1) [OF B pages_invD(2) [OF assms]] .
  show "p \<in> S \<Longrightarrow> p \<notin> free_pages m" using held_not_free [OF B pages_invD(3) [OF assms]] by auto
qed

lemma net_clean_set:
  assumes "held_block 2 p m"
  shows "net_clean p (PageSetNetBuf p m) = m"
proof -
  have "page_clean p m" "pcount (g_mem_map m p) = 1" using assms by (auto simp: held_block_def)
  moreover from this have "unset_bit 14 (Bit_Operations.set_bit 14 (pflags (g_mem_map m p))) = pflags (g_mem_map m p)"
    by (intro bit_word_eqI) (auto simp: bit_simps page_clean_def page_flag_def)
  ultimately show ?thesis
    by (auto simp: net_clean_def PageSetNetBuf_def update_page_def fun_eq_iff intro!: memory.equality page.equality)
qed

text \<open>A network buffer with one reference, without its flag, is a block that can be released.\<close>

lemma net_clean_clear: "net_held 1 p m \<Longrightarrow> PageClearNetBuf p m = net_clean p m"
  by (auto simp: net_held_def PageClearNetBuf_def net_clean_def update_page_def fun_eq_iff intro!: memory.equality page.equality)

section \<open>The two kinds of allocation\<close>

lemma alloc_net_ok:
  assumes I: "pages_inv cnt S m"
  obtains (none) m' where "alloc_block g 2 m = Some (None, m')" "pages_inv cnt S m'"
    | (net) p m' where "alloc_block g 2 m = Some (Some p, m')" "pages_inv (cnt(p := 1)) S (PageSetNetBuf p m')" "cnt p = 0"
      "block 2 p \<subseteq> free_pages m"
proof (cases rule: getFreePages_cases [OF pages_invD(1) [OF I], of g 2])
  case (1 p m')
  let ?m = "PageSetNetBuf p m'"
  have call: "alloc_block g 2 m = Some (Some p, m')" using 1 by (simp add: alloc_block_def)
  have free: "p \<notin> free_pages m'" using 1(5) block_start [of p 2] by blast
  have c0: "cnt p = 0" using pages_not_free(1) [OF I, of p] 1(4) block_start [of p 2] by fastforce
  have B: "buddy_inv ?m" using 1(2) buddy_inv_update [OF free] by (simp add: PageSetNetBuf_def)
  have clean: "net_clean p ?m = m'" by (rule net_clean_set [OF 1(3)])
  show thesis
  proof (rule net [OF call _ c0 1(4)])
    have "net_held 1 p ?m" using 1(3) clean
      by (simp add: net_held_def) (simp add: PageSetNetBuf_def update_page_def page_flag_def bit_simps held_block_def)
    moreover have kept: "block 2 q \<inter> block 2 p = {}" if "0 < cnt q" for q
      using pages_not_free(1) [OF I that] 1(4) by blast
    moreover have "net_held (cnt q) q ?m" if q: "0 < cnt q" for q
      unfolding PageSetNetBuf_def using net_held_kept [OF 1(6) pages_invD(2) [OF I q] kept [OF q]] kept [OF q] block_start [of p 2]
      by (subst net_held_update) auto
    moreover have S: "q \<notin> block 2 p" if "q \<in> S" for q using pages_not_free(2) [OF I that] 1(4) by blast
    moreover have "held_block 0 q ?m" if q: "q \<in> S" for q
      unfolding PageSetNetBuf_def using held_block_kept [OF 1(6) pages_invD(3) [OF I q]] S [OF q] block_start [of p 2]
      by (subst held_update) auto
    ultimately show "pages_inv (cnt(p := 1)) S ?m"
      using B pages_invD(4,5) [OF I] unfolding pages_inv_def by (auto simp: disjoint_iff)
  qed
next
  case 2
  then show thesis using none [of "m\<lparr>stat_allocs := stat_allocs m + 1\<rparr>"] I
    by (simp add: alloc_block_def pages_inv_def net_held_def net_clean_def update_page_def held_block_def page_clean_def page_flag_def)
qed

lemma alloc_single_ok:
  assumes I: "pages_inv cnt S m"
  obtains (none) m' where "alloc_block g 0 m = Some (None, m')" "pages_inv cnt S m'"
    | (single) p m' where "alloc_block g 0 m = Some (Some p, m')" "pages_inv cnt (insert p S) m'" "p \<notin> S"
      "p \<in> free_pages m" "g AND MEM_CLEAR \<noteq> 0 \<longrightarrow> (\<forall>i < PAGE_SIZE. contents m' p i = 0)"
proof (cases rule: getFreePages_cases [OF pages_invD(1) [OF I], of g 0])
  case (1 p m')
  have call: "alloc_block g 0 m = Some (Some p, m')" using 1 by (simp add: alloc_block_def)
  have p: "p \<in> free_pages m" using 1(4) by simp
  have away: "p \<notin> block 2 q" if "0 < cnt q" for q using pages_not_free(1) [OF I that] p by blast
  have fresh: "p \<notin> S" using pages_not_free(2) [OF I] p by blast
  have "net_held (cnt q) q m'" if "0 < cnt q" for q
    using net_held_kept [OF 1(6) pages_invD(2) [OF I that]] away [OF that] by simp
  moreover have "held_block 0 q m'" if "q \<in> insert p S" for q
    using that 1(3) held_block_kept [OF 1(6) pages_invD(3) [OF I]] fresh by (cases "q = p") auto
  ultimately have "pages_inv cnt (insert p S) m'"
    using 1(2) pages_invD(4,5) [OF I] away by (simp add: pages_inv_def)
  then show thesis using single [OF call _ fresh p] 1(9) by simp
next
  case 2
  then show thesis using none [of "m\<lparr>stat_allocs := stat_allocs m + 1\<rparr>"] I
    by (simp add: alloc_block_def pages_inv_def net_held_def net_clean_def update_page_def held_block_def page_clean_def page_flag_def)
qed

section \<open>References and release\<close>

lemma set_refs_ok:
  assumes I: "pages_inv cnt S m" and p: "0 < cnt p" and n: "0 < n" "n < 2 ^ 31"
  shows "pages_inv (cnt(p := n)) S (page_set_count p (of_nat n) m)"
proof -
  let ?m = "page_set_count p (of_nat n) m"
  have h: "net_held (cnt p) p m" by (rule pages_invD(2) [OF I p])
  have "net_clean p ?m = net_clean p m" by (simp add: net_clean_def page_set_count_def update_page_def)
  then have "net_held n p ?m" using h n
    by (simp add: net_held_def) (simp add: page_set_count_def update_page_def page_flag_def)
  moreover have "p \<notin> block 2 q" if "0 < cnt q" "q \<noteq> p" for q using pages_invD(4) [OF I that(1) p that(2)] by auto
  then have "net_held (cnt q) q ?m" if "0 < cnt q" "q \<noteq> p" for q
    using that pages_invD(2) [OF I that(1)] by (simp add: page_set_count_def net_held_update)
  moreover have "held_block 0 q ?m" if "q \<in> S" for q
    using pages_invD(3) [OF I that] pages_invD(5) [OF I p] that by (subst page_set_count_def, subst held_update) auto
  moreover have "buddy_inv ?m"
    using pages_invD(1) [OF I] buddy_inv_update [OF net_not_free(2) [OF pages_invD(1) [OF I] h]] by (simp add: page_set_count_def)
  ultimately show ?thesis using pages_invD(4,5) [OF I] p n(1) by (auto simp: pages_inv_def)
qed

lemma free_net_ok:
  assumes I: "pages_inv cnt S m" and p: "cnt p = 1"
  obtains m' where "free_block 2 p (PageClearNetBuf p m) = Some m'" "pages_inv (cnt(p := 0)) S m'"
    "free_pages m' = free_pages m \<union> block 2 p"
proof -
  let ?m = "net_clean p m"
  have h: "net_held 1 p m" using pages_invD(2) [OF I, of p] p by simp
  note B = pages_invD(1) [OF I] and nf = net_not_free [OF pages_invD(1) [OF I] h]
  have B': "buddy_inv ?m" using B buddy_inv_update [OF nf(2)] by (simp add: net_clean_def)
  obtain m' where m': "mm_putFreePages (ADDRESS (of_nat p)) 2 ?m = Some (1, m')" "buddy_inv m'"
    "free_pages m' = block 2 p \<union> free_pages ?m" "others_kept (block 2 p) ?m m'"
    using mm_putFreePages_held [OF B', of 2 p] h by (auto simp: net_held_def)
  have away: "block 2 q \<inter> block 2 p = {}" if "0 < cnt q" "q \<noteq> p" for q using pages_invD(4) [OF I that(1) _ that(2)] p by simp
  have "net_held (cnt q) q m'" if "0 < cnt q" "q \<noteq> p" for q
  proof (rule net_held_kept [OF m'(4) _ away [OF that]])
    have "p \<notin> block 2 q" using away [OF that] by auto
    then show "net_held (cnt q) q ?m" using pages_invD(2) [OF I that(1)] by (simp add: net_clean_def net_held_update)
  qed
  moreover have "held_block 0 q m'" if "q \<in> S" for q
  proof -
    have "q \<notin> block 2 p" using pages_invD(5) [OF I, of p] p that by auto
    moreover from this have "q \<noteq> p" by auto
    ultimately show ?thesis using held_block_kept [OF m'(4), of 0 q] pages_invD(3) [OF I that] by (simp add: net_clean_def held_update)
  qed
  ultimately have "pages_inv (cnt(p := 0)) S m'"
    using m'(2) pages_invD(4,5) [OF I] unfolding pages_inv_def by (auto split: if_splits)
  then show thesis
    using that [of m'] m'(1,3) net_clean_clear [OF h] by (simp add: free_block_def Un_commute net_clean_def)
qed

lemma free_single_ok:
  assumes I: "pages_inv cnt S m" and p: "p \<in> S"
  obtains m' where "free_block 0 p m = Some m'" "pages_inv cnt (S - {p}) m'" "free_pages m' = insert p (free_pages m)"
proof -
  obtain m' where m': "mm_putFreePages (ADDRESS (of_nat p)) 0 m = Some (1, m')" "buddy_inv m'"
    "free_pages m' = block 0 p \<union> free_pages m" "others_kept (block 0 p) m m'"
    using mm_putFreePages_held [OF pages_invD(1) [OF I] pages_invD(3) [OF I p]] by blast
  have "net_held (cnt q) q m'" if "0 < cnt q" for q
    using net_held_kept [OF m'(4) pages_invD(2) [OF I that]] pages_invD(5) [OF I that] p by auto
  moreover have "held_block 0 q m'" if "q \<in> S - {p}" for q
    using held_block_kept [OF m'(4) pages_invD(3) [OF I, of q]] that by auto
  ultimately have "pages_inv cnt (S - {p}) m'"
    using m'(2) pages_invD(4,5) [OF I] unfolding pages_inv_def by blast
  then show thesis using that [of m'] m'(1,3) by (simp add: free_block_def)
qed

section \<open>Buckets\<close>

definition cached :: "page_caches \<Rightarrow> nat set" where
  "cached s = {p. \<exists>b. p \<in> set (stack s b)}"

definition stacks_ok :: "page_caches \<Rightarrow> bool" where
  "stacks_ok s \<longleftrightarrow> (\<forall>b. distinct (stack s b) \<and> length (stack s b) \<le> MAX_STACK_SIZE)
     \<and> (\<forall>b c. b \<noteq> c \<longrightarrow> set (stack s b) \<inter> set (stack s c) = {})"

text \<open>Every bucket is on one of the two lists or belongs to one cpu.\<close>

definition cpu_buckets :: "page_caches \<Rightarrow> nat list" where
  "cpu_buckets s = map (\<lambda>c. the (bucket (page_cache s c))) [0 ..< MAX_CPUS]"

definition buckets_ok :: "page_caches \<Rightarrow> bool" where
  "buckets_ok s \<longleftrightarrow> (\<forall>c < MAX_CPUS. bucket (page_cache s c) \<noteq> None)
     \<and> mset (empty_buckets s @ full_buckets s @ cpu_buckets s) = mset [0 ..< MAX_BUCKETS]"

definition cnt_of :: "(nat \<Rightarrow> nat) \<Rightarrow> page_caches \<Rightarrow> nat \<Rightarrow> nat" where
  "cnt_of refs s = (\<lambda>p. if p \<in> cached s then 1 else refs p)"

definition pc_inv :: "(nat \<Rightarrow> nat) \<times> nat set \<times> page_caches \<Rightarrow> bool" where
  "pc_inv = (\<lambda>(refs, S, s). pages_inv (cnt_of refs s) S (mem s) \<and> (\<forall>p \<in> cached s. refs p = 0)
     \<and> stacks_ok s \<and> buckets_ok s \<and> \<not> g_conf_zeropage_cache s)"

lemma pc_invD:
  assumes "pc_inv (refs, S, s)"
  shows "pages_inv (cnt_of refs s) S (mem s)" "p \<in> cached s \<Longrightarrow> refs p = 0" "stacks_ok s" "buckets_ok s" "\<not> g_conf_zeropage_cache s"
  using assms by (simp_all add: pc_inv_def)

lemma pc_inv_refs: "pc_inv (refs, S, s) \<Longrightarrow> 0 < refs p \<Longrightarrow> cnt_of refs s p = refs p"
  using pc_invD(2) [of refs S s p] by (auto simp: cnt_of_def)

lemma upd_pc_sel [simp]:
  "mem (upd_pc cpu f s) = mem s" "stack (upd_pc cpu f s) = stack s" "empty_buckets (upd_pc cpu f s) = empty_buckets s"
  "full_buckets (upd_pc cpu f s) = full_buckets s" "g_conf_zeropage_cache (upd_pc cpu f s) = g_conf_zeropage_cache s"
  "cached (upd_pc cpu f s) = cached s" "stacks_ok (upd_pc cpu f s) = stacks_ok s" "cnt_of refs (upd_pc cpu f s) = cnt_of refs s"
  "page_cache (upd_pc cpu f s) cpu = f (page_cache s cpu)"
  by (simp_all add: upd_pc_def cached_def stacks_ok_def cnt_of_def)

lemma buckets_ok_upd:
  assumes "\<And>c. bucket (f c) = bucket c"
  shows "buckets_ok (upd_pc cpu f s) = buckets_ok s"
proof -
  have "bucket (page_cache (upd_pc cpu f s) c) = bucket (page_cache s c)" for c using assms by (simp add: upd_pc_def)
  then show ?thesis by (simp add: buckets_ok_def cpu_buckets_def)
qed

text \<open>Exchanging the bucket of a cpu.\<close>

lemma cpu_buckets_upd:
  assumes "cpu < MAX_CPUS" "\<And>c. bucket (f c) = Some b"
  shows "add_mset (the (bucket (page_cache s cpu))) (mset (cpu_buckets (upd_pc cpu f s))) = add_mset b (mset (cpu_buckets s))"
proof -
  let ?g = "\<lambda>c. the (bucket (page_cache s c))"
  have "cpu_buckets (upd_pc cpu f s) = (map ?g [0 ..< MAX_CPUS])[cpu := b]"
    using assms(2) by (auto simp: cpu_buckets_def upd_pc_def nth_list_update intro!: nth_equalityI)
  moreover have "?g cpu \<in># mset (map ?g [0 ..< MAX_CPUS])" using assms(1) by auto
  ultimately show ?thesis using assms(1) by (simp add: mset_update cpu_buckets_def del: mset_map mset_upt)
qed

lemma get_bucket_ok:
  assumes I: "pc_inv (refs, S, s)" and cpu: "cpu < MAX_CPUS" and b: "bucket (page_cache s cpu) = Some b"
    and g: "get_bucket b s = (b', s')" and f: "\<And>c. bucket (f c) = Some b'"
  shows "pc_inv (refs, S, upd_pc cpu f s')" "stack s' = stack s" "page_cache s' = page_cache s"
    "g_conf_percpu_pagecache s' = g_conf_percpu_pagecache s"
proof -
  have same: "mem s' = mem s" "stack s' = stack s" "page_cache s' = page_cache s" "g_conf_zeropage_cache s' = g_conf_zeropage_cache s"
      "g_conf_percpu_pagecache s' = g_conf_percpu_pagecache s"
    using g by (auto simp: get_bucket_def split: if_splits list.splits)
  then show "stack s' = stack s" "page_cache s' = page_cache s" "g_conf_percpu_pagecache s' = g_conf_percpu_pagecache s" by simp_all
  have ex: "mset (empty_buckets s') + mset (full_buckets s') + {#b'#} = mset (empty_buckets s) + mset (full_buckets s) + {#b#}"
    using g by (auto simp: get_bucket_def split: if_splits list.splits)
  have "buckets_ok (upd_pc cpu f s')"
  proof -
    let ?E = "mset (empty_buckets s') + mset (full_buckets s')"
    have "add_mset b (mset (cpu_buckets (upd_pc cpu f s'))) = add_mset b' (mset (cpu_buckets s))"
      using cpu_buckets_upd [OF cpu f, of s'] b by (simp add: same cpu_buckets_def)
    then have "?E + add_mset b (mset (cpu_buckets (upd_pc cpu f s'))) = (?E + {#b'#}) + mset (cpu_buckets s)" by simp
    then have "?E + mset (cpu_buckets (upd_pc cpu f s')) = mset (empty_buckets s) + mset (full_buckets s) + mset (cpu_buckets s)"
      unfolding ex by simp
    then show ?thesis using pc_invD(4) [OF I] f by (auto simp: buckets_ok_def upd_pc_def same add.assoc)
  qed
  then show "pc_inv (refs, S, upd_pc cpu f s')"
    using I by (simp add: pc_inv_def same cached_def stacks_ok_def cnt_of_def)
qed

text \<open>Moving a page between a bucket and its user.\<close>

lemma top_cached:
  assumes "pc_inv (refs, S, s)" "stack s b = p # ps"
  shows "p \<in> cached s" "refs p = 0"
proof -
  show "p \<in> cached s" using assms(2) by (auto simp: cached_def intro!: exI [of _ b])
  then show "refs p = 0" by (rule pc_invD(2) [OF assms(1)])
qed

lemma pop_ok:
  assumes I: "pc_inv (refs, S, s)" and p: "stack s b = p # ps" and f: "\<And>c. bucket (f c) = bucket c"
  shows "pc_inv (refs(p := 1), S, upd_pc cpu f (s\<lparr>stack := (stack s)(b := ps)\<rparr>))"
proof -
  let ?s = "s\<lparr>stack := (stack s)(b := ps)\<rparr>"
  note ok = pc_invD(3) [OF I]
  have p': "p \<in> cached s" by (rule top_cached(1) [OF I p])
  have "p \<notin> set ps" using ok p unfolding stacks_ok_def by (metis distinct.simps(2))
  moreover have "p \<notin> set (stack s c)" if "c \<noteq> b" for c using ok p that unfolding stacks_ok_def by (metis disjoint_iff list.set_intros(1))
  ultimately have m: "set (stack ?s c) = set (stack s c) - {p}" for c using p by (cases "c = b") auto
  then have c: "cached ?s = cached s - {p}" by (auto simp: cached_def simp del: page_caches.simps)
  have a: "distinct (stack ?s c) \<and> length (stack ?s c) \<le> MAX_STACK_SIZE" for c
  proof -
    have "distinct (stack s b) \<and> length (stack s b) \<le> MAX_STACK_SIZE" using ok by (simp add: stacks_ok_def)
    then show ?thesis using ok by (simp add: stacks_ok_def p)
  qed
  have d: "set (stack ?s c) \<inter> set (stack ?s d) = {}" if "c \<noteq> d" for c d
    using ok that unfolding m stacks_ok_def by (metis Diff_Int_distrib2 Int_Diff Diff_empty empty_Diff)
  have "stacks_ok ?s"
    unfolding stacks_ok_def by (intro conjI allI impI) (rule a [THEN conjunct1], rule a [THEN conjunct2], erule d)
  moreover have "cnt_of (refs(p := 1)) ?s = cnt_of refs s" unfolding cnt_of_def c using p' by (simp add: fun_eq_iff)
  ultimately show "pc_inv (refs(p := 1), S, upd_pc cpu f ?s)"
    using I p' c by (simp add: pc_inv_def buckets_ok_upd [OF f]) (simp add: buckets_ok_def cpu_buckets_def)
qed

lemma push_ok:
  assumes I: "pc_inv (refs, S, s)" and p: "refs p = 1" and b: "length (stack s b) < MAX_STACK_SIZE" and f: "\<And>c. bucket (f c) = bucket c"
  shows "pc_inv (refs(p := 0), S, upd_pc cpu f (s\<lparr>stack := (stack s)(b := p # stack s b)\<rparr>))"
proof -
  let ?s = "s\<lparr>stack := (stack s)(b := p # stack s b)\<rparr>"
  note ok = pc_invD(3) [OF I]
  have p': "p \<notin> cached s" using pc_invD(2) [OF I, of p] p by auto
  then have out: "p \<notin> set (stack s c)" for c by (auto simp: cached_def)
  have c: "cached ?s = insert p (cached s)" by (auto simp: cached_def split: if_splits)
  have "stacks_ok ?s" using ok out b unfolding stacks_ok_def by (auto simp: disjoint_iff)
  moreover have "cnt_of (refs(p := 0)) ?s = cnt_of refs s" unfolding cnt_of_def c using p' p by (simp add: fun_eq_iff)
  ultimately show ?thesis
    using I c by (simp add: pc_inv_def buckets_ok_upd [OF f]) (simp add: buckets_ok_def cpu_buckets_def)
qed

lemma pc_inv_cong:
  assumes "mem s' = mem s" "stack s' = stack s" "empty_buckets s' = empty_buckets s" "full_buckets s' = full_buckets s"
    "\<And>c. bucket (page_cache s' c) = bucket (page_cache s c)" "g_conf_zeropage_cache s' = g_conf_zeropage_cache s"
  shows "pc_inv (refs, S, s') = pc_inv (refs, S, s)"
  by (simp add: pc_inv_def assms cached_def stacks_ok_def cnt_of_def buckets_ok_def cpu_buckets_def)

lemma pc_inv_mem:
  assumes "pc_inv (refs, S, s)" "pages_inv (cnt_of refs' s) S' m'" "\<And>p. p \<in> cached s \<Longrightarrow> refs' p = 0"
    "stack s' = stack s" "empty_buckets s' = empty_buckets s" "full_buckets s' = full_buckets s"
    "page_cache s' = page_cache s" "g_conf_zeropage_cache s' = g_conf_zeropage_cache s" "mem s' = m'"
  shows "pc_inv (refs', S', s')"
  using assms by (simp add: pc_inv_def cached_def stacks_ok_def cnt_of_def buckets_ok_def cpu_buckets_def)

section \<open>Allocation\<close>

lemma cache_take_ok:
  assumes I: "pc_inv (refs, S, s)" and cpu: "cpu < MAX_CPUS"
  obtains (none) s' where "cache_take cpu s = (None, s')" "pc_inv (refs, S, s')" "mem s' = mem s"
    | (page) p s' where "cache_take cpu s = (Some p, s')" "pc_inv (refs(p := 1), S, s')" "refs p = 0" "mem s' = mem s"
proof (cases "inuse (page_cache s cpu)")
  case True
  then show thesis using none [of s] I by (simp add: cache_take_def)
next
  case False
  obtain b where b: "bucket (page_cache s cpu) = Some b" using pc_invD(4) [OF I] cpu by (auto simp: buckets_ok_def)
  obtain b' s1 where r: "refill cpu b s = (b', s1)" by fastforce
  have I1: "pc_inv (refs, S, s1)" and m1: "mem s1 = mem s"
    using r I get_bucket_ok(1) [OF I cpu b] b
    by (auto simp: refill_def get_bucket_def Let_def split: if_splits prod.splits list.splits)
  show thesis
  proof (cases "stack s1 b'")
    case Nil
    let ?f = "\<lambda>c. c\<lparr>pc_miss_alloc := pc_miss_alloc c + 1\<rparr>"
    have "pc_inv (refs, S, upd_pc cpu ?f s1)" using I1 by (subst pc_inv_cong [where s = s1]) (auto simp: upd_pc_def)
    then show thesis using none [of "upd_pc cpu ?f s1"] False b r Nil m1 by (simp add: cache_take_def)
  next
    case (Cons p ps)
    then show thesis
      using page [of p] pop_ok [OF I1 Cons, of "\<lambda>c. c\<lparr>pc_count := pc_count c - 1, pc_allocs := pc_allocs c + 1\<rparr>" cpu]
        top_cached(2) [OF I1 Cons] False b r m1
      by (simp add: cache_take_def)
  qed
qed

text \<open>What an allocation with the flags does to the pages in use.\<close>

definition given :: "u32 \<Rightarrow> nat \<Rightarrow> (nat \<Rightarrow> nat) \<times> nat set \<Rightarrow> (nat \<Rightarrow> nat) \<times> nat set" where
  "given flags p = (\<lambda>(refs, S). if flags AND MEM_NETBUF \<noteq> 0 then (refs(p := 1), S) else (refs, insert p S))"

definition fresh :: "u32 \<Rightarrow> nat \<Rightarrow> (nat \<Rightarrow> nat) \<times> nat set \<Rightarrow> bool" where
  "fresh flags p = (\<lambda>(refs, S). if flags AND MEM_NETBUF \<noteq> 0 then refs p = 0 else p \<notin> S)"

definition pc_state :: "(nat \<Rightarrow> nat) \<times> nat set \<Rightarrow> page_caches \<Rightarrow> (nat \<Rightarrow> nat) \<times> nat set \<times> page_caches" where
  "pc_state = (\<lambda>(refs, S) s. (refs, S, s))"

lemma cnt_of_upd: "p \<notin> cached s \<Longrightarrow> cnt_of (refs(p := n)) s = (cnt_of refs s)(p := n)"
  by (auto simp: cnt_of_def)

lemma cnt_not_cached: "cnt_of refs s p = 0 \<Longrightarrow> p \<notin> cached s \<and> refs p = 0"
  by (auto simp: cnt_of_def split: if_splits)

lemma alloc_last_ok:
  assumes I: "pc_inv (refs, S, s)"
  obtains (none) s' where "alloc_last flags s = Some (None, s')" "pc_inv (refs, S, s')"
    | (page) p s' where "alloc_last flags s = Some (Some p, s')" "pc_inv (pc_state (given flags p (refs, S)) s')" "fresh flags p (refs, S)"
proof -
  note P = pc_invD(1) [OF I] and z = pc_invD(5) [OF I]
  show thesis
  proof (cases "flags AND MEM_NETBUF = 0")
    case True
    show thesis
    proof (rule alloc_single_ok [OF P, of flags])
      fix m' assume m': "alloc_block flags 0 (mem s) = Some (None, m')" "pages_inv (cnt_of refs s) S m'"
      let ?s = "s\<lparr>stat_page_allocs := stat_page_allocs s + 1, mem := m'\<rparr>"
      have "pc_inv (refs, S, ?s)" using pc_invD(2) [OF I] m'(2) by (intro pc_inv_mem [OF I, of refs S m']) auto
      then show thesis using none [of ?s] m'(1) True z by (simp add: alloc_last_def Let_def)
    next
      fix p m' assume m': "alloc_block flags 0 (mem s) = Some (Some p, m')" "pages_inv (cnt_of refs s) (insert p S) m'" "p \<notin> S"
      let ?s = "s\<lparr>stat_page_allocs := stat_page_allocs s + 1, mem := m', g_stat_memalloc_small := g_stat_memalloc_small s + 1\<rparr>"
      have "pc_inv (refs, insert p S, ?s)" using pc_invD(2) [OF I] m'(2) by (intro pc_inv_mem [OF I, of refs "insert p S" m']) auto
      then show thesis using page [of p ?s] m'(1,3) True z by (simp add: alloc_last_def Let_def pc_state_def given_def fresh_def)
    qed
  next
    case False
    show thesis
    proof (rule alloc_net_ok [OF P, of flags])
      fix m' assume m': "alloc_block flags 2 (mem s) = Some (None, m')" "pages_inv (cnt_of refs s) S m'"
      let ?s = "s\<lparr>stat_page_allocs := stat_page_allocs s + 1, mem := m'\<rparr>"
      have "pc_inv (refs, S, ?s)" using pc_invD(2) [OF I] m'(2) by (intro pc_inv_mem [OF I, of refs S m']) auto
      then show thesis using none [of ?s] m'(1) False z by (simp add: alloc_last_def Let_def)
    next
      fix p m' assume m': "alloc_block flags 2 (mem s) = Some (Some p, m')"
        "pages_inv ((cnt_of refs s)(p := 1)) S (PageSetNetBuf p m')" "cnt_of refs s p = 0"
      let ?s = "s\<lparr>stat_page_allocs := stat_page_allocs s + 1, mem := PageSetNetBuf p m', g_stat_memalloc_large := g_stat_memalloc_large s + 1\<rparr>"
      note p = cnt_not_cached [OF m'(3)]
      have "pc_inv (refs(p := 1), S, ?s)"
        using pc_invD(2) [OF I] m'(2) p by (intro pc_inv_mem [OF I, of "refs(p := 1)" S "PageSetNetBuf p m'"]) (auto simp: cnt_of_upd)
      then show thesis using page [of p ?s] m'(1) p False z by (simp add: alloc_last_def Let_def pc_state_def given_def fresh_def)
    qed
  qed
qed

lemma jalloc_page_ok:
  assumes I: "pc_inv (refs, S, s)" and cpu: "cpu < MAX_CPUS"
  obtains (none) s' where "jalloc_page flags cpu s = Some (None, s')" "pc_inv (refs, S, s')"
    | (page) p s' where "jalloc_page flags cpu s = Some (Some p, s')" "pc_inv (pc_state (given flags p (refs, S)) s')"
      "fresh flags p (refs, S)"
proof -
  define clear where "clear \<longleftrightarrow> flags AND MEM_CLEAR \<noteq> 0"
  show thesis
  proof (cases "\<not> clear \<and> g_conf_percpu_pagecache s \<and> flags AND MEM_NETBUF \<noteq> 0")
    case True
    show thesis
    proof (rule cache_take_ok [OF I cpu])
      fix s' assume s': "cache_take cpu s = (None, s')" "pc_inv (refs, S, s')"
      have op: "jalloc_page flags cpu s = alloc_last flags s'" using True s'(1) by (simp add: jalloc_page_def clear_def)
      show thesis by (rule alloc_last_ok [OF s'(2), of flags]) (use none page op in simp_all)
    next
      fix p s' assume "cache_take cpu s = (Some p, s')" "pc_inv (refs(p := 1), S, s')" "refs p = 0"
      then show thesis using page [of p s'] True by (simp add: jalloc_page_def clear_def pc_state_def given_def fresh_def)
    qed
  next
    case False
    let ?s = "if clear then s\<lparr>stat_page_alloc_zero := stat_page_alloc_zero s + 1\<rparr> else s"
    have op: "jalloc_page flags cpu s = alloc_last flags ?s" using False by (auto simp: jalloc_page_def clear_def)
    have "pc_inv (refs, S, ?s)" using I by (subst pc_inv_cong [where s = s]) auto
    then show thesis by (rule alloc_last_ok [of refs S ?s flags]) (use none page op in simp_all)
  qed
qed

section \<open>Release\<close>

lemma cache_put_ok:
  assumes I: "pc_inv (refs, S, s)" and cpu: "cpu < MAX_CPUS" and p: "refs p = 1"
  obtains (kept) s' where "cache_put cpu p s = (True, s')" "pc_inv (refs(p := 0), S, s')"
    | (refused) s' where "cache_put cpu p s = (False, s')" "pc_inv (refs, S, s')" "mem s' = mem s"
proof (cases "inuse (page_cache s cpu)")
  case True
  then show thesis using refused [of s] I by (simp add: cache_put_def)
next
  case False
  obtain b where b: "bucket (page_cache s cpu) = Some b" using pc_invD(4) [OF I] cpu by (auto simp: buckets_ok_def)
  obtain b' s1 where r: "make_room cpu b s = (b', s1)" by fastforce
  have I1: "pc_inv (refs, S, s1)" and m1: "mem s1 = mem s"
    using r I get_bucket_ok(1) [OF I cpu b] b
    by (auto simp: make_room_def get_bucket_def Let_def split: if_splits prod.splits list.splits)
  show thesis
  proof (cases "length (stack s1 b') < MAX_STACK_SIZE \<and> pc_count (page_cache s1 cpu) < MAX_PAGES_PER_CPU_CACHE")
    case True
    then show thesis
      using kept push_ok [OF I1 p, of b' "\<lambda>c. c\<lparr>pc_count := pc_count c + 1, pc_frees := pc_frees c + 1\<rparr>" cpu] False b r
      by (simp add: cache_put_def)
  next
    case full: False
    let ?f = "\<lambda>c. c\<lparr>pc_miss_free := pc_miss_free c + 1\<rparr>"
    have "pc_inv (refs, S, upd_pc cpu ?f s1)" using I1 by (subst pc_inv_cong [where s = s1]) (auto simp: upd_pc_def)
    then show thesis using refused [of "upd_pc cpu ?f s1"] False b r full m1 by (auto simp: cache_put_def)
  qed
qed

lemma free_last_net_ok:
  assumes I: "pc_inv (refs, S, s)" and p: "refs p = 1"
  obtains s' where "free_last True p s = Some s'" "pc_inv (refs(p := 0), S, s')"
proof -
  have c: "cnt_of refs s p = 1" using pc_inv_refs [OF I, of p] p by simp
  have out: "p \<notin> cached s" using pc_invD(2) [OF I, of p] p by auto
  show thesis
  proof (rule free_net_ok [OF pc_invD(1) [OF I] c])
    fix m' assume m': "free_block 2 p (PageClearNetBuf p (mem s)) = Some m'" "pages_inv ((cnt_of refs s)(p := 0)) S m'"
    let ?s = "s\<lparr>stat_page_frees := stat_page_frees s + 1, mem := m', g_stat_memalloc_large := g_stat_memalloc_large s - 1\<rparr>"
    have "pc_inv (refs(p := 0), S, ?s)"
      using pc_invD(2) [OF I] m'(2) out by (intro pc_inv_mem [OF I, of "refs(p := 0)" S m']) (auto simp: cnt_of_upd)
    then show thesis using that [of ?s] m'(1) pc_invD(5) [OF I] by (simp add: free_last_def Let_def)
  qed
qed

lemma free_last_single_ok:
  assumes I: "pc_inv (refs, S, s)" and p: "p \<in> S"
  obtains s' where "free_last False p s = Some s'" "pc_inv (refs, S - {p}, s')"
proof (rule free_single_ok [OF pc_invD(1) [OF I] p])
  fix m' assume m': "free_block 0 p (mem s) = Some m'" "pages_inv (cnt_of refs s) (S - {p}) m'"
  let ?s = "s\<lparr>stat_page_frees := stat_page_frees s + 1, mem := m', g_stat_memalloc_small := g_stat_memalloc_small s - 1\<rparr>"
  have "pc_inv (refs, S - {p}, ?s)" using pc_invD(2) [OF I] m'(2) by (intro pc_inv_mem [OF I, of refs "S - {p}" m']) auto
  then show thesis using that [of ?s] m'(1) pc_invD(5) [OF I] by (simp add: free_last_def Let_def)
qed

lemma net_in_use:
  assumes I: "pc_inv (refs, S, s)" and p: "0 < refs p"
  shows "p < g_max_mapnr (mem s)" "PageNetBuf p (mem s)" "pcount (g_mem_map (mem s) p) = of_nat (refs p)" "refs p < 2 ^ 31"
    "p \<notin> S" "p \<notin> cached s"
proof -
  have c: "cnt_of refs s p = refs p" by (rule pc_inv_refs [OF I p])
  note h = pages_invD(2) [OF pc_invD(1) [OF I], of p, unfolded c, OF p]
  show "p < g_max_mapnr (mem s)" by (rule net_held_start [OF h])
  show "PageNetBuf p (mem s)" "pcount (g_mem_map (mem s) p) = of_nat (refs p)" "refs p < 2 ^ 31" using h by (simp_all add: net_held_def)
  show "p \<notin> S" using pages_invD(5) [OF pc_invD(1) [OF I], of p] p c by auto
  show "p \<notin> cached s" using pc_invD(2) [OF I, of p] p by auto
qed

lemma single_in_use:
  assumes I: "pc_inv (refs, S, s)" and p: "p \<in> S"
  shows "p < g_max_mapnr (mem s)" "\<not> PageNetBuf p (mem s)"
  using pages_invD(3) [OF pc_invD(1) [OF I] p] held_start [of 0 p "mem s"] by (auto simp: held_block_def page_clean_def)

lemma set_refs_pc:
  assumes I: "pc_inv (refs, S, s)" and p: "0 < refs p" and n: "0 < n" "n < 2 ^ 31"
  shows "pc_inv (refs(p := n), S, s\<lparr>mem := page_set_count p (of_nat n) (mem s)\<rparr>)"
proof -
  have "pages_inv ((cnt_of refs s)(p := n)) S (page_set_count p (of_nat n) (mem s))"
    using set_refs_ok [OF pc_invD(1) [OF I], of p n] pc_inv_refs [OF I p] p n by simp
  then show ?thesis using pc_invD(2) [OF I] net_in_use(6) [OF I p]
    by (intro pc_inv_mem [OF I, of "refs(p := n)" S]) (auto simp: cnt_of_upd)
qed

text \<open>What a release does to the pages in use.\<close>

definition taken :: "nat \<Rightarrow> (nat \<Rightarrow> nat) \<times> nat set \<Rightarrow> (nat \<Rightarrow> nat) \<times> nat set" where
  "taken p = (\<lambda>(refs, S). if 0 < refs p then (refs(p := refs p - 1), S) else (refs, S - {p}))"

lemma sint_of_nat_u32: "n < 2 ^ 31 \<Longrightarrow> sint (of_nat n :: u32) = int n"
  by (simp add: signed_of_nat signed_take_bit_int_eq_self)

lemma free_one_ok:
  assumes I: "pc_inv (refs, S, s)" and cpu: "cpu < MAX_CPUS" and p: "0 < refs p \<or> p \<in> S"
  obtains (ok) s' where "free_one cpu p s = Some s'" "pc_inv (pc_state (taken p (refs, S)) s')"
proof (cases "0 < refs p")
  case False
  then have S: "p \<in> S" using p by simp
  note u = single_in_use [OF I S]
  show thesis by (rule free_last_single_ok [OF I S]) (use ok u False in \<open>simp add: free_one_def Let_def taken_def pc_state_def\<close>)
next
  case True
  note u = net_in_use [OF I True]
  have si: "sint (pcount (g_mem_map (mem s) p)) = int (refs p)" using u(3,4) by (simp add: sint_of_nat_u32)
  show thesis
  proof (cases "refs p = 1")
    case one: True
    have op: "free_one cpu p s = (case (if g_conf_percpu_pagecache s then cache_put cpu p s else (False, s)) of
        (True, s) \<Rightarrow> Some s | (False, s) \<Rightarrow> free_last True p s)"
      using u(1,2) si one by (simp add: free_one_def Let_def)
    have fin: "thesis" if "pc_inv (refs, S, s1)" "free_one cpu p s = free_last True p s1" for s1
      by (rule free_last_net_ok [OF that(1) one]) (use ok that one in \<open>simp add: taken_def pc_state_def\<close>)
    show thesis
    proof (cases "g_conf_percpu_pagecache s")
      case True
      show thesis
        by (rule cache_put_ok [OF I cpu one]) (use ok fin op True one in \<open>simp_all add: taken_def pc_state_def\<close>)
    qed (use fin [OF I] op in simp)
  next
    case False
    then have n: "0 < refs p - 1" "refs p - 1 < 2 ^ 31" "sint (pcount (g_mem_map (mem s) p)) > 1"
      using True u(4) si by (simp_all add: less_imp_diff_less)
    have "pcount (g_mem_map (mem s) p) - 1 = of_nat (refs p - 1)" using u(3) True by (simp add: of_nat_diff)
    then show thesis
      using ok set_refs_pc [OF I True n(1,2)] u(1,2) n(3) True by (simp add: free_one_def Let_def taken_def pc_state_def)
  qed
qed

lemma jpage_dup_ok:
  assumes I: "pc_inv (refs, S, s)" and p: "0 < refs p" "refs p + 1 < 2 ^ 31"
  shows "\<exists>s'. jpage_dup p s = Some (JSUCCESS, s') \<and> pc_inv (refs(p := refs p + 1), S, s')"
proof -
  have "pcount (g_mem_map (mem s) p) + 1 = of_nat (refs p + 1)" using net_in_use(3) [OF I p(1)] by simp
  then show ?thesis using net_in_use(1,2) [OF I p(1)] set_refs_pc [OF I p(1) _ p(2)] by (simp add: jpage_dup_def add.commute)
qed

section \<open>Runs\<close>

text \<open>The state of a run: the reference counts of the network buffers in use, the single pages in use, and the caches.\<close>

datatype pc_op = JAlloc u32 nat | JFree nat nat | JDup nat

fun pc_exec :: "pc_op \<Rightarrow> (nat \<Rightarrow> nat) \<times> nat set \<times> page_caches \<Rightarrow> ((nat \<Rightarrow> nat) \<times> nat set \<times> page_caches) option" where
  "pc_exec (JAlloc flags cpu) (refs, S, s) = do {
     (r, s) \<leftarrow> jalloc_page flags cpu s;
     Some (case r of None \<Rightarrow> (refs, S, s) | Some p \<Rightarrow> pc_state (given flags p (refs, S)) s) }"
| "pc_exec (JFree cpu p) (refs, S, s) = do { s \<leftarrow> jfree_page cpu p s; Some (pc_state (taken p (refs, S)) s) }"
| "pc_exec (JDup p) (refs, S, s) = do {
     (r, s) \<leftarrow> jpage_dup p s;
     Some (if r = JSUCCESS then refs(p := refs p + 1) else refs, S, s) }"

fun pc_legal :: "pc_op \<Rightarrow> (nat \<Rightarrow> nat) \<times> nat set \<times> page_caches \<Rightarrow> bool" where
  "pc_legal (JAlloc flags cpu) (refs, S, s) \<longleftrightarrow> cpu < MAX_CPUS"
| "pc_legal (JFree cpu p) (refs, S, s) \<longleftrightarrow> cpu < MAX_CPUS \<and> (0 < refs p \<or> p \<in> S)"
| "pc_legal (JDup p) (refs, S, s) \<longleftrightarrow> 0 < refs p \<and> refs p + 1 < 2 ^ 31"

interpretation page_caching: machine pc_exec pc_legal pc_inv
proof unfold_locales
  fix t e assume I: "pc_inv t" and ok: "pc_legal e t"
  obtain refs S s where t: "t = (refs, S, s)" by (cases t) auto
  note I = I [unfolded t]
  show "\<exists>t'. pc_exec e t = Some t' \<and> pc_inv t'"
  proof (cases e)
    case (JAlloc flags cpu)
    then have "cpu < MAX_CPUS" using ok by (simp add: t)
    then show ?thesis unfolding t JAlloc by (rule jalloc_page_ok [OF I, of cpu flags]) simp_all
  next
    case (JFree cpu p)
    then have "cpu < MAX_CPUS" "0 < refs p \<or> p \<in> S" using ok by (simp_all add: t)
    then show ?thesis unfolding t JFree by (rule free_one_ok [OF I, of cpu p]) (simp add: jfree_page_def)
  next
    case (JDup p)
    then show ?thesis using ok jpage_dup_ok [OF I, of p] by (auto simp: t)
  qed
qed

section \<open>Boot\<close>

lemma give_buckets:
  "distinct cpus \<Longrightarrow> length cpus \<le> length (empty_buckets s) \<Longrightarrow>
   empty_buckets (foldl give_bucket s cpus) = drop (length cpus) (empty_buckets s)
   \<and> (\<forall>i < length cpus. bucket (page_cache (foldl give_bucket s cpus) (cpus ! i)) = Some (empty_buckets s ! i))
   \<and> (\<forall>c. c \<notin> set cpus \<longrightarrow> page_cache (foldl give_bucket s cpus) c = page_cache s c)
   \<and> stack (foldl give_bucket s cpus) = stack s \<and> full_buckets (foldl give_bucket s cpus) = full_buckets s
   \<and> mem (foldl give_bucket s cpus) = mem s \<and> g_conf_zeropage_cache (foldl give_bucket s cpus) = g_conf_zeropage_cache s"
proof (induction cpus arbitrary: s)
  case Nil
  then show ?case by simp
next
  case (Cons c cs)
  obtain b bs where e: "empty_buckets s = b # bs" using Cons.prems by (cases "empty_buckets s") auto
  let ?s = "give_bucket s c" and ?t = "foldl give_bucket (give_bucket s c) cs"
  have s: "empty_buckets ?s = bs" "bucket (page_cache ?s c) = Some b" "\<forall>d. d \<noteq> c \<longrightarrow> page_cache ?s d = page_cache s d"
    "stack ?s = stack s" "full_buckets ?s = full_buckets s" "mem ?s = mem s" "g_conf_zeropage_cache ?s = g_conf_zeropage_cache s"
    using e by (simp_all add: give_bucket_def upd_pc_def)
  have IH: "empty_buckets ?t = drop (length cs) bs" "\<forall>i < length cs. bucket (page_cache ?t (cs ! i)) = Some (bs ! i)"
    "\<forall>d. d \<notin> set cs \<longrightarrow> page_cache ?t d = page_cache ?s d" "stack ?t = stack s" "full_buckets ?t = full_buckets s" "mem ?t = mem s"
    "g_conf_zeropage_cache ?t = g_conf_zeropage_cache s"
    using Cons.IH [of ?s] Cons.prems e s by simp_all
  have "bucket (page_cache ?t ((c # cs) ! i)) = Some (empty_buckets s ! i)" if "i < length (c # cs)" for i
    using that IH(2,3) s(2) Cons.prems(1) e by (cases i) auto
  then show ?case using IH e s(3) by simp
qed

lemma init_percpu_ok:
  assumes "buddy_inv (mem s)" "\<not> g_conf_zeropage_cache s"
  shows "pc_inv (\<lambda>_. 0, {}, init_percpu_page_cache s)" "mem (init_percpu_page_cache s) = mem s"
proof -
  let ?t = "init_percpu_page_cache s" and ?E = "rev [0 ..< MAX_BUCKETS]"
  have e: "foldl (\<lambda>bs i. i # bs) ys xs = rev xs @ ys" for xs ys :: "nat list" by (induction xs arbitrary: ys) auto
  have n: "length [0 ..< MAX_CPUS] \<le> length ?E" by (simp add: MAX_BUCKETS_def)
  have t: "empty_buckets ?t = drop MAX_CPUS ?E" "\<forall>c < MAX_CPUS. bucket (page_cache ?t c) = Some (?E ! c)"
    "stack ?t = (\<lambda>_. [])" "full_buckets ?t = []" "mem ?t = mem s" "g_conf_zeropage_cache ?t = g_conf_zeropage_cache s"
  proof -
    define s0 where "s0 = s\<lparr>page_cache := (\<lambda>_. \<lparr>inuse = False, bucket = None, pc_count = 0, pc_allocs = 0, pc_frees = 0,
      pc_miss_alloc = 0, pc_miss_free = 0, pc_fills = 0, pc_emptys = 0\<rparr>), stack := (\<lambda>_. []), full_buckets := [], empty_buckets := ?E\<rparr>"
    have s0: "empty_buckets s0 = ?E" "stack s0 = (\<lambda>_. [])" "full_buckets s0 = []" "mem s0 = mem s"
      "g_conf_zeropage_cache s0 = g_conf_zeropage_cache s" by (simp_all add: s0_def)
    have "?t = foldl give_bucket s0 [0 ..< MAX_CPUS]" by (simp add: init_percpu_page_cache_def e s0_def)
    then show "empty_buckets ?t = drop MAX_CPUS ?E" "\<forall>c < MAX_CPUS. bucket (page_cache ?t c) = Some (?E ! c)"
      "stack ?t = (\<lambda>_. [])" "full_buckets ?t = []" "mem ?t = mem s" "g_conf_zeropage_cache ?t = g_conf_zeropage_cache s"
      using give_buckets [of "[0 ..< MAX_CPUS]" s0] n by (simp_all add: s0)
  qed
  have "cpu_buckets ?t = take MAX_CPUS ?E" using t(2) n by (intro nth_equalityI) (simp_all add: cpu_buckets_def)
  then have "mset (empty_buckets ?t @ full_buckets ?t @ cpu_buckets ?t) = mset (drop MAX_CPUS ?E) + mset (take MAX_CPUS ?E)"
    using t(1,4) by simp
  also have "\<dots> = mset (take MAX_CPUS ?E @ drop MAX_CPUS ?E)" by (simp only: mset_append union_commute)
  also have "\<dots> = mset [0 ..< MAX_BUCKETS]" by (simp only: append_take_drop_id mset_rev)
  finally have "buckets_ok ?t" using t(2) by (simp add: buckets_ok_def)
  then show "pc_inv (\<lambda>_. 0, {}, ?t)"
    using assms by (simp add: pc_inv_def pages_inv_def cached_def stacks_ok_def cnt_of_def t)
  show "mem ?t = mem s" by (rule t(5))
qed

section \<open>Limits of the caches\<close>

text \<open>
  The page count of a cpu is not the number of its pages: full buckets move from cpu to cpu, the counts do not. A cpu that has freed
  nothing and takes a page from a full bucket gets the count \<open>2 ^ 64 - 1\<close>, after which it never puts a page into its bucket.
\<close>

lemma cpu_count_wraps:
  assumes "\<not> inuse (page_cache s cpu)" "bucket (page_cache s cpu) = Some b" "stack s b = []" "full_buckets s = f # fs"
    "stack s f = p # ps" "pc_count (page_cache s cpu) = 0" "g_conf_percpu_pagecache s"
  shows "\<exists>s'. jalloc_page MEM_NETBUF cpu s = Some (Some p, s') \<and> pc_count (page_cache s' cpu) = - 1 \<and> \<not> fst (cache_put cpu q s')"
  using assms
  by (auto simp: jalloc_page_def cache_take_def refill_def get_bucket_def Let_def upd_pc_def MEM_NETBUF_def MEM_CLEAR_def
      cache_put_def make_room_def MAX_PAGES_PER_CPU_CACHE_def split: list.splits)

text \<open>
  With the cache of zeroed pages switched on, a single page that is released can come back as a network buffer, which is
  four pages long.
\<close>

lemma zeropage_cache_mixes_sizes:
  assumes "g_conf_zeropage_cache s" "init_zeropage_cache_done s" "\<not> g_conf_percpu_pagecache s" "\<not> PageNetBuf p (mem s)"
    "p < g_max_mapnr (mem s)" "length (dirtypages_list s) < MAX_ZEROLIST_SIZE"
  shows "\<exists>s1 s2. jfree_page cpu p s = Some s1 \<and> jalloc_page MEM_NETBUF cpu s1 = Some (Some p, s2) \<and> \<not> PageNetBuf p (mem s2)"
  using assms
  by (auto simp: jfree_page_def free_one_def free_last_def insert_into_zeropagecache_def jalloc_page_def alloc_last_def
      get_from_zeropagecache_def MEM_NETBUF_def MEM_CLEAR_def Let_def)

section \<open>Properties\<close>

definition blank_caches :: page_caches where
  "blank_caches = \<lparr>mem = small_memory, stack = (\<lambda>_. []), empty_buckets = [], full_buckets = [],
     page_cache = (\<lambda>_. \<lparr>inuse = False, bucket = None, pc_count = 0, pc_allocs = 0, pc_frees = 0, pc_miss_alloc = 0,
       pc_miss_free = 0, pc_fills = 0, pc_emptys = 0\<rparr>), init_zeropage_cache_done = False, dirtypages_list = [], cleanpages_list = [],
     g_conf_zeropage_cache = False, g_conf_percpu_pagecache = True, stat_page_allocs = 0, stat_page_alloc_zero = 0,
     stat_page_frees = 0, g_stat_memalloc_large = 0, g_stat_memalloc_small = 0\<rparr>"

text \<open>
  C38: with the cache of zeroed pages switched off, as it is by default, every sequence of page allocations with any flags on any
  cpus, of releases of pages in use and of additional references to network buffers runs to its end without a failed assertion,
  whatever calls it interrupts. At the end every network buffer in use has the number of references that were taken, the
  blocks in use do not overlap each other, are not free in the page allocator and are in no bucket, and every bucket belongs to
  one cpu or is on one of the two lists.
\<close>

theorem page_cache_runs_safe:
  assumes "pc_inv (refs, S, s)" "legal_run pc_exec pc_legal ops (refs, S, s)"
  shows "\<exists>refs' S' s'. run_ops pc_exec ops (refs, S, s) = Some (refs', S', s') \<and> pc_inv (refs', S', s')
    \<and> (\<forall>p. 0 < refs' p \<longrightarrow> pcount (g_mem_map (mem s') p) = of_nat (refs' p) \<and> S' \<inter> block 2 p = {}
         \<and> block 2 p \<inter> free_pages (mem s') = {} \<and> (\<forall>b. p \<notin> set (stack s' b)))
    \<and> (\<forall>p q. 0 < refs' p \<longrightarrow> 0 < refs' q \<longrightarrow> p \<noteq> q \<longrightarrow> block 2 p \<inter> block 2 q = {})
    \<and> S' \<inter> free_pages (mem s') = {} \<and> distinct (empty_buckets s' @ full_buckets s' @ cpu_buckets s')"
proof -
  obtain refs' S' s' where r: "run_ops pc_exec ops (refs, S, s) = Some (refs', S', s')" and I: "pc_inv (refs', S', s')"
    using page_caching.run_keeps_inv [OF assms] by (metis prod_cases3)
  note P = pc_invD(1) [OF I]
  have c: "0 < cnt_of refs' s' p" if "0 < refs' p" for p using pc_inv_refs [OF I that] that by simp
  have "mset (empty_buckets s' @ full_buckets s' @ cpu_buckets s') = mset [0 ..< MAX_BUCKETS]"
    using pc_invD(4) [OF I] by (simp add: buckets_ok_def)
  then have d: "distinct (empty_buckets s' @ full_buckets s' @ cpu_buckets s')" by (metis distinct_upt mset_eq_imp_distinct_iff)
  have "p \<notin> set (stack s' b)" if "0 < refs' p" for p b using net_in_use(6) [OF I that] by (auto simp: cached_def)
  moreover have "S' \<inter> free_pages (mem s') = {}" using pages_not_free(2) [OF P] by blast
  ultimately show ?thesis
    using r I d net_in_use(3) [OF I] pages_not_free(1) [OF P c] pages_invD(5) [OF P c] pages_invD(4) [OF P c c] by blast
qed

theorem page_cache_runs_safe_witness:
  "\<exists>t. run_ops pc_exec [JAlloc MEM_NETBUF 3, JAlloc 0 1] (\<lambda>_. 0, {}, init_percpu_page_cache blank_caches) = Some t"
proof -
  have "pc_inv (\<lambda>_. 0, {}, init_percpu_page_cache blank_caches)"
    by (rule init_percpu_ok(1)) (simp_all add: blank_caches_def small_memory_inv)
  moreover have "legal_run pc_exec pc_legal [JAlloc MEM_NETBUF 3, JAlloc 0 1] (\<lambda>_. 0, {}, init_percpu_page_cache blank_caches)"
    by (auto simp: MAX_CPUS_def simp del: pc_exec.simps split: option.splits)
  ultimately show ?thesis using page_cache_runs_safe by blast
qed

end
