(* ===== verification/Vmalloc.thy ===== *)
theory Vmalloc
  imports Buddy
begin

text \<open>
  The vmalloc area of mm/jslab.c: up to a hundred blocks of 2 MB that are handed out whole. \<open>int\<close> is the type of the C
  variables of that name as far as they do not wrap; the number of blocks is computed at the width of the code.
  \<^term>\<open>None\<close> is the endless loop at the end of \<open>vfree\<close>.
\<close>

section \<open>Definitions\<close>

definition MAX_VBLOCKS :: nat where "MAX_VBLOCKS = 100"
definition vblock_size :: nat where "vblock_size = 0x200000"

record vblock =
  vb_addr :: u64
  vb_size :: int
  is_free :: bool

record vmalloc_area =
  vblocks :: "vblock list"
  g_vmalloc_start :: u64
  g_vmalloc_size :: u64
  vmalloc_initiated :: bool
  vbytes :: "u64 \<Rightarrow> u8"

definition total_blocks :: "vmalloc_area \<Rightarrow> int" where
  "total_blocks s = sint (ucast (g_vmalloc_size s div of_nat vblock_size) :: u32)"

definition init_vblock :: "vmalloc_area \<Rightarrow> nat \<Rightarrow> vblock" where
  "init_vblock s i =
     (if int i < total_blocks s then \<lparr>vb_addr = g_vmalloc_start s + of_nat (i * vblock_size), vb_size = int vblock_size, is_free = True\<rparr>
      else \<lparr>vb_addr = 0, vb_size = 0, is_free = False\<rparr>)"

definition init_jslab_vmalloc :: "vmalloc_area \<Rightarrow> int \<times> vmalloc_area" where
  "init_jslab_vmalloc s =
     (JSUCCESS, s\<lparr>vblocks := map (init_vblock s) [0 ..< MAX_VBLOCKS],
        vbytes := (vbytes s)(g_vmalloc_start s := 0x31, g_vmalloc_start s + g_vmalloc_size s - 10 := 0x31),
        vmalloc_initiated := True\<rparr>)"

text \<open>The search for a block that is free and larger than the size.\<close>

fun vmalloc_find :: "int \<Rightarrow> int \<Rightarrow> nat \<Rightarrow> vblock list \<Rightarrow> nat option" where
  "vmalloc_find nb n i [] = None"
| "vmalloc_find nb n i (b # bs) =
     (if \<not> int i < nb then None
      else if vb_addr b = 0 then None
      else if vb_size b > n \<and> is_free b then Some i
      else vmalloc_find nb n (i + 1) bs)"

definition touch_pages :: "u64 \<Rightarrow> int \<Rightarrow> (u64 \<Rightarrow> u8) \<Rightarrow> u64 \<Rightarrow> u8" where
  "touch_pages p n m = foldl (\<lambda>m j. m(p + of_nat (j * PAGE_SIZE) := 0)) m [0 ..< nat ((n + 4095) div 4096)]"

definition clear_bytes :: "u64 \<Rightarrow> int \<Rightarrow> (u64 \<Rightarrow> u8) \<Rightarrow> u64 \<Rightarrow> u8" where
  "clear_bytes p n m = (\<lambda>a. if a - p < of_int n then 0 else m a)"

definition vmalloc :: "int \<Rightarrow> u32 \<Rightarrow> vmalloc_area \<Rightarrow> u64 \<times> vmalloc_area" where
  "vmalloc n flags s =
     (if \<not> vmalloc_initiated s then (0, s)
      else case vmalloc_find (total_blocks s) n 0 (vblocks s) of
        None \<Rightarrow> (0, s)
      | Some i \<Rightarrow>
          let b = vblocks s ! i;
              s = s\<lparr>vblocks := (vblocks s)[i := b\<lparr>is_free := False\<rparr>], vbytes := touch_pages (vb_addr b) (vb_size b) (vbytes s)\<rparr>;
              s = (if flags AND MEM_CLEAR \<noteq> 0 then s\<lparr>vbytes := clear_bytes (vb_addr b) n (vbytes s)\<rparr> else s)
          in (vb_addr b, s))"

fun vfree_find :: "int \<Rightarrow> u64 \<Rightarrow> nat \<Rightarrow> vblock list \<Rightarrow> nat option" where
  "vfree_find nb addr i [] = None"
| "vfree_find nb addr i (b # bs) =
     (if \<not> int i < nb then None else if vb_addr b = addr then Some i else vfree_find nb addr (i + 1) bs)"

definition vfree :: "u64 \<Rightarrow> vmalloc_area \<Rightarrow> (int \<times> vmalloc_area) option" where
  "vfree addr s =
     (if \<not> vmalloc_initiated s \<or> addr = 0 then Some (JFAIL, s)
      else case vfree_find (total_blocks s) addr 0 (vblocks s) of
        None \<Rightarrow> None
      | Some i \<Rightarrow> Some (JSUCCESS, s\<lparr>vblocks := (vblocks s)[i := (vblocks s ! i)\<lparr>is_free := True\<rparr>]\<rparr>))"

section \<open>Searching\<close>

lemma vmalloc_find_Some:
  "vmalloc_find nb n i bs = Some j \<Longrightarrow>
   i \<le> j \<and> j < i + length bs \<and> int j < nb \<and> vb_addr (bs ! (j - i)) \<noteq> 0 \<and> vb_size (bs ! (j - i)) > n \<and> is_free (bs ! (j - i))"
proof (induction nb n i bs rule: vmalloc_find.induct)
  case (2 nb n i b bs)
  then show ?case by (cases "j = i") (auto simp: nth_Cons' Suc_diff_le split: if_splits dest!: Suc_le_D)
qed simp

lemma vmalloc_find_None:
  "vmalloc_find nb n i bs = None \<Longrightarrow> \<forall>j < length bs. int (i + j) < nb \<longrightarrow> vb_addr (bs ! j) \<noteq> 0 \<Longrightarrow>
   k < length bs \<Longrightarrow> int (i + k) < nb \<Longrightarrow> \<not> (vb_size (bs ! k) > n \<and> is_free (bs ! k))"
proof (induction nb n i bs arbitrary: k rule: vmalloc_find.induct)
  case (2 nb n i b bs)
  have "\<forall>j < length bs. int (i + 1 + j) < nb \<longrightarrow> vb_addr (bs ! j) \<noteq> 0" using 2(3) by force
  moreover have "int i < nb" "vb_addr b \<noteq> 0" using 2(3,5) by force+
  ultimately show ?case using 2(1) [of "k - 1"] 2(2,4,5) by (cases k) (auto split: if_splits)
qed simp

lemma vfree_find_nth:
  assumes "distinct (map vb_addr (take (nat (nb - int i)) bs))" "k < length bs" "int (i + k) < nb" "vb_addr (bs ! k) = addr"
  shows "vfree_find nb addr i bs = Some (i + k)"
  using assms
proof (induction nb addr i bs arbitrary: k rule: vfree_find.induct)
  case (2 nb addr i b bs)
  show ?case
  proof (cases k)
    case 0
    then show ?thesis using 2 by simp
  next
    case (Suc j)
    have n: "nat (nb - int i) = Suc (nat (nb - int (i + 1)))" using 2(4) by simp
    have "bs ! j \<in> set (take (nat (nb - int (i + 1))) bs)" using 2(3,4) Suc by (auto simp: in_set_conv_nth intro!: exI [of _ j])
    then have "vb_addr b \<noteq> addr" using 2(2,5) Suc unfolding n by auto
    then show ?thesis using 2(1) [of j] 2(2-5) Suc n by simp
  qed
qed simp

section \<open>Properties\<close>

text \<open>
  The blocks of an initialised area: at different places, of equal size, free or handed out. \<open>usable\<close> is the number of blocks there are.
\<close>

definition usable :: "vmalloc_area \<Rightarrow> nat" where
  "usable s = min MAX_VBLOCKS (nat (total_blocks s))"

definition vmalloc_inv :: "vmalloc_area \<Rightarrow> bool" where
  "vmalloc_inv s \<longleftrightarrow> vmalloc_initiated s \<and> length (vblocks s) = MAX_VBLOCKS
     \<and> (\<forall>i < usable s. vb_addr (vblocks s ! i) = g_vmalloc_start s + of_nat (i * vblock_size) \<and> vb_addr (vblocks s ! i) \<noteq> 0
          \<and> vb_size (vblocks s ! i) = int vblock_size)"

definition free_vblocks :: "vmalloc_area \<Rightarrow> nat set" where
  "free_vblocks s = {i. i < usable s \<and> is_free (vblocks s ! i)}"

lemma vblock_addr_inj:
  assumes "i < MAX_VBLOCKS" "j < MAX_VBLOCKS" "(g :: u64) + of_nat (i * vblock_size) = g + of_nat (j * vblock_size)"
  shows "i = j"
proof -
  have "k * vblock_size < 2 ^ 64" if "k < MAX_VBLOCKS" for k using that by (simp add: MAX_VBLOCKS_def vblock_size_def)
  moreover have "(of_nat (i * vblock_size) :: u64) = of_nat (j * vblock_size)" using assms(3) by simp
  ultimately have "i * vblock_size = j * vblock_size" using assms(1,2) unat_of_nat_u64 by metis
  then show ?thesis by (simp add: vblock_size_def)
qed

lemma usable_lt: "i < usable s \<longleftrightarrow> i < MAX_VBLOCKS \<and> int i < total_blocks s"
  by (auto simp: usable_def)

lemma init_vmalloc_inv:
  assumes "\<forall>i < usable s. g_vmalloc_start s + of_nat (i * vblock_size) \<noteq> 0"
  shows "vmalloc_inv (snd (init_jslab_vmalloc s))" "free_vblocks (snd (init_jslab_vmalloc s)) = {..< usable s}"
proof -
  have u: "usable (snd (init_jslab_vmalloc s)) = usable s" by (simp add: usable_def total_blocks_def init_jslab_vmalloc_def)
  have "vblocks (snd (init_jslab_vmalloc s)) ! i = \<lparr>vb_addr = g_vmalloc_start s + of_nat (i * vblock_size), vb_size = int vblock_size, is_free = True\<rparr>"
    if "i < usable s" for i using that by (simp add: usable_lt init_jslab_vmalloc_def init_vblock_def)
  then show "vmalloc_inv (snd (init_jslab_vmalloc s))" "free_vblocks (snd (init_jslab_vmalloc s)) = {..< usable s}"
    using assms by (auto simp: vmalloc_inv_def free_vblocks_def u) (auto simp: init_jslab_vmalloc_def)
qed

lemma vblocks_distinct:
  assumes I: "vmalloc_inv s"
  shows "distinct (map vb_addr (take (nat (total_blocks s)) (vblocks s)))"
proof (unfold distinct_conv_nth, intro allI impI)
  fix i j
  assume l: "i < length (map vb_addr (take (nat (total_blocks s)) (vblocks s)))" "j < length (map vb_addr (take (nat (total_blocks s)) (vblocks s)))"
    and ij: "i \<noteq> j"
  have len: "length (vblocks s) = MAX_VBLOCKS" using I by (simp add: vmalloc_inv_def)
  have u: "i < usable s" "j < usable s" using l len by (auto simp: usable_lt)
  then show "map vb_addr (take (nat (total_blocks s)) (vblocks s)) ! i \<noteq> map vb_addr (take (nat (total_blocks s)) (vblocks s)) ! j"
    using I ij l vblock_addr_inj [of i j "g_vmalloc_start s"] by (auto simp: vmalloc_inv_def usable_lt)
qed

lemma set_free_inv:
  assumes "vmalloc_inv s" "i < usable s" "vblocks s' = (vblocks s)[i := (vblocks s ! i)\<lparr>is_free := b\<rparr>]" "g_vmalloc_start s' = g_vmalloc_start s"
    "g_vmalloc_size s' = g_vmalloc_size s" "vmalloc_initiated s' = vmalloc_initiated s"
  shows "vmalloc_inv s'" "free_vblocks s' = (if b then insert i (free_vblocks s) else free_vblocks s - {i})"
proof -
  have u: "usable s' = usable s" using assms(5) by (simp add: usable_def total_blocks_def)
  have len: "length (vblocks s) = MAX_VBLOCKS" using assms(1) by (simp add: vmalloc_inv_def)
  have n: "vblocks s' ! j = (if j = i then (vblocks s ! i)\<lparr>is_free := b\<rparr> else vblocks s ! j)" if "j < usable s" for j
    using that assms(2,3) len by (simp add: nth_list_update usable_lt)
  show "vmalloc_inv s'" using assms(1,4,6) n assms(3) unfolding vmalloc_inv_def u by (auto split: if_splits)
  show "free_vblocks s' = (if b then insert i (free_vblocks s) else free_vblocks s - {i})"
    using n assms(2) by (auto simp: free_vblocks_def u split: if_splits)
qed

lemma vfree_find_None:
  "\<forall>j < length bs. int (i + j) < nb \<longrightarrow> vb_addr (bs ! j) \<noteq> addr \<Longrightarrow> vfree_find nb addr i bs = None"
proof (induction nb addr i bs rule: vfree_find.induct)
  case (2 nb addr i b bs)
  have "\<forall>j < length bs. int (i + 1 + j) < nb \<longrightarrow> vb_addr (bs ! j) \<noteq> addr" using 2(2) by force
  moreover have "int i < nb \<longrightarrow> vb_addr b \<noteq> addr" using 2(2) by force
  ultimately show ?case using 2(1) by auto
qed simp

lemma vmalloc_ok:
  assumes I: "vmalloc_inv s" and n: "0 \<le> n"
  shows "\<exists>a s'. vmalloc n flags s = (a, s') \<and> vmalloc_inv s'
      \<and> (if n < int vblock_size \<and> free_vblocks s \<noteq> {}
         then \<exists>i \<in> free_vblocks s. a = g_vmalloc_start s + of_nat (i * vblock_size) \<and> free_vblocks s' = free_vblocks s - {i}
           \<and> (flags AND MEM_CLEAR \<noteq> 0 \<longrightarrow> (\<forall>j. int j < n \<longrightarrow> vbytes s' (a + of_nat j) = 0))
         else a = 0 \<and> s' = s)"
proof (cases "vmalloc_find (total_blocks s) n 0 (vblocks s)")
  case None
  have "\<not> (n < int vblock_size \<and> is_free (vblocks s ! k))" if "k < usable s" for k
  proof -
    have "\<forall>j < length (vblocks s). int (0 + j) < total_blocks s \<longrightarrow> vb_addr (vblocks s ! j) \<noteq> 0"
      using I unfolding vmalloc_inv_def usable_lt by (metis add_0)
    moreover have "vb_size (vblocks s ! k) = int vblock_size" "k < length (vblocks s)" "int k < total_blocks s"
      using I that by (auto simp: vmalloc_inv_def usable_lt)
    ultimately show ?thesis using vmalloc_find_None [OF None, of k] by simp
  qed
  then have "\<not> (n < int vblock_size \<and> free_vblocks s \<noteq> {})" by (auto simp: free_vblocks_def)
  moreover have "vmalloc n flags s = (0, s)" using None by (simp add: vmalloc_def)
  ultimately show ?thesis using I by simp
next
  case (Some i)
  let ?b = "vblocks s ! i"
  have f: "i < usable s" "?b \<in> {b. vb_size b > n \<and> is_free b}"
    using vmalloc_find_Some [OF Some] I by (auto simp: usable_lt vmalloc_inv_def)
  then have b: "vb_addr ?b = g_vmalloc_start s + of_nat (i * vblock_size)" "n < int vblock_size" using I by (auto simp: vmalloc_inv_def)
  define s' where "s' = snd (vmalloc n flags s)"
  have call: "vmalloc n flags s = (vb_addr ?b, s')" using Some I by (simp add: vmalloc_def vmalloc_inv_def Let_def s'_def)
  have s': "vblocks s' = (vblocks s)[i := ?b\<lparr>is_free := False\<rparr>]" "g_vmalloc_start s' = g_vmalloc_start s"
    "g_vmalloc_size s' = g_vmalloc_size s" "vmalloc_initiated s' = vmalloc_initiated s"
    using Some I by (simp_all add: s'_def vmalloc_def vmalloc_inv_def Let_def)
  have "vbytes s' (vb_addr ?b + of_nat j) = 0" if "flags AND MEM_CLEAR \<noteq> 0" "int j < n" for j
  proof -
    have "nat n < 2 ^ 64" using b(2) by (simp add: vblock_size_def)
    then have "unat (of_nat (nat n) :: u64) = nat n" "unat (of_nat j :: u64) = j"
      using that(2) n by (intro unat_of_nat_u64; simp)+
    moreover have "(of_nat (nat n) :: u64) = of_int n" using n by (simp add: of_nat_nat)
    ultimately have "(of_nat j :: u64) < of_int n" using that(2) n unfolding word_less_nat_alt by simp
    then show ?thesis using that(1) Some I by (simp add: s'_def vmalloc_def vmalloc_inv_def Let_def clear_bytes_def)
  qed
  moreover have "i \<in> free_vblocks s" using f by (simp add: free_vblocks_def)
  ultimately show ?thesis using set_free_inv [OF I f(1) s'] call b by auto
qed

text \<open>
  C39: in an initialised area, \<open>vmalloc\<close> of less than 2 MB returns a block that was free as long as there is one, which is then no
  longer free and is cleared as far as the caller asked for it; otherwise, and for larger sizes, it returns 0 and changes
  nothing. \<open>vfree\<close> of the address of a block makes exactly that block free; of another address that is not 0 it never returns.
  The blocks stay as they were laid out.
\<close>

theorem vmalloc_vfree_correct:
  assumes I: "vmalloc_inv s" and n: "0 \<le> n"
  shows "(\<exists>a s'. vmalloc n flags s = (a, s') \<and> vmalloc_inv s'
      \<and> (if n < int vblock_size \<and> free_vblocks s \<noteq> {}
         then \<exists>i \<in> free_vblocks s. a = g_vmalloc_start s + of_nat (i * vblock_size) \<and> free_vblocks s' = free_vblocks s - {i}
           \<and> (flags AND MEM_CLEAR \<noteq> 0 \<longrightarrow> (\<forall>j. int j < n \<longrightarrow> vbytes s' (a + of_nat j) = 0))
         else a = 0 \<and> s' = s))
    \<and> (\<forall>i < usable s. \<exists>s'. vfree (g_vmalloc_start s + of_nat (i * vblock_size)) s = Some (JSUCCESS, s') \<and> vmalloc_inv s'
         \<and> free_vblocks s' = insert i (free_vblocks s))
    \<and> (\<forall>a. a \<noteq> 0 \<longrightarrow> (\<forall>i < usable s. a \<noteq> g_vmalloc_start s + of_nat (i * vblock_size)) \<longrightarrow> vfree a s = None)"
proof (intro conjI allI impI)
  fix i assume i: "i < usable s"
  have b: "vb_addr (vblocks s ! i) = g_vmalloc_start s + of_nat (i * vblock_size)" "vb_addr (vblocks s ! i) \<noteq> 0"
    using I i unfolding vmalloc_inv_def by blast+
  have "vfree_find (total_blocks s) (vb_addr (vblocks s ! i)) 0 (vblocks s) = Some i"
    using vfree_find_nth [of "total_blocks s" 0 "vblocks s" i] vblocks_distinct [OF I] I i by (simp add: vmalloc_inv_def usable_lt)
  then have "vfree (vb_addr (vblocks s ! i)) s = Some (JSUCCESS, s\<lparr>vblocks := (vblocks s)[i := (vblocks s ! i)\<lparr>is_free := True\<rparr>]\<rparr>)"
    using b(2) I by (simp add: vfree_def vmalloc_inv_def)
  then show "\<exists>s'. vfree (g_vmalloc_start s + of_nat (i * vblock_size)) s = Some (JSUCCESS, s') \<and> vmalloc_inv s'
      \<and> free_vblocks s' = insert i (free_vblocks s)"
    using set_free_inv [OF I i, where b = True] b(1) by auto
next
  fix a assume a: "a \<noteq> 0" "\<forall>i < usable s. a \<noteq> g_vmalloc_start s + of_nat (i * vblock_size)"
  have "\<forall>j < length (vblocks s). int (0 + j) < total_blocks s \<longrightarrow> vb_addr (vblocks s ! j) \<noteq> a"
    using I a(2) unfolding vmalloc_inv_def usable_lt by (metis add_0)
  from vfree_find_None [OF this] show "vfree a s = None" using a(1) I by (simp add: vfree_def vmalloc_inv_def)
qed (rule vmalloc_ok [OF I n])

definition small_area :: vmalloc_area where
  "small_area = \<lparr>vblocks = [], g_vmalloc_start = 0xffffd00000000000, g_vmalloc_size = 0x600000, vmalloc_initiated = False, vbytes = (\<lambda>_. 7)\<rparr>"

theorem vmalloc_vfree_correct_witness:
  "vmalloc_inv (snd (init_jslab_vmalloc small_area)) \<and> vfree 0xffffd00000200000 (snd (init_jslab_vmalloc small_area)) \<noteq> None
    \<and> vfree 0xffffd00000200001 (snd (init_jslab_vmalloc small_area)) = None"
proof -
  let ?s = "snd (init_jslab_vmalloc small_area)"
  have u: "usable small_area = 3"
    by (simp add: usable_def total_blocks_def small_area_def MAX_VBLOCKS_def vblock_size_def)
  have nz: "\<forall>i < usable small_area. g_vmalloc_start small_area + of_nat (i * vblock_size) \<notin> {0, 0xffffd00000200001}"
    unfolding u numeral_3_eq_3 All_less_Suc by (simp add: small_area_def vblock_size_def)
  then have I: "vmalloc_inv ?s" by (intro init_vmalloc_inv(1)) auto
  have s: "usable ?s = 3" "g_vmalloc_start ?s = 0xffffd00000000000"
    using u by (simp_all add: usable_def total_blocks_def init_jslab_vmalloc_def small_area_def)
  note c = vmalloc_vfree_correct [OF I order_refl, THEN conjunct2, unfolded s]
  have "vfree (0xffffd00000000000 + of_nat (1 * vblock_size)) ?s \<noteq> None" using c [THEN conjunct1, rule_format, of 1] by auto
  moreover have "vfree 0xffffd00000200001 ?s = None" using c [THEN conjunct2, rule_format, of "0xffffd00000200001"] nz
    by (auto simp: u) (auto simp: small_area_def)
  ultimately show ?thesis using I by (simp add: vblock_size_def)
qed

end
