(* ===== verification/Fifo_Queue.thy ===== *)
theory Fifo_Queue
  imports Kernel_Prelude
begin

text \<open>
  The packet queues of sockets, class \<open>fifo_queue\<close> of fs/socket.cc: a ring of slots, filled by producers under one lock and emptied
  by consumers under another one or, by \<open>Bulk_remove_from_queue\<close>, under none. A slot is free when its buffer and length are 0.

  First the functions as they run undisturbed. Then producer and consumer side by side, as a step relation, with memory
  sequentially consistent: of the producers one is inside the lock at a time, and the same is assumed of the consumers,
  also of those that take no lock. Every write to a slot is a step of its own; the reads of buffer and length by a test are one step. The consumer takes the weaker of the two tests, that of \<open>Bulk_remove_from_queue\<close>, which does not look
  at the length. The index of the slot and the count of a side are advanced in one step, since only that side uses them.
\<close>

section \<open>The queue\<close>

record fifo_data =
  dbuf :: u64
  dlen :: u32
  dflags :: u32

record fifo =
  fdata :: "nat \<Rightarrow> fifo_data"
  max_queue_length :: nat
  p_index :: nat
  p_count :: u64
  c_index :: nat
  c_count :: u64
  has_waitq :: bool
  error_full :: u64
  stat_attached :: u64
  stat_drop :: u64
  error_empty_check :: u64

definition upd_data :: "nat \<Rightarrow> (fifo_data \<Rightarrow> fifo_data) \<Rightarrow> fifo \<Rightarrow> fifo" where
  "upd_data i f q = q\<lparr>fdata := (fdata q)(i := f (fdata q i))\<rparr>"

definition fifo_init :: "nat \<Rightarrow> bool \<Rightarrow> fifo" where
  "fifo_init g_conf_fifo_max_qlen wq_enable =
     \<lparr>fdata = (\<lambda>_. \<lparr>dbuf = 0, dlen = 0, dflags = 0\<rparr>), max_queue_length = g_conf_fifo_max_qlen, p_index = 0, p_count = 0,
      c_index = 0, c_count = 0, has_waitq = wq_enable, error_full = 0, stat_attached = 0, stat_drop = 0, error_empty_check = 0\<rparr>"

definition check_emptyspace :: "fifo \<Rightarrow> int \<times> fifo" where
  "check_emptyspace q =
     (if dbuf (fdata q (p_index q)) = 0 then (JSUCCESS, q)
      else (JFAIL, q\<lparr>error_empty_check := error_empty_check q + 1\<rparr>))"

definition next_producer :: "fifo \<Rightarrow> fifo" where
  "next_producer q = q\<lparr>p_index := if p_index q + 1 \<ge> max_queue_length q then 0 else p_index q + 1, p_count := p_count q + 1\<rparr>"

definition next_consumer :: "fifo \<Rightarrow> fifo" where
  "next_consumer q = q\<lparr>c_index := if c_index q + 1 \<ge> max_queue_length q then 0 else c_index q + 1, c_count := c_count q + 1\<rparr>"

text \<open>The result says as well whether the buffer was released and whether the waiters were woken.\<close>

record add_result =
  add_ret :: int
  freed_buf :: bool
  woken :: bool

definition add_to_queue :: "u64 \<Rightarrow> u32 \<Rightarrow> u32 \<Rightarrow> bool \<Rightarrow> fifo \<Rightarrow> add_result \<times> fifo" where
  "add_to_queue buf len data_flags freebuf_on_full q =
     (if buf = 0 \<or> len = 0 then (\<lparr>add_ret = JFAIL, freed_buf = False, woken = False\<rparr>, q)
      else let d = fdata q (p_index q) in
        if dbuf d = 0 \<and> dlen d = 0 then
          (\<lparr>add_ret = JSUCCESS, freed_buf = False, woken = has_waitq q\<rparr>,
           (next_producer (upd_data (p_index q) (\<lambda>d. d\<lparr>dlen := len, dbuf := buf, dflags := data_flags\<rparr>) q))
             \<lparr>stat_attached := stat_attached q + 1\<rparr>)
        else
          (\<lparr>add_ret = JFAIL, freed_buf = freebuf_on_full, woken = False\<rparr>,
           q\<lparr>error_full := error_full q + 1, stat_drop := stat_drop q + 1\<rparr>))"

definition peep_from_queue :: "fifo \<Rightarrow> (u64 \<times> u32 \<times> u32) option" where
  "peep_from_queue q =
     (let d = fdata q (c_index q) in if dbuf d \<noteq> 0 \<and> dlen d \<noteq> 0 then Some (dbuf d, dlen d, dflags d) else None)"

definition clear_slot :: "nat \<Rightarrow> fifo \<Rightarrow> fifo" where
  "clear_slot i = upd_data i (\<lambda>d. d\<lparr>dlen := 0, dbuf := 0\<rparr>)"

text \<open>One turn of the loop of \<open>remove_from_queue\<close>.\<close>

definition remove_try :: "fifo \<Rightarrow> (u64 \<times> u32 \<times> u32) option \<times> fifo" where
  "remove_try q = (case peep_from_queue q of
     None \<Rightarrow> (None, q)
   | Some e \<Rightarrow> (Some e, next_consumer (clear_slot (c_index q) q)))"

definition O_NONBLOCK :: u32 where "O_NONBLOCK = 0x800"

text \<open>The call returns, or the caller sleeps on the wait queue and tries again.\<close>

datatype remove_result = Removed "u64 \<times> u32 \<times> u32" | NoData | WaitForData

definition remove_from_queue :: "u32 \<Rightarrow> fifo \<Rightarrow> remove_result \<times> fifo" where
  "remove_from_queue wr_flags q = (case remove_try q of
     (Some e, q) \<Rightarrow> (Removed e, q)
   | (None, q) \<Rightarrow> (if wr_flags AND O_NONBLOCK \<noteq> 0 \<or> \<not> has_waitq q then NoData else WaitForData, q))"

primrec Bulk_remove_from_queue :: "nat \<Rightarrow> fifo \<Rightarrow> (u64 \<times> u32) list \<times> fifo" where
  "Bulk_remove_from_queue 0 q = ([], q)"
| "Bulk_remove_from_queue (Suc n) q =
     (let d = fdata q (c_index q) in
      if dbuf d \<noteq> 0 then
        let (ms, q) = Bulk_remove_from_queue n (next_consumer (clear_slot (c_index q) q)) in ((dbuf d, dlen d) # ms, q)
      else ([], q))"

definition is_empty :: "fifo \<Rightarrow> int" where
  "is_empty q = (if dbuf (fdata q (c_index q)) = 0 then JSUCCESS else JFAIL)"

definition queue_size :: "fifo \<Rightarrow> u64" where
  "queue_size q = p_count q - c_count q"

section \<open>Producer and consumer side by side\<close>

text \<open>How far \<open>add_to_queue\<close> and \<open>remove_from_queue\<close> or \<open>Bulk_remove_from_queue\<close> have got, with their local values.\<close>

datatype prod_pc = PIdle | PFound u64 u32 u32 | PLen u64 u32 u32 | PBuf u64 u32 u32 | PFlags u64 u32 u32
datatype cons_pc = CIdle | CFound u64 u32 | CRead u64 u32 u32 | CLen u64 u32 u32 | CBuf u64 u32 u32

text \<open>\<open>added\<close> and \<open>taken\<close> record what has been put into the queue and what has been got out of it.\<close>

record fifo_run =
  queue :: fifo
  prod :: prod_pc
  cons :: cons_pc
  added :: "(u64 \<times> u32 \<times> u32) list"
  taken :: "(u64 \<times> u32 \<times> u32) list"

definition start_run :: "nat \<Rightarrow> bool \<Rightarrow> fifo_run" where
  "start_run n w = \<lparr>queue = fifo_init n w, prod = PIdle, cons = CIdle, added = [], taken = []\<rparr>"

inductive fifo_step :: "fifo_run \<Rightarrow> fifo_run \<Rightarrow> bool" where
  find_slot: "prod s = PIdle \<Longrightarrow> buf \<noteq> 0 \<Longrightarrow> len \<noteq> 0 \<Longrightarrow> dbuf (fdata (queue s) (p_index (queue s))) = 0 \<Longrightarrow>
    dlen (fdata (queue s) (p_index (queue s))) = 0 \<Longrightarrow> fifo_step s (s\<lparr>prod := PFound buf len fl\<rparr>)"
| find_full: "prod s = PIdle \<Longrightarrow> dbuf (fdata (queue s) (p_index (queue s))) \<noteq> 0 \<or> dlen (fdata (queue s) (p_index (queue s))) \<noteq> 0 \<Longrightarrow>
    fifo_step s (s\<lparr>queue := (queue s)\<lparr>error_full := error_full (queue s) + 1, stat_drop := stat_drop (queue s) + 1\<rparr>\<rparr>)"
| write_len: "prod s = PFound buf len fl \<Longrightarrow>
    fifo_step s (s\<lparr>prod := PLen buf len fl, queue := upd_data (p_index (queue s)) (\<lambda>d. d\<lparr>dlen := len\<rparr>) (queue s)\<rparr>)"
| write_buf: "prod s = PLen buf len fl \<Longrightarrow>
    fifo_step s (s\<lparr>prod := PBuf buf len fl, queue := upd_data (p_index (queue s)) (\<lambda>d. d\<lparr>dbuf := buf\<rparr>) (queue s),
      added := added s @ [(buf, len, fl)]\<rparr>)"
| write_flags: "prod s = PBuf buf len fl \<Longrightarrow>
    fifo_step s (s\<lparr>prod := PFlags buf len fl, queue := upd_data (p_index (queue s)) (\<lambda>d. d\<lparr>dflags := fl\<rparr>) (queue s)\<rparr>)"
| advance: "prod s = PFlags buf len fl \<Longrightarrow>
    fifo_step s (s\<lparr>prod := PIdle, queue := (next_producer (queue s))\<lparr>stat_attached := stat_attached (queue s) + 1\<rparr>\<rparr>)"
| find_data: "cons s = CIdle \<Longrightarrow> dbuf (fdata (queue s) (c_index (queue s))) \<noteq> 0 \<Longrightarrow>
    fifo_step s (s\<lparr>cons := CFound (dbuf (fdata (queue s) (c_index (queue s)))) (dlen (fdata (queue s) (c_index (queue s))))\<rparr>)"
| read_flags: "cons s = CFound buf len \<Longrightarrow>
    fifo_step s (s\<lparr>cons := CRead buf len (dflags (fdata (queue s) (c_index (queue s))))\<rparr>)"
| clear_len: "cons s = CRead buf len fl \<Longrightarrow>
    fifo_step s (s\<lparr>cons := CLen buf len fl, queue := upd_data (c_index (queue s)) (\<lambda>d. d\<lparr>dlen := 0\<rparr>) (queue s)\<rparr>)"
| clear_buf: "cons s = CLen buf len fl \<Longrightarrow>
    fifo_step s (s\<lparr>cons := CBuf buf len fl, queue := upd_data (c_index (queue s)) (\<lambda>d. d\<lparr>dbuf := 0\<rparr>) (queue s),
      taken := taken s @ [(buf, len, fl)]\<rparr>)"
| leave: "cons s = CBuf buf len fl \<Longrightarrow> fifo_step s (s\<lparr>cons := CIdle, queue := next_consumer (queue s)\<rparr>)"

inductive fifo_reach :: "nat \<Rightarrow> bool \<Rightarrow> fifo_run \<Rightarrow> bool" for n w where
  start: "fifo_reach n w (start_run n w)"
| step: "fifo_reach n w s \<Longrightarrow> fifo_step s s' \<Longrightarrow> fifo_reach n w s'"

inductive_cases fifo_stepE: "fifo_step s s'"

section \<open>The invariant\<close>

definition payload :: "u64 \<times> u32 \<times> u32 \<Rightarrow> u64 \<times> u32" where
  "payload e = (fst e, fst (snd e))"

definition slot_of :: "fifo_run \<Rightarrow> nat \<Rightarrow> u64 \<times> u32" where
  "slot_of s j = (let d = fdata (queue s) (j mod max_queue_length (queue s)) in (dbuf d, dlen d))"

text \<open>The slots in use are those from the number of entries taken to the number of entries added.\<close>

fun writing :: "prod_pc \<Rightarrow> nat" where
  "writing (PBuf b n f) = 1" | "writing (PFlags b n f) = 1" | "writing _ = 0"

fun leaving :: "cons_pc \<Rightarrow> nat" where
  "leaving (CBuf b n f) = 1" | "leaving _ = 0"

fun seen :: "cons_pc \<Rightarrow> (u64 \<times> u32) option" where
  "seen (CFound b n) = Some (b, n)" | "seen (CRead b n f) = Some (b, n)" | "seen (CLen b n f) = Some (b, n)" | "seen _ = None"

fun clearing :: "cons_pc \<Rightarrow> bool" where
  "clearing (CLen b n f) = True" | "clearing _ = False"

fun len_written :: "prod_pc \<Rightarrow> u32" where
  "len_written (PLen b n f) = n" | "len_written _ = 0"

definition used_slot :: "fifo_run \<Rightarrow> nat \<Rightarrow> u64 \<times> u32" where
  "used_slot s j = (fst (payload (added s ! j)), if clearing (cons s) \<and> j = length (taken s) then 0 else snd (payload (added s ! j)))"

definition free_slot :: "fifo_run \<Rightarrow> nat \<Rightarrow> u64 \<times> u32" where
  "free_slot s j = (0, if j = length (added s) then len_written (prod s) else 0)"

fun claiming :: "prod_pc \<Rightarrow> (u64 \<times> u32) option" where
  "claiming (PFound b n f) = Some (b, n)" | "claiming (PLen b n f) = Some (b, n)" | "claiming _ = None"

definition fifo_inv :: "nat \<Rightarrow> fifo_run \<Rightarrow> bool" where
  "fifo_inv n s \<longleftrightarrow> max_queue_length (queue s) = n
     \<and> length (taken s) \<le> length (added s) \<and> length (added s) \<le> length (taken s) + n
     \<and> writing (prod s) \<le> length (added s) \<and> p_index (queue s) = (length (added s) - writing (prod s)) mod n
     \<and> leaving (cons s) \<le> length (taken s) \<and> c_index (queue s) = (length (taken s) - leaving (cons s)) mod n
     \<and> (\<forall>e \<in> set (added s). fst (payload e) \<noteq> 0 \<and> snd (payload e) \<noteq> 0)
     \<and> (\<forall>b k. claiming (prod s) = Some (b, k) \<longrightarrow> length (added s) < length (taken s) + n \<and> b \<noteq> 0 \<and> k \<noteq> 0)
     \<and> (\<forall>e. seen (cons s) = Some e \<longrightarrow> length (taken s) < length (added s) \<and> payload (added s ! length (taken s)) = e)
     \<and> (\<forall>j. length (taken s) \<le> j \<and> j < length (added s) \<longrightarrow> slot_of s j = used_slot s j)
     \<and> (\<forall>j. length (added s) \<le> j \<and> j < length (taken s) + n \<longrightarrow> slot_of s j = free_slot s j)
     \<and> map payload (taken s) = take (length (taken s)) (map payload (added s))"

lemma window_inj:
  fixes i j c n :: nat
  assumes "i mod n = j mod n" "c \<le> i" "c \<le> j" "i < c + n" "j < c + n"
  shows "i = j"
proof -
  have "i \<le> j \<Longrightarrow> i = j" if "i mod n = j mod n" "c \<le> i" "j < c + n" for i j :: nat
  proof -
    assume "i \<le> j"
    then have "n dvd j - i" using that(1) by (metis mod_eq_dvd_iff_nat)
    moreover have "j - i < n" using that(2,3) \<open>i \<le> j\<close> by linarith
    ultimately have "j - i = 0" using nat_dvd_not_less [of "j - i" n] by blast
    then show "i = j" using \<open>i \<le> j\<close> by simp
  qed
  from this [of i j] this [of j i] assms show ?thesis by (cases "i \<le> j") auto
qed

lemma slot_of_upd:
  assumes "max_queue_length (queue s) = n" "queue s' = upd_data (x mod n) f (queue s)" "c \<le> x" "x < c + n" "c \<le> j" "j < c + n"
  shows "slot_of s' j = (if j = x then (dbuf (f (fdata (queue s) (x mod n))), dlen (f (fdata (queue s) (x mod n)))) else slot_of s j)"
  using window_inj [of j n x c] assms by (auto simp: slot_of_def upd_data_def Let_def)

lemma slot_of_same: "fdata (queue s') = fdata (queue s) \<Longrightarrow> max_queue_length (queue s') = max_queue_length (queue s) \<Longrightarrow> slot_of s' j = slot_of s j"
  by (simp add: slot_of_def)

lemma slot_of_flags:
  assumes "queue s' = upd_data x f (queue s)" "\<And>d. dbuf (f d) = dbuf d" "\<And>d. dlen (f d) = dlen d"
  shows "slot_of s' j = slot_of s j"
  using assms by (simp add: slot_of_def upd_data_def Let_def)

lemma next_index:
  fixes i k n :: nat
  assumes "0 < n" "0 < k" "i = (k - 1) mod n"
  shows "(if i + 1 \<ge> n then 0 else i + 1) = k mod n"
proof -
  obtain m where k: "k = Suc m" using assms(2) by (cases k) auto
  have "m mod n < n" using assms(1) by simp
  then show ?thesis using assms(3) k by (cases "Suc (m mod n) = n") (simp_all add: mod_Suc)
qed

lemma fifo_invD:
  assumes "fifo_inv n s"
  shows "max_queue_length (queue s) = n" "length (taken s) \<le> length (added s)" "length (added s) \<le> length (taken s) + n"
    "p_index (queue s) = (length (added s) - writing (prod s)) mod n" "c_index (queue s) = (length (taken s) - leaving (cons s)) mod n"
    "e \<in> set (added s) \<Longrightarrow> fst (payload e) \<noteq> 0 \<and> snd (payload e) \<noteq> 0"
    "claiming (prod s) = Some (b, k) \<Longrightarrow> length (added s) < length (taken s) + n \<and> b \<noteq> 0 \<and> k \<noteq> 0"
    "seen (cons s) = Some v \<Longrightarrow> length (taken s) < length (added s) \<and> payload (added s ! length (taken s)) = v"
    "length (taken s) \<le> j \<Longrightarrow> j < length (added s) \<Longrightarrow> slot_of s j = used_slot s j"
    "length (added s) \<le> j \<Longrightarrow> j < length (taken s) + n \<Longrightarrow> slot_of s j = free_slot s j"
    "map payload (taken s) = take (length (taken s)) (map payload (added s))"
    "writing (prod s) \<le> length (added s)" "leaving (cons s) \<le> length (taken s)"
  using assms by (simp_all add: fifo_inv_def)

text \<open>The next slot of the producer is free or the ring is full; the next slot of the consumer is in use or the ring is empty.\<close>

lemma producer_slot:
  assumes I: "fifo_inv n s" and n: "0 < n" and p: "writing (prod s) = 0" and e: "dbuf (fdata (queue s) (p_index (queue s))) = 0"
  shows "length (added s) < length (taken s) + n"
proof (rule ccontr)
  let ?A = "length (added s)" and ?T = "length (taken s)"
  assume "\<not> ?A < ?T + n"
  then have A: "?A = ?T + n" using fifo_invD(3) [OF I] by simp
  then have "p_index (queue s) = ?T mod n" using fifo_invD(4) [OF I] p by simp
  then have "fst (slot_of s ?T) = 0" using e fifo_invD(1) [OF I] by (simp add: slot_of_def Let_def)
  moreover have "slot_of s ?T = used_slot s ?T" using fifo_invD(9) [OF I] A n by simp
  moreover have "fst (payload (added s ! ?T)) \<noteq> 0" using fifo_invD(6) [OF I, of "added s ! ?T"] A n by simp
  ultimately show False by (simp add: used_slot_def)
qed

lemma consumer_slot:
  assumes I: "fifo_inv n s" and n: "0 < n" and c: "cons s = CIdle" and e: "dbuf (fdata (queue s) (c_index (queue s))) \<noteq> 0"
  shows "length (taken s) < length (added s)"
    "payload (added s ! length (taken s)) = (dbuf (fdata (queue s) (c_index (queue s))), dlen (fdata (queue s) (c_index (queue s))))"
proof -
  let ?A = "length (added s)" and ?T = "length (taken s)"
  have "c_index (queue s) = ?T mod n" using fifo_invD(5) [OF I] c by simp
  then have v: "slot_of s ?T = (dbuf (fdata (queue s) (c_index (queue s))), dlen (fdata (queue s) (c_index (queue s))))"
    using fifo_invD(1) [OF I] by (simp add: slot_of_def Let_def)
  show A: "?T < ?A"
  proof (rule ccontr)
    assume "\<not> ?T < ?A"
    then have "slot_of s ?T = free_slot s ?T" using fifo_invD(2,10) [OF I] n by simp
    then show False using v e by (simp add: free_slot_def)
  qed
  then have "slot_of s ?T = used_slot s ?T" using fifo_invD(9) [OF I] by simp
  then show "payload (added s ! ?T) = (dbuf (fdata (queue s) (c_index (queue s))), dlen (fdata (queue s) (c_index (queue s))))"
    using v c by (simp add: used_slot_def)
qed

lemma next_sel [simp]:
  "fdata (next_producer q) = fdata q" "max_queue_length (next_producer q) = max_queue_length q" "c_index (next_producer q) = c_index q"
  "fdata (next_consumer q) = fdata q" "max_queue_length (next_consumer q) = max_queue_length q" "p_index (next_consumer q) = p_index q"
  by (simp_all add: next_producer_def next_consumer_def)

lemma clearing_used: "fifo_inv n s \<Longrightarrow> clearing (cons s) \<Longrightarrow> length (taken s) < length (added s)"
  using fifo_invD(8) [of n s] by (cases "cons s") auto

lemma len_written_claims: "fifo_inv n s \<Longrightarrow> len_written (prod s) \<noteq> 0 \<Longrightarrow> length (added s) < length (taken s) + n"
  using fifo_invD(7) [of n s] by (cases "prod s") auto

lemma slot_of_wrap: "max_queue_length (queue s) = n \<Longrightarrow> slot_of s (j + n) = slot_of s j"
  by (simp add: slot_of_def)

lemma write_len_inv:
  assumes I: "fifo_inv n s" and n: "0 < n" and write_len: "s' = s\<lparr>prod := PLen buf len fl, queue := upd_data (p_index (queue s)) (\<lambda>d. d\<lparr>dlen := len\<rparr>) (queue s)\<rparr>" "prod s = PFound buf len fl"
  shows "fifo_inv n s'"
proof -
  let ?A = "length (added s)" and ?T = "length (taken s)"
  have A: "?A < ?T + n" "?T \<le> ?A" using fifo_invD(2,7) [OF I] write_len by auto
  have "p_index (queue s) = ?A mod n" using fifo_invD(4) [OF I] write_len by simp
  then have "slot_of s' j = (if j = ?A then (fst (slot_of s j), len) else slot_of s j)" if "?T \<le> j" "j < ?T + n" for j
    using slot_of_upd [of s n s' ?A "\<lambda>d. d\<lparr>dlen := len\<rparr>" ?T j] fifo_invD(1) [OF I] A that write_len by (simp add: slot_of_def Let_def)
  then show ?thesis using I write_len A
    by (auto simp: fifo_inv_def used_slot_def free_slot_def upd_data_def)
qed

lemma write_buf_inv:
  assumes I: "fifo_inv n s" and n: "0 < n" and write_buf: "s' = s\<lparr>prod := PBuf buf len fl, queue := upd_data (p_index (queue s)) (\<lambda>d. d\<lparr>dbuf := buf\<rparr>) (queue s),
      added := added s @ [(buf, len, fl)]\<rparr>" "prod s = PLen buf len fl"
  shows "fifo_inv n s'"
proof -
  let ?A = "length (added s)" and ?T = "length (taken s)"
  have A: "?A < ?T + n" "?T \<le> ?A" using fifo_invD(2,7) [OF I] write_buf by auto
  have "p_index (queue s) = ?A mod n" using fifo_invD(4) [OF I] write_buf by simp
  then have "slot_of s' j = (if j = ?A then (buf, snd (slot_of s j)) else slot_of s j)" if "?T \<le> j" "j < ?T + n" for j
    using slot_of_upd [of s n s' ?A "\<lambda>d. d\<lparr>dbuf := buf\<rparr>" ?T j] fifo_invD(1) [OF I] A that write_buf by (simp add: slot_of_def Let_def)
  then show ?thesis using I write_buf A clearing_used [OF I]
    by (auto simp: fifo_inv_def used_slot_def free_slot_def upd_data_def nth_append payload_def)
qed

lemma advance_inv:
  assumes I: "fifo_inv n s" and n: "0 < n" and advance: "s' = s\<lparr>prod := PIdle, queue := (next_producer (queue s))\<lparr>stat_attached := stat_attached (queue s) + 1\<rparr>\<rparr>" "prod s = PFlags buf len fl"
  shows "fifo_inv n s'"
proof -
  have "slot_of s' j = slot_of s j" for j using advance by (intro slot_of_same) (simp_all add: next_producer_def)
  moreover have k: "0 < length (added s)" "p_index (queue s) = (length (added s) - 1) mod n"
    using fifo_invD(4,12) [OF I] advance(2) by auto
  have "p_index (next_producer (queue s)) = length (added s) mod n"
    using next_index [OF n k] fifo_invD(1) [OF I] by (simp add: next_producer_def)
  ultimately show ?thesis using I advance by (auto simp: fifo_inv_def used_slot_def free_slot_def)
qed

lemma clear_len_inv:
  assumes I: "fifo_inv n s" and n: "0 < n" and clear_len: "s' = s\<lparr>cons := CLen buf len fl, queue := upd_data (c_index (queue s)) (\<lambda>d. d\<lparr>dlen := 0\<rparr>) (queue s)\<rparr>" "cons s = CRead buf len fl"
  shows "fifo_inv n s'"
proof -
  let ?A = "length (added s)" and ?T = "length (taken s)"
  have A: "?T < ?A" "?A \<le> ?T + n" using fifo_invD(3,8) [OF I] clear_len by auto
  have "c_index (queue s) = ?T mod n" using fifo_invD(5) [OF I] clear_len by simp
  then have "slot_of s' j = (if j = ?T then (fst (slot_of s j), 0) else slot_of s j)" if "?T \<le> j" "j < ?T + n" for j
    using slot_of_upd [of s n s' ?T "\<lambda>d. d\<lparr>dlen := 0\<rparr>" ?T j] fifo_invD(1) [OF I] A that clear_len by (simp add: slot_of_def Let_def)
  then show ?thesis using I clear_len A
    by (auto simp: fifo_inv_def used_slot_def free_slot_def upd_data_def)
qed

lemma clear_buf_inv:
  assumes I: "fifo_inv n s" and n: "0 < n" and clear_buf: "s' = s\<lparr>cons := CBuf buf len fl, queue := upd_data (c_index (queue s)) (\<lambda>d. d\<lparr>dbuf := 0\<rparr>) (queue s),
      taken := taken s @ [(buf, len, fl)]\<rparr>" "cons s = CLen buf len fl"
  shows "fifo_inv n s'"
proof -
  let ?A = "length (added s)" and ?T = "length (taken s)"
  have A: "?T < ?A" "?A \<le> ?T + n" using fifo_invD(3,8) [OF I] clear_buf by auto
  have "c_index (queue s) = ?T mod n" using fifo_invD(5) [OF I] clear_buf by simp
  then have sl: "slot_of s' j = (if j = ?T then (0, snd (slot_of s j)) else slot_of s j)" if "?T \<le> j" "j < ?T + n" for j
    using slot_of_upd [of s n s' ?T "\<lambda>d. d\<lparr>dbuf := 0\<rparr>" ?T j] fifo_invD(1) [OF I] A that clear_buf by (simp add: slot_of_def Let_def)
  have "snd (slot_of s ?T) = 0" using fifo_invD(9) [OF I, of ?T] A clear_buf by (simp add: used_slot_def)
  moreover have "max_queue_length (queue s') = n" using fifo_invD(1) [OF I] clear_buf by (simp add: upd_data_def)
  ultimately have wrap: "slot_of s' (?T + n) = (0, 0)" using sl [of ?T] n by (simp add: slot_of_wrap)
  have used: "slot_of s' j = used_slot s' j" if "Suc ?T \<le> j" "j < ?A" for j
    using that sl [of j] A fifo_invD(9) [OF I, of j] clear_buf by (simp add: used_slot_def)
  have lw: "len_written (prod s) = 0" if "?A = ?T + n" using len_written_claims [OF I] that by (metis less_irrefl)
  have free: "slot_of s' j = free_slot s' j" if "?A \<le> j" "j < Suc ?T + n" for j
    using that sl [of j] wrap A fifo_invD(10) [OF I, of j] lw clear_buf
    by (cases "j = ?T + n") (auto simp: free_slot_def)
  show ?thesis using I clear_buf(1,2) A used free
    by (auto simp: fifo_inv_def upd_data_def take_Suc_conv_app_nth payload_def)
qed

lemma leave_inv:
  assumes I: "fifo_inv n s" and n: "0 < n" and leave: "s' = s\<lparr>cons := CIdle, queue := next_consumer (queue s)\<rparr>" "cons s = CBuf buf len fl"
  shows "fifo_inv n s'"
proof -
  have "slot_of s' j = slot_of s j" for j using leave by (intro slot_of_same) (simp_all add: next_consumer_def)
  moreover have k: "0 < length (taken s)" "c_index (queue s) = (length (taken s) - 1) mod n"
    using fifo_invD(5,13) [OF I] leave(2) by auto
  have "c_index (next_consumer (queue s)) = length (taken s) mod n"
    using next_index [OF n k] fifo_invD(1) [OF I] by (simp add: next_consumer_def)
  ultimately show ?thesis using I leave by (auto simp: fifo_inv_def used_slot_def free_slot_def)
qed

theorem fifo_inv_step:
  assumes I: "fifo_inv n s" and n: "0 < n" and st: "fifo_step s s'"
  shows "fifo_inv n s'"
  using st
proof cases
  case (find_slot buf len fl)
  have "slot_of s' j = slot_of s j" for j using find_slot(1) by (intro slot_of_same) simp_all
  then show ?thesis using I find_slot producer_slot [OF I n] by (auto simp: fifo_inv_def used_slot_def free_slot_def)
next
  case (write_flags buf len fl)
  have "slot_of s' j = slot_of s j" for j using slot_of_flags [of s' _ _ s j] write_flags by simp
  then show ?thesis using I write_flags
    by (auto simp: fifo_inv_def used_slot_def free_slot_def upd_data_def)
next
  case find_data
  have "slot_of s' j = slot_of s j" for j using find_data(1) by (intro slot_of_same) simp_all
  then show ?thesis using I find_data consumer_slot [OF I n] by (auto simp: fifo_inv_def used_slot_def free_slot_def)
next
  case find_full
  have "slot_of s' j = slot_of s j" for j using find_full(1) by (intro slot_of_same) simp_all
  then show ?thesis using I find_full by (auto simp: fifo_inv_def used_slot_def free_slot_def)
next
  case (read_flags buf len)
  have "slot_of s' j = slot_of s j" for j using read_flags(1) by (intro slot_of_same) simp_all
  then show ?thesis using I read_flags by (auto simp: fifo_inv_def used_slot_def free_slot_def)
qed (fact write_len_inv [OF I n] write_buf_inv [OF I n] advance_inv [OF I n] clear_len_inv [OF I n] clear_buf_inv [OF I n] leave_inv [OF I n])+

lemma fifo_reach_inv: "fifo_reach n w s \<Longrightarrow> 0 < n \<Longrightarrow> fifo_inv n s"
proof (induction rule: fifo_reach.induct)
  case start
  then show ?case by (auto simp: fifo_inv_def start_run_def fifo_init_def slot_of_def free_slot_def payload_def)
next
  case (step s s')
  then show ?case using fifo_inv_step by blast
qed

text \<open>The two counts.\<close>

definition counts_ok :: "fifo_run \<Rightarrow> bool" where
  "counts_ok s \<longleftrightarrow> p_count (queue s) + of_nat (writing (prod s)) = of_nat (length (added s))
     \<and> c_count (queue s) + of_nat (leaving (cons s)) = of_nat (length (taken s))"

lemma fifo_reach_counts: "fifo_reach n w s \<Longrightarrow> counts_ok s"
proof (induction rule: fifo_reach.induct)
  case start
  then show ?case by (simp add: counts_ok_def start_run_def fifo_init_def)
next
  case (step s s')
  from step.hyps(2) step.IH show ?case
    by (cases rule: fifo_step.cases) (auto simp: counts_ok_def upd_data_def next_producer_def next_consumer_def)
qed

section \<open>Calls as sequences of steps\<close>

inductive fifo_steps :: "fifo_run \<Rightarrow> fifo_run \<Rightarrow> bool" where
  refl: "fifo_steps s s"
| more: "fifo_steps s s1 \<Longrightarrow> fifo_step s1 s2 \<Longrightarrow> fifo_steps s s2"

lemma steps4:
  assumes "fifo_step s s1" "fifo_step s1 s2" "fifo_step s2 s3" "fifo_step s3 s4"
  shows "fifo_steps s s4"
  by (rule fifo_steps.more [OF fifo_steps.more [OF fifo_steps.more [OF fifo_steps.more [OF fifo_steps.refl assms(1)] assms(2)] assms(3)] assms(4)])

lemma fifo_steps_reach: "fifo_steps s s' \<Longrightarrow> fifo_reach n w s \<Longrightarrow> fifo_reach n w s'"
  by (induction rule: fifo_steps.induct) (auto intro: fifo_reach.step)

text \<open>A call of \<open>add_to_queue\<close> or of the body of \<open>remove_from_queue\<close> that is not disturbed by the other side is such a sequence.\<close>

lemma add_is_steps:
  assumes "prod s = PIdle" "add_ret (fst (add_to_queue buf len fl fr (queue s))) = JSUCCESS"
  shows "fifo_steps s (s\<lparr>queue := snd (add_to_queue buf len fl fr (queue s)), added := added s @ [(buf, len, fl)]\<rparr>)"
proof -
  let ?i = "p_index (queue s)" and ?q = "queue s"
  have c: "buf \<noteq> 0" "len \<noteq> 0" "dbuf (fdata ?q ?i) = 0" "dlen (fdata ?q ?i) = 0"
    using assms(2) by (auto simp: add_to_queue_def Let_def split: if_splits)
  let ?s1 = "s\<lparr>prod := PFound buf len fl\<rparr>"
  let ?s2 = "?s1\<lparr>prod := PLen buf len fl, queue := upd_data (p_index (queue ?s1)) (\<lambda>d. d\<lparr>dlen := len\<rparr>) (queue ?s1)\<rparr>"
  let ?s3 = "?s2\<lparr>prod := PBuf buf len fl, queue := upd_data (p_index (queue ?s2)) (\<lambda>d. d\<lparr>dbuf := buf\<rparr>) (queue ?s2), added := added ?s2 @ [(buf, len, fl)]\<rparr>"
  let ?s4 = "?s3\<lparr>prod := PFlags buf len fl, queue := upd_data (p_index (queue ?s3)) (\<lambda>d. d\<lparr>dflags := fl\<rparr>) (queue ?s3)\<rparr>"
  let ?s5 = "?s4\<lparr>prod := PIdle, queue := (next_producer (queue ?s4))\<lparr>stat_attached := stat_attached (queue ?s4) + 1\<rparr>\<rparr>"
  have a1: "fifo_step s ?s1" using assms(1) c by (intro find_slot)
  have a2: "fifo_step ?s1 ?s2" by (rule write_len) simp
  have a3: "fifo_step ?s2 ?s3" by (rule write_buf) simp
  have a4: "fifo_step ?s3 ?s4" by (rule write_flags) simp
  have a5: "fifo_step ?s4 ?s5" by (rule advance) simp
  have st: "fifo_steps s ?s5" by (rule fifo_steps.more [OF steps4 [OF a1 a2 a3 a4] a5])
  have "?s5 = s\<lparr>queue := snd (add_to_queue buf len fl fr ?q), added := added s @ [(buf, len, fl)]\<rparr>"
    using c assms(1) by (intro fifo_run.equality) (simp_all add: add_to_queue_def Let_def upd_data_def next_producer_def)
  from st [unfolded this] show ?thesis .
qed

lemma remove_is_steps:
  assumes "cons s = CIdle" "remove_try (queue s) = (Some e, q)"
  shows "fifo_steps s (s\<lparr>queue := q, taken := taken s @ [e]\<rparr>)"
proof -
  let ?i = "c_index (queue s)"
  obtain buf len fl where e: "e = (buf, len, fl)" by (cases e)
  have c: "dbuf (fdata (queue s) ?i) = buf" "dlen (fdata (queue s) ?i) = len" "dflags (fdata (queue s) ?i) = fl" "buf \<noteq> 0"
    "q = next_consumer (clear_slot ?i (queue s))"
    using assms(2) by (auto simp: e remove_try_def peep_from_queue_def Let_def split: if_splits)
  let ?s1 = "s\<lparr>cons := CFound buf len\<rparr>" and ?s2 = "s\<lparr>cons := CRead buf len fl\<rparr>"
  let ?s3 = "?s2\<lparr>cons := CLen buf len fl, queue := upd_data (c_index (queue ?s2)) (\<lambda>d. d\<lparr>dlen := 0\<rparr>) (queue ?s2)\<rparr>"
  let ?s4 = "?s3\<lparr>cons := CBuf buf len fl, queue := upd_data (c_index (queue ?s3)) (\<lambda>d. d\<lparr>dbuf := 0\<rparr>) (queue ?s3), taken := taken ?s3 @ [(buf, len, fl)]\<rparr>"
  let ?s5 = "?s4\<lparr>cons := CIdle, queue := next_consumer (queue ?s4)\<rparr>"
  have a1: "fifo_step s ?s1" using find_data [OF assms(1)] c by simp
  have a2: "fifo_step ?s1 ?s2" using read_flags [of ?s1 buf len] c by simp
  have a3: "fifo_step ?s2 ?s3" by (rule clear_len) simp
  have a4: "fifo_step ?s3 ?s4" by (rule clear_buf) simp
  have a5: "fifo_step ?s4 ?s5" by (rule leave) simp
  have st: "fifo_steps s ?s5" by (rule fifo_steps.more [OF steps4 [OF a1 a2 a3 a4] a5])
  have "?s5 = s\<lparr>queue := q, taken := taken s @ [e]\<rparr>"
    using c(5) assms(1) e by (intro fifo_run.equality) (simp_all add: clear_slot_def upd_data_def next_consumer_def)
  from st [unfolded this] show ?thesis .
qed

section \<open>Properties\<close>

text \<open>
  C40: however producer and consumer interleave, the buffers and lengths got out of the queue are those put into it, in order and
  without loss or repetition, at most as many entries are in the queue as it has slots, and the indices stay inside the ring.
  Seen from a producer that is not inside a call, an add of a proper buffer succeeds exactly as long as the ring is not full; seen from
  a consumer, the queue is empty exactly if all entries have been taken, and the entry that would be taken is the oldest one.
  When neither side is inside a call the size of the queue is the number of entries.
\<close>

theorem fifo_order:
  assumes R: "fifo_reach n w s" and n: "0 < n"
  shows "map payload (taken s) = take (length (taken s)) (map payload (added s))
    \<and> length (taken s) \<le> length (added s) \<and> length (added s) \<le> length (taken s) + n
    \<and> p_index (queue s) < n \<and> c_index (queue s) < n
    \<and> (prod s = PIdle \<longrightarrow> (\<forall>b l f fr. b \<noteq> 0 \<longrightarrow> l \<noteq> 0 \<longrightarrow>
         (add_ret (fst (add_to_queue b l f fr (queue s))) = JSUCCESS \<longleftrightarrow> length (added s) < length (taken s) + n)))
    \<and> (cons s = CIdle \<longrightarrow> (is_empty (queue s) = JSUCCESS \<longleftrightarrow> length (taken s) = length (added s))
         \<and> map_option payload (peep_from_queue (queue s)) =
           (if length (taken s) < length (added s) then Some (payload (added s ! length (taken s))) else None))
    \<and> (prod s = PIdle \<longrightarrow> cons s = CIdle \<longrightarrow> queue_size (queue s) = of_nat (length (added s) - length (taken s)))"
proof -
  note I = fifo_reach_inv [OF R n]
  let ?A = "length (added s)" and ?T = "length (taken s)" and ?q = "queue s"
  have ix: "p_index ?q < n" "c_index ?q < n" using fifo_invD(4,5) [OF I] n by simp_all
  have add: "add_ret (fst (add_to_queue b l f fr ?q)) = JSUCCESS \<longleftrightarrow> ?A < ?T + n" if "prod s = PIdle" "b \<noteq> 0" "l \<noteq> 0" for b l f fr
  proof -
    have "slot_of s ?A = (dbuf (fdata ?q (p_index ?q)), dlen (fdata ?q (p_index ?q)))"
      using fifo_invD(1,4) [OF I] that(1) by (simp add: slot_of_def Let_def)
    then have "?A < ?T + n \<Longrightarrow> dbuf (fdata ?q (p_index ?q)) = 0 \<and> dlen (fdata ?q (p_index ?q)) = 0"
      using fifo_invD(10) [OF I, of ?A] that(1) by (simp add: free_slot_def)
    then show ?thesis using producer_slot [OF I n] that by (auto simp: add_to_queue_def Let_def)
  qed
  have get: "(dbuf (fdata ?q (c_index ?q)) = 0 \<longleftrightarrow> ?T = ?A) \<and> map_option payload (peep_from_queue ?q) =
      (if ?T < ?A then Some (payload (added s ! ?T)) else None)" if c: "cons s = CIdle"
  proof (cases "dbuf (fdata ?q (c_index ?q)) = 0")
    case True
    have "slot_of s ?T = (0, dlen (fdata ?q (c_index ?q)))" using True fifo_invD(1,5) [OF I] c by (simp add: slot_of_def Let_def)
    then have "\<not> ?T < ?A" using fifo_invD(9) [OF I, of ?T] fifo_invD(6) [OF I, of "added s ! ?T"] by (auto simp: used_slot_def)
    then show ?thesis using True fifo_invD(2) [OF I] by (simp add: peep_from_queue_def Let_def)
  next
    case False
    note h = consumer_slot [OF I n c False]
    then have "dlen (fdata ?q (c_index ?q)) \<noteq> 0" using fifo_invD(6) [OF I, of "added s ! ?T"] by simp
    then show ?thesis using False h by (simp add: peep_from_queue_def Let_def payload_def)
  qed
  have size: "queue_size ?q = of_nat (?A - ?T)" if "prod s = PIdle" "cons s = CIdle"
    using fifo_reach_counts [OF R] that fifo_invD(2) [OF I] by (simp add: counts_ok_def queue_size_def of_nat_diff)
  show ?thesis using fifo_invD(2,3,11) [OF I] ix add get size by (auto simp: is_empty_def)
qed

lemma fifo_example: "fifo_steps (start_run 2 False) s \<Longrightarrow> fifo_reach 2 False s"
  by (rule fifo_steps_reach) (auto intro: fifo_reach.start)

theorem fifo_order_witness:
  "\<exists>s. fifo_reach 2 False s \<and> added s = [(0x1000, 60, 0)] \<and> p_index (queue s) < 2 \<and> queue_size (queue s) = 1"
proof -
  let ?s0 = "start_run 2 False"
  let ?s = "?s0\<lparr>queue := snd (add_to_queue 0x1000 60 0 True (queue ?s0)), added := added ?s0 @ [(0x1000, 60, 0)]\<rparr>"
  have "fifo_reach 2 False ?s"
    by (rule fifo_example, rule add_is_steps) (simp_all add: start_run_def fifo_init_def add_to_queue_def Let_def)
  from fifo_order [OF this] this show ?thesis by (auto simp: start_run_def)
qed

text \<open>
  The flags of an entry are written after its buffer, which makes it visible, and so a consumer can read the
  old flags of the slot.
\<close>

lemma fifo_flags_race: "\<exists>s. fifo_reach 1 False s \<and> added s = [(1, 1, 1)] \<and> taken s = [(1, 1, 0)]"
proof -
  let ?s0 = "start_run 1 False"
  let ?s1 = "?s0\<lparr>prod := PFound 1 1 1\<rparr>"
  let ?s2 = "?s1\<lparr>prod := PLen 1 1 1, queue := upd_data (p_index (queue ?s1)) (\<lambda>d. d\<lparr>dlen := 1\<rparr>) (queue ?s1)\<rparr>"
  let ?s3 = "?s2\<lparr>prod := PBuf 1 1 1, queue := upd_data (p_index (queue ?s2)) (\<lambda>d. d\<lparr>dbuf := 1\<rparr>) (queue ?s2), added := added ?s2 @ [(1, 1, 1)]\<rparr>"
  have r: "fifo_reach 1 False ?s3"
  proof -
    have a1: "fifo_step ?s0 ?s1" by (rule find_slot) (simp_all add: start_run_def fifo_init_def)
    have a2: "fifo_step ?s1 ?s2" by (rule write_len) simp
    have a3: "fifo_step ?s2 ?s3" by (rule write_buf) simp
    show ?thesis by (rule fifo_reach.step [OF fifo_reach.step [OF fifo_reach.step [OF fifo_reach.start a1] a2] a3])
  qed
  let ?q = "next_consumer (clear_slot (c_index (queue ?s3)) (queue ?s3))"
  have "fifo_steps ?s3 (?s3\<lparr>queue := ?q, taken := taken ?s3 @ [(1, 1, 0)]\<rparr>)"
    by (rule remove_is_steps) (simp_all add: start_run_def fifo_init_def upd_data_def remove_try_def peep_from_queue_def Let_def)
  then have "fifo_reach 1 False (?s3\<lparr>queue := ?q, taken := taken ?s3 @ [(1, 1, 0)]\<rparr>)" using r by (rule fifo_steps_reach)
  then show ?thesis by (rule exI [where x = "?s3\<lparr>queue := ?q, taken := taken ?s3 @ [(1, 1, 0)]\<rparr>", OF conjI]) (simp add: start_run_def)
qed

end
