(* ===== verification/Spec2Isabelle.thy ===== *)
theory Spec2Isabelle
  imports Linked_List Page_Alloc Blocking Scanf Vma_Runs Jslab_Runs Page_Cache_Correct Vmalloc Fifo_Queue
begin

text \<open>
  A verification library for the Jiny kernel: memory management, scheduling and blocking, address spaces, the
  packet queues of sockets, and the string and formatting routines that all of it uses. Paths are relative to src/.

  \<^bold>\<open>Conventions.\<close> The state of a component is a record of the globals and structures of its source file, and each C function
  is a definition of the same name (a suffix where HOL has the name) that takes the state and returns the new one. The
  value \<open>None\<close> means that the kernel stops there: \<open>BUG()\<close>, a failed \<open>assert\<close>, an endless loop that reports an error, a null
  pointer or an access outside an array. That an operation returns is therefore a statement about memory safety too. Integers whose width
  matters are words; the theories say which counters and sizes are unbounded. A function that runs under a
  spin lock is one step. Log output, backtraces, statistics printing and shell commands are left out.

  \<^bold>\<open>Parts.\<close>

  \<^item> \<open>Kernel_Prelude\<close>: names for machine integers, bit lemmas, runs of operations, and the locale \<open>machine\<close>: an
    invariant that every legal operation keeps is kept by every legal run. Each component that has runs interprets it.
  \<^item> \<open>Linked_List\<close> (include/list.h): circular lists on a store of pointers. The locale \<open>list_interface\<close> holds what clients rely
    on; the functions of list.h interpret it. The later theories use HOL lists in place of these lists (C8, C9).
  \<^item> \<open>Buddy\<close>, \<open>Page_Init\<close>, \<open>Page_Alloc\<close> (mm/memory.c): the page allocator, its boot and its contract. The loop that
    merges buddies by bit tricks equals a recursive reference definition (C6). Allocation, release, round trip,
    disjointness, boot and runs are C1 to C5 and C7. The locale \<open>page_source\<close> is what the clients of the allocator assume.
  \<^item> \<open>Sched\<close>, \<open>Sched_Runs\<close> (kernel/sched_task.cc): tasks, run queues, the context switch and boot. No task is ever in two
    places, switching is round robin, a task bound to another cpu starves (C10 to C14).
  \<^item> \<open>Wait_Queue\<close>, \<open>Blocking\<close> (kernel/ipc.cc): delta lists of sleeping tasks on top of the scheduler, the timer, and bounds on when a
    sleeper wakes (C15 to C20).
  \<^item> \<open>Strutil\<close>, \<open>Printf\<close>, \<open>Scanf\<close> (kernel/util.c): string and memory routines, formatted output and input, with
    truncation, termination and round trips (C21 to C28).
  \<^item> \<open>Vma\<close>, \<open>Vma_Runs\<close> (mm/vm.cc): the areas of an address space never overlap; mapping, unmapping, the heap break and copying
    (C29 to C33).
  \<^item> \<open>Jslab\<close>, \<open>Jslab_Correct\<close>, \<open>Jslab_Runs\<close> (mm/jslab.c): the slab allocator. Its proofs use the page allocator only through
    the locale \<open>slab_pages\<close>, which assumes \<open>page_source\<close> for every value of the flags and is interpreted by the buddy allocator (C34 to C36). The
    cache of 32-byte objects, whose slabs have more slots than the map has bits, is excluded there; C37 shows what goes wrong.
  \<^item> \<open>Page_Cache\<close>, \<open>Page_Cache_Correct\<close> (mm/jslab.c): the per-cpu caches of network buffers in front of the page
    allocator (C38). \<open>Vmalloc\<close> (mm/jslab.c): the area of 2 MB blocks (C39).
  \<^item> \<open>Fifo_Queue\<close> (fs/socket.cc): the ring of packets between the network and a socket. Producer and consumer hold different
    locks, so here the interleavings are explicit, as a step relation (C40).

  \<^bold>\<open>Loops.\<close> No definition uses fuel. Loops over lists are structural recursion or functions with a termination proof. The loops of
  list traversal, of the page allocator's merge and boot, and of \<open>wakeup\<close> are partial functions whose value is \<open>None\<close> when they do not end; the
  lemmas about them state that they return.

  \<^bold>\<open>Limits.\<close> Except for the packet queues each call is one step, so races inside a call are outside the model. The step relation of the packet
  queues takes memory to be sequentially consistent and admits one producer and one consumer at a time, although
  \<open>Bulk_remove_from_queue\<close> takes no lock; the flags of an entry are not covered by C40, and \<open>fifo_flags_race\<close> shows why.

  \<^bold>\<open>Not modelled.\<close> Of the modelled files: creation and exit of processes (sched_task.cc), \<open>ut_mmx_memcpy\<close> (assembler, util.c), \<open>fifo_queue::free\<close>
  and the rest of socket.cc. Not covered yet, though they are ordinary sequential or blocking code: semaphores, mutexes and futexes (ipc.cc), the file page cache
  (mm/pagecache.cc), files and descriptors, pipes, epoll, the tar file system, TCP, and the leak detector. Outside the reach of this kind of
  model: page tables and processor support under arch/, the drivers, whose counterpart is a device or a hypervisor, program loading, and the
  third-party network stacks. Diagnostics, the shell and the test programs have no property of their own.
\<close>

end
